(* ===== verification/DS_Prelude.thy ===== *)
theory DS_Prelude
  imports Main "HOL-Library.Word"
begin

text \<open>
  Shared vocabulary of the development: the machine types the C sources use, the loop
  combinator for the 64-bit counting loops, and the lemmas on words and lists that the
  component theories share.
  \<^item> \<open>u64\<close>, \<open>u32\<close>, \<open>byte\<close> are the C types uint64\_t, unsigned int and char; arithmetic on them
    wraps around as it does in C.
  \<^item> a fixed-size array member (\<open>uint64_t c[BBOX_MAX_NDIM]\<close>) is a total function from the
    index; the code reads and writes only the first \<open>num_dims\<close> entries, and each theorem
    says so where it matters.
  \<^item> \<open>vec\<close> builds such an array from a list, the rest being zero, as after a memset.
\<close>

unbundle bit_operations_syntax

type_synonym u64 = "64 word"
type_synonym u32 = "32 word"
type_synonym byte = "8 word"
type_synonym coord = "nat \<Rightarrow> u64"

named_theorems ds_split \<comment> \<open>case splits of the model's own case expressions\<close>
named_theorems ds_defs \<comment> \<open>definitions unfolded when a witness is evaluated\<close>

definition vec :: "u64 list \<Rightarrow> coord" where
  "vec xs = (\<lambda>i. if i < length xs then xs ! i else 0)"

lemma vec_simps [simp]:
  "vec [] i = 0"
  "vec (x # xs) 0 = x"
  "vec (x # xs) (Suc i) = vec xs i"
  "vec (x # xs) 1 = vec xs 0"
  "vec (x # xs) (numeral k) = vec xs (pred_numeral k)"
  by (auto simp: vec_def numeral_eq_Suc)

lemma all_less_numeral:
  "(\<forall>i<(1::nat). P i) \<longleftrightarrow> P 0"
  "(\<forall>i<(2::nat). P i) \<longleftrightarrow> P 0 \<and> P 1"
  "(\<forall>i<(3::nat). P i) \<longleftrightarrow> P 0 \<and> P 1 \<and> P 2"
  by (auto simp: less_Suc_eq numeral_eq_Suc)

text \<open>
  C loops of the form \<open>for (a = lo; a <= hi; a++) body\<close> over \<open>uint64_t\<close>. The loop does not
  return when \<open>hi\<close> is the largest value of the type (the counter wraps), hence the option.
\<close>

partial_function (option) for_u64 ::
  "u64 \<Rightarrow> u64 \<Rightarrow> (u64 \<Rightarrow> 's \<Rightarrow> 's option) \<Rightarrow> 's \<Rightarrow> 's option" where
  "for_u64 a hi f s =
     (if a \<le> hi then Option.bind (f a s) (\<lambda>s'. for_u64 (a + 1) hi f s') else Some s)"

text \<open>A loop over the elements of a list whose body may fail.\<close>

fun foldM :: "('a \<Rightarrow> 's \<Rightarrow> 's option) \<Rightarrow> 'a list \<Rightarrow> 's \<Rightarrow> 's option" where
  "foldM f [] s = Some s"
| "foldM f (x # xs) s = Option.bind (f x s) (foldM f xs)"

lemma foldM_append [simp]: "foldM f (xs @ ys) s = Option.bind (foldM f xs s) (foldM f ys)"
  by (induction xs arbitrary: s) (auto split: bind_splits)

lemma foldM_Some: "foldM (\<lambda>x s. Some (f x s)) xs s = Some (fold f xs s)"
  by (induction xs arbitrary: s) auto

lemma find_SomeD: "find P xs = Some x \<Longrightarrow> x \<in> set xs \<and> P x"
  by (auto simp: find_Some_iff)

lemma find_not_None: "find P xs \<noteq> None \<longleftrightarrow> (\<exists>x\<in>set xs. P x)"
  unfolding find_None_iff by blast

subsection \<open>Words\<close>

lemma u64_less_max: "unat (x :: u64) < 18446744073709551616"
  using unsigned_less [of x] by simp

lemma unat_add_u64:
  "unat (x :: u64) + unat y < 2 ^ 64 \<Longrightarrow> unat (x + y) = unat x + unat y"
  by (simp add: unat_word_ariths)

lemma unat_Suc_u64: "(x :: u64) < hi \<Longrightarrow> unat (x + 1) = Suc (unat x)"
  using unat_add_u64 [of x 1] u64_less_max [of hi] by (auto simp: word_less_nat_alt)

lemma unat_diff_u64: "(y :: u64) \<le> x \<Longrightarrow> unat (x - y) = unat x - unat y"
  by (rule unat_sub)

lemma unat_mult_u64:
  "unat (x :: u64) * unat y < 2 ^ 64 \<Longrightarrow> unat (x * y) = unat x * unat y"
  by (simp add: unat_word_ariths)

lemma unat_half_u64: "unat (drop_bit 1 (x :: 'a :: len word)) = unat x div 2"
  by (metis drop_bit_eq_div power_one_right unat_drop_bit_eq)

lemma unat_exp_u64:
  assumes "k < 64"
  shows "unat (2 ^ k :: u64) = 2 ^ k"
proof -
  have "unat (of_nat (2 ^ k) :: u64) = 2 ^ k mod 2 ^ LENGTH(64)"
    by (rule unat_of_nat)
  also have "\<dots> = 2 ^ k"
    using assms by (intro mod_less) (rule power_strict_increasing, simp_all)
  finally show ?thesis by simp
qed

lemma odd_unat_div_exp: "odd (unat (x :: u64) div 2 ^ k) \<longleftrightarrow> bit x k"
  by (simp add: bit_unsigned_iff flip: bit_iff_odd)

lemma unat_half_less [simp]: "(x :: 'a :: len word) \<noteq> 0 \<Longrightarrow> unat (drop_bit (Suc 0) x) < unat x"
  using unat_half_u64 [of x] unat_gt_0 [of x] by simp

lemma u64_le_nat: "(x :: u64) \<le> y \<longleftrightarrow> unat x \<le> unat y"
  by (rule word_le_nat_alt)

lemma u64_less_nat: "(x :: u64) < y \<longleftrightarrow> unat x < unat y"
  by (rule word_less_nat_alt)

lemma u64_eq_nat: "(x :: u64) = y \<longleftrightarrow> unat x = unat y"
  by (metis word_unat_eq_iff)

lemmas u64_nat = u64_le_nat u64_less_nat

text \<open>A 64-bit value below \<open>2 ^ 31\<close> survives a round trip through the C type \<open>int\<close>.\<close>

lemma int32_roundtrip:
  assumes "unat (x :: u64) < 2 ^ 31"
  shows "scast (ucast x :: u32) = x"
proof -
  have "uint x < 2 ^ 31"
    using assms by (metis of_nat_less_iff of_nat_numeral of_nat_power uint_nat)
  moreover have "uint (ucast x :: u32) = uint x"
    using calculation by (simp add: unsigned_ucast_eq take_bit_int_eq_self)
  ultimately have "sint (ucast x :: u32) = uint x"
    by (simp add: sint_uint signed_take_bit_int_eq_self_iff) (smt (verit) uint_ge_0)
  then show ?thesis
    by (simp add: scast_eq)
qed

end
