(* ===== verification/DS_BBox.thy ===== *)
theory DS_BBox
  imports DS_Prelude "HOL-Library.FuncSet"
begin

text \<open>
  Bounding boxes (src/src/bbox.c, src/include/bbox.h): the box and interval records, the
  geometric tests, intersection, the two ways the code splits a box, and the power-of-two
  helpers. \<open>in_bbox\<close> reads a box as the set of its cells; every operation is related to it.
\<close>

subsection \<open>Data\<close>

record bbox =
  num_dims :: nat
  lb :: coord
  ub :: coord

record intv =
  i_lb :: u64
  i_ub :: u64

subsection \<open>Operations\<close>

definition coord_dist :: "coord \<Rightarrow> coord \<Rightarrow> nat \<Rightarrow> u64" where
  "coord_dist c0 c1 dim = c1 dim - c0 dim + 1"

definition bbox_dist :: "bbox \<Rightarrow> nat \<Rightarrow> u64" where
  "bbox_dist bb dim = coord_dist (lb bb) (ub bb) dim"

definition bbox_divide_in2_ondim :: "bbox \<Rightarrow> nat \<Rightarrow> bbox \<times> bbox" where
  "bbox_divide_in2_ondim b0 dim =
     (let n = drop_bit 1 (lb b0 dim + ub b0 dim)
      in (b0\<lparr>ub := (ub b0)(dim := n)\<rparr>, b0\<lparr>lb := (lb b0)(dim := n + 1)\<rparr>))"

text \<open>
  In \<open>bbox_divide\<close> the middle point is stored in a C \<open>int\<close>: it is cut to 32 bits and sign
  extended when it is written back into a coordinate. \<open>bbox_divide_mid\<close> and
  \<open>bbox_divide_mid1\<close> are the two values the code writes (\<open>n\<close> and \<open>n + 1\<close>).
\<close>

definition bbox_divide_mid :: "bbox \<Rightarrow> nat \<Rightarrow> u64" where
  "bbox_divide_mid b0 j = scast (ucast ((lb b0 j + ub b0 j) div 2) :: u32)"

definition bbox_divide_mid1 :: "bbox \<Rightarrow> nat \<Rightarrow> u64" where
  "bbox_divide_mid1 b0 j = scast (ucast ((lb b0 j + ub b0 j) div 2) + 1 :: u32)"

definition bbox_divide_child :: "bbox \<Rightarrow> nat \<Rightarrow> bbox \<Rightarrow> bbox" where
  "bbox_divide_child b0 i old =
     \<lparr>num_dims = num_dims b0,
      lb = (\<lambda>j. if j < num_dims b0
                then (if bit i j then bbox_divide_mid1 b0 j else lb b0 j) else lb old j),
      ub = (\<lambda>j. if j < num_dims b0
                then (if bit i j then ub b0 j else bbox_divide_mid b0 j) else ub old j)\<rparr>"

definition bbox_divide :: "bbox \<Rightarrow> (nat \<Rightarrow> bbox) \<Rightarrow> (nat \<Rightarrow> bbox)" where
  "bbox_divide b0 b_tab =
     (\<lambda>i. if i < 2 ^ num_dims b0 then bbox_divide_child b0 i (b_tab i) else b_tab i)"

definition bbox_include_ondim :: "bbox \<Rightarrow> bbox \<Rightarrow> nat \<Rightarrow> bool" where
  "bbox_include_ondim b0 b1 dim \<longleftrightarrow> lb b0 dim \<le> lb b1 dim \<and> ub b0 dim \<ge> ub b1 dim"

definition bbox_include :: "bbox \<Rightarrow> bbox \<Rightarrow> bool" where
  "bbox_include b0 b1 \<longleftrightarrow> list_all (bbox_include_ondim b0 b1) [0..<num_dims b0]"

definition bbox_intersect_ondim :: "bbox \<Rightarrow> bbox \<Rightarrow> nat \<Rightarrow> bool" where
  "bbox_intersect_ondim b0 b1 dim \<longleftrightarrow>
     (lb b0 dim \<le> lb b1 dim \<and> lb b1 dim \<le> ub b0 dim) \<or>
     (lb b1 dim \<le> lb b0 dim \<and> lb b0 dim \<le> ub b1 dim)"

definition bbox_does_intersect :: "bbox \<Rightarrow> bbox \<Rightarrow> bool" where
  "bbox_does_intersect b0 b1 \<longleftrightarrow> list_all (bbox_intersect_ondim b0 b1) [0..<num_dims b0]"

definition bbox_intersect :: "bbox \<Rightarrow> bbox \<Rightarrow> bbox \<Rightarrow> bbox" where
  "bbox_intersect b0 b1 b2 =
     \<lparr>num_dims = num_dims b0,
      lb = (\<lambda>i. if i < num_dims b0
                then (if lb b0 i > lb b1 i then lb b0 i else lb b1 i) else lb b2 i),
      ub = (\<lambda>i. if i < num_dims b0
                then (if ub b0 i < ub b1 i then ub b0 i else ub b1 i) else ub b2 i)\<rparr>"

definition bbox_equals :: "bbox \<Rightarrow> bbox \<Rightarrow> bool" where
  "bbox_equals bb0 bb1 \<longleftrightarrow>
     num_dims bb0 = num_dims bb1 \<and>
     list_all (\<lambda>i. lb bb0 i = lb bb1 i \<and> ub bb0 i = ub bb1 i) [0..<num_dims bb0]"

definition bbox_volume :: "bbox \<Rightarrow> u64" where
  "bbox_volume bb = foldl (\<lambda>n i. n * coord_dist (lb bb) (ub bb) i) 1 [0..<num_dims bb]"

definition bbox_to_origin :: "bbox \<Rightarrow> bbox \<Rightarrow> bbox" where
  "bbox_to_origin bb bb_glb =
     \<lparr>num_dims = num_dims bb_glb,
      lb = (\<lambda>i. if i < num_dims bb_glb then lb bb i - lb bb_glb i else lb bb i),
      ub = (\<lambda>i. if i < num_dims bb_glb then ub bb i - lb bb_glb i else ub bb i)\<rparr>"

function compute_bits_loop :: "u64 \<Rightarrow> nat \<Rightarrow> nat" where
  "compute_bits_loop n nr_bits =
     (if n \<noteq> 0 then compute_bits_loop (drop_bit 1 n) (nr_bits + 1) else nr_bits)"
  by pat_completeness auto
termination
  by (relation "measure (\<lambda>(n, _). unat n)")
    auto

definition compute_bits :: "u64 \<Rightarrow> nat" where
  "compute_bits n = compute_bits_loop n 0"

text \<open>\<open>while (i && !(i & n)) i = i >> 1\<close>, started at the top bit.\<close>

function next_pow_2_loop :: "u64 \<Rightarrow> u64 \<Rightarrow> u64" where
  "next_pow_2_loop i n =
     (if i \<noteq> 0 \<and> i AND n = 0 then next_pow_2_loop (drop_bit 1 i) n else i)"
  by pat_completeness auto
termination
  by (relation "measure (\<lambda>(i, _). unat i)")
    auto

definition next_pow_2 :: "u64 \<Rightarrow> u64" where
  "next_pow_2 n = push_bit 1 (next_pow_2_loop (NOT (drop_bit 1 (NOT 0))) n)"

definition intv_do_intersect :: "intv \<Rightarrow> intv \<Rightarrow> bool" where
  "intv_do_intersect i0 i1 \<longleftrightarrow>
     (i_lb i0 \<le> i_lb i1 \<and> i_lb i1 \<le> i_ub i0) \<or> (i_lb i1 \<le> i_lb i0 \<and> i_lb i0 \<le> i_ub i1)"

definition intv_size :: "intv \<Rightarrow> u64" where
  "intv_size i = i_ub i - i_lb i + 1"

declare compute_bits_loop.simps [simp del] next_pow_2_loop.simps [simp del]

subsection \<open>Boxes as sets of cells\<close>

definition in_bbox :: "bbox \<Rightarrow> coord \<Rightarrow> bool" where
  "in_bbox b x \<longleftrightarrow> (\<forall>i<num_dims b. lb b i \<le> x i \<and> x i \<le> ub b i)"

definition bbox_wf :: "bbox \<Rightarrow> bool" where
  "bbox_wf b \<longleftrightarrow> (\<forall>i<num_dims b. lb b i \<le> ub b i)"

lemma list_all_upt [simp]: "list_all P [0..<n] \<longleftrightarrow> (\<forall>i<n. P i)"
  by (auto simp: list_all_iff)

lemma bbox_wf_lb: "bbox_wf b \<Longrightarrow> in_bbox b (lb b)"
  by (auto simp: bbox_wf_def in_bbox_def)

lemma bbox_wf_nonempty: "bbox_wf b \<longleftrightarrow> (\<exists>x. in_bbox b x)"
  by (meson bbox_wf_def bbox_wf_lb in_bbox_def order_trans)

lemma bbox_equals_cells:
  "bbox_equals b0 b1 \<Longrightarrow> in_bbox b0 x \<longleftrightarrow> in_bbox b1 x"
  by (auto simp: bbox_equals_def in_bbox_def)

subsection \<open>Intersection and inclusion\<close>

lemma bbox_intersect_sel [simp]:
  "num_dims (bbox_intersect b0 b1 b2) = num_dims b0"
  "i < num_dims b0 \<Longrightarrow> lb (bbox_intersect b0 b1 b2) i = max (lb b0 i) (lb b1 i)"
  "i < num_dims b0 \<Longrightarrow> ub (bbox_intersect b0 b1 b2) i = min (ub b0 i) (ub b1 i)"
  by (auto simp: bbox_intersect_def max_def min_def)

lemma in_bbox_intersect:
  assumes "num_dims b0 = num_dims b1"
  shows "in_bbox (bbox_intersect b0 b1 b2) x \<longleftrightarrow> in_bbox b0 x \<and> in_bbox b1 x"
  using assms by (auto simp: in_bbox_def)

lemma bbox_intersect_ondim_iff:
  assumes "lb b0 i \<le> ub b0 i" and "lb b1 i \<le> ub b1 i"
  shows "bbox_intersect_ondim b0 b1 i \<longleftrightarrow>
    max (lb b0 i) (lb b1 i) \<le> min (ub b0 i) (ub b1 i)"
  using assms by (auto simp: bbox_intersect_ondim_def)

lemma bbox_does_intersect_iff:
  assumes "num_dims b0 = num_dims b1" and "bbox_wf b0" and "bbox_wf b1"
  shows "bbox_does_intersect b0 b1 \<longleftrightarrow> (\<exists>x. in_bbox b0 x \<and> in_bbox b1 x)"
proof -
  have "bbox_does_intersect b0 b1 \<longleftrightarrow> bbox_wf (bbox_intersect b0 b1 b0)"
    using assms
    by (simp add: bbox_does_intersect_def bbox_wf_def bbox_intersect_ondim_iff)
  also have "\<dots> \<longleftrightarrow> (\<exists>x. in_bbox b0 x \<and> in_bbox b1 x)"
    using assms(1) by (simp add: bbox_wf_nonempty in_bbox_intersect)
  finally show ?thesis .
qed

lemma bbox_does_intersectI:
  assumes "num_dims b0 = num_dims b1" and "in_bbox b0 x" and "in_bbox b1 x"
  shows "bbox_does_intersect b0 b1"
  using assms bbox_does_intersect_iff bbox_wf_nonempty by blast

lemma bbox_include_iff:
  assumes "num_dims b0 = num_dims b1" and "bbox_wf b1"
  shows "bbox_include b0 b1 \<longleftrightarrow> (\<forall>x. in_bbox b1 x \<longrightarrow> in_bbox b0 x)"
proof
  assume "bbox_include b0 b1"
  then show "\<forall>x. in_bbox b1 x \<longrightarrow> in_bbox b0 x"
    using assms(1) unfolding bbox_include_def bbox_include_ondim_def in_bbox_def
    by (fastforce intro: order_trans)
next
  assume sub: "\<forall>x. in_bbox b1 x \<longrightarrow> in_bbox b0 x"
  have "in_bbox b1 (lb b1)" "in_bbox b1 (ub b1)"
    using assms(2) by (auto simp: bbox_wf_def in_bbox_def)
  with sub have "in_bbox b0 (lb b1)" "in_bbox b0 (ub b1)" by blast+
  then show "bbox_include b0 b1"
    using assms(1) by (auto simp: bbox_include_def bbox_include_ondim_def in_bbox_def)
qed

subsection \<open>Splitting\<close>

definition bbox_small :: "bbox \<Rightarrow> bool" where
  "bbox_small b \<longleftrightarrow> (\<forall>j<num_dims b. unat (lb b j) < 2 ^ 31 - 1 \<and> unat (ub b j) < 2 ^ 31 - 1)"

lemma unat_mid:
  "unat (a :: u64) + unat b < 2 ^ 64 \<Longrightarrow> unat ((a + b) div 2) = (unat a + unat b) div 2"
  by (simp add: unat_div unat_add_u64)

lemma bbox_divide_mid_small:
  assumes "unat (lb b j) < 2 ^ 31" and "unat (ub b j) < 2 ^ 31"
  shows "unat (bbox_divide_mid b j) = (unat (lb b j) + unat (ub b j)) div 2"
proof -
  have "unat ((lb b j + ub b j) div 2) = (unat (lb b j) + unat (ub b j)) div 2"
    using assms by (intro unat_mid) simp
  moreover have "\<dots> < 2 ^ 31" using assms by simp
  ultimately show ?thesis
    unfolding bbox_divide_mid_def by (subst int32_roundtrip) auto
qed

lemma bbox_divide_mid1_small:
  assumes "unat (lb b j) < 2 ^ 31" and "unat (ub b j) < 2 ^ 31"
    and "unat (lb b j) + unat (ub b j) < 2 ^ 32 - 2"
  shows "unat (bbox_divide_mid1 b j) = (unat (lb b j) + unat (ub b j)) div 2 + 1"
proof -
  let ?m = "(lb b j + ub b j) div 2"
  have m: "unat ?m = (unat (lb b j) + unat (ub b j)) div 2"
    using assms by (intro unat_mid) simp
  then have m1: "unat (?m + 1) = (unat (lb b j) + unat (ub b j)) div 2 + 1"
    using assms by (subst unat_add_u64) auto
  have "unat (ucast ?m + 1 :: u32) = unat (ucast (?m + 1) :: u32)"
    using assms m m1 by (simp add: unat_word_ariths unsigned_ucast_eq take_bit_nat_eq_self)
  then have "ucast ?m + 1 = (ucast (?m + 1) :: u32)"
    by (simp only: word_unat_eq_iff)
  then have "bbox_divide_mid1 b j = scast (ucast (?m + 1) :: u32)"
    by (simp add: bbox_divide_mid1_def)
  also have "\<dots> = ?m + 1"
    using assms m1 by (intro int32_roundtrip) simp
  finally show ?thesis using m1 by simp
qed

lemma in_bbox_divide_in2:
  assumes "dim < num_dims b0" and "unat (lb b0 dim) \<le> Suc (unat (ub b0 dim))"
    and "unat (lb b0 dim) + unat (ub b0 dim) < 2 ^ 64"
    and "bbox_divide_in2_ondim b0 dim = (b1, b2)"
  shows "in_bbox b0 x \<longleftrightarrow> in_bbox b1 x \<or> in_bbox b2 x"
    and "\<not> (in_bbox b1 x \<and> in_bbox b2 x)"
proof -
  define n where "n = drop_bit 1 (lb b0 dim + ub b0 dim)"
  have un: "unat n = (unat (lb b0 dim) + unat (ub b0 dim)) div 2"
    using assms(3) by (simp only: n_def unat_half_u64 unat_add_u64)
  have b12: "b1 = b0\<lparr>ub := (ub b0)(dim := n)\<rparr>" "b2 = b0\<lparr>lb := (lb b0)(dim := n + 1)\<rparr>"
    using assms(4) by (auto simp: bbox_divide_in2_ondim_def n_def Let_def)
  have n1: "unat (n + 1) = unat n + 1"
    using un assms(3) by (subst unat_add_u64) auto
  have split: "lb b0 dim \<le> v \<and> v \<le> ub b0 dim \<longleftrightarrow>
      (lb b0 dim \<le> v \<and> v \<le> n) \<or> (n + 1 \<le> v \<and> v \<le> ub b0 dim)"
    and excl: "\<not> (v \<le> n \<and> n + 1 \<le> v)" for v
    using assms(2) un n1 by (auto simp: u64_le_nat)
  show "in_bbox b0 x \<longleftrightarrow> in_bbox b1 x \<or> in_bbox b2 x"
    using assms(1) split [of "x dim"] by (auto simp: in_bbox_def b12)
  show "\<not> (in_bbox b1 x \<and> in_bbox b2 x)"
    using assms(1) excl [of "x dim"] by (auto simp: in_bbox_def b12)
qed

text \<open>The children of \<open>bbox_divide\<close>: one per bit pattern, each bit choosing a half.\<close>

lemma nat_of_bits_unique:
  "\<exists>!i. i < 2 ^ n \<and> (\<forall>j<n. bit (i :: nat) j \<longleftrightarrow> P j)"
proof (rule ex1I [of _ "take_bit n (horner_sum of_bool 2 (map P [0..<n]))"])
  show "take_bit n (horner_sum of_bool 2 (map P [0..<n])) < (2 :: nat) ^ n \<and>
      (\<forall>j<n. bit (take_bit n (horner_sum of_bool 2 (map P [0..<n])) :: nat) j \<longleftrightarrow> P j)"
    by (simp add: bit_horner_sum_bit_iff bit_take_bit_iff)
next
  fix i :: nat
  assume i: "i < 2 ^ n \<and> (\<forall>j<n. bit i j \<longleftrightarrow> P j)"
  then have eq: "take_bit n i = i" by (simp add: take_bit_nat_eq_self)
  have "bit (take_bit n i) j \<longleftrightarrow> j < n \<and> P j" for j
    using i by (auto simp: bit_take_bit_iff)
  note bits = this [unfolded eq]
  show "i = take_bit n (horner_sum of_bool 2 (map P [0..<n]))"
    by (rule bit_eqI, unfold bits) (auto simp: bit_horner_sum_bit_iff bit_take_bit_iff)
qed

lemma in_bbox_divide_child:
  assumes "bbox_small b0" and "bbox_wf b0"
  shows "in_bbox (bbox_divide_child b0 i old) x \<longleftrightarrow>
    in_bbox b0 x \<and> (\<forall>j<num_dims b0. bit i j \<longleftrightarrow> \<not> x j \<le> bbox_divide_mid b0 j)"
proof -
  have "(if bit i j then bbox_divide_mid1 b0 j else lb b0 j) \<le> x j \<and>
        x j \<le> (if bit i j then ub b0 j else bbox_divide_mid b0 j) \<longleftrightarrow>
        (lb b0 j \<le> x j \<and> x j \<le> ub b0 j) \<and> (bit i j \<longleftrightarrow> \<not> x j \<le> bbox_divide_mid b0 j)"
    if "j < num_dims b0" for j
    using assms that bbox_divide_mid_small [of b0 j] bbox_divide_mid1_small [of b0 j]
    by (auto simp: bbox_small_def bbox_wf_def u64_le_nat)
  then show ?thesis
    by (auto simp: in_bbox_def bbox_divide_child_def)
qed

lemma bbox_divide_partition:
  assumes "bbox_small b0" and "bbox_wf b0" and "in_bbox b0 x"
  shows "\<exists>!i. i < 2 ^ num_dims b0 \<and> in_bbox (bbox_divide b0 b_tab i) x"
proof -
  have "\<exists>!i. i < 2 ^ num_dims b0 \<and>
      (\<forall>j<num_dims b0. bit (i :: nat) j \<longleftrightarrow> \<not> x j \<le> bbox_divide_mid b0 j)"
    by (rule nat_of_bits_unique)
  then show ?thesis
    using assms by (simp add: bbox_divide_def in_bbox_divide_child cong: conj_cong)
qed

lemma bbox_divide_sub:
  assumes "bbox_small b0" and "bbox_wf b0" and "i < 2 ^ num_dims b0"
    and "in_bbox (bbox_divide b0 b_tab i) x"
  shows "in_bbox b0 x"
  using assms by (simp add: bbox_divide_def in_bbox_divide_child)

subsection \<open>Volume\<close>

definition bbox_cells :: "bbox \<Rightarrow> coord set" where
  "bbox_cells b = (\<Pi>\<^sub>E i\<in>{..<num_dims b}. {lb b i..ub b i})"

definition bbox_vol :: "bbox \<Rightarrow> nat" where
  "bbox_vol b = (\<Prod>i<num_dims b. unat (ub b i) - unat (lb b i) + 1)"

lemma unat_coord_dist:
  assumes "lb b i \<le> ub b i" and "unat (ub b i) - unat (lb b i) + 1 < 2 ^ 64"
  shows "unat (bbox_dist b i) = unat (ub b i) - unat (lb b i) + 1"
proof -
  have "unat (ub b i - lb b i) = unat (ub b i) - unat (lb b i)"
    using assms(1) by (rule unat_diff_u64)
  then show ?thesis
    using assms(2) unfolding bbox_dist_def coord_dist_def by (subst unat_add_u64) auto
qed

lemma of_nat_bbox_vol:
  assumes "bbox_wf b"
  shows "bbox_volume b = of_nat (bbox_vol b)"
proof -
  define d where "d i = unat (ub b i) - unat (lb b i) + 1" for i
  have dist: "coord_dist (lb b) (ub b) i = of_nat (d i)" if "i < num_dims b" for i
    using assms that
    by (simp add: coord_dist_def bbox_wf_def of_nat_diff u64_le_nat d_def)
  have "foldl (\<lambda>n i. n * coord_dist (lb b) (ub b) i) 1 [0..<m] = of_nat (\<Prod>i<m. d i)"
    if "m \<le> num_dims b" for m
    using that by (induction m) (auto simp: dist mult.commute)
  then show ?thesis
    by (simp add: bbox_volume_def bbox_vol_def d_def)
qed

lemma unat_bbox_volume:
  "bbox_wf b \<Longrightarrow> unat (bbox_volume b) = bbox_vol b mod 2 ^ 64"
  by (simp add: of_nat_bbox_vol unat_of_nat)

lemma card_bbox_cells:
  assumes "bbox_wf b"
  shows "card (bbox_cells b) = bbox_vol b"
proof -
  have "card {lb b i..ub b i} = unat (ub b i) - unat (lb b i) + 1" if "i < num_dims b" for i
  proof -
    have "bij_betw unat {lb b i..ub b i} {unat (lb b i)..unat (ub b i)}"
    proof (rule bij_betwI')
      show "\<exists>x\<in>{lb b i..ub b i}. y = unat x" if "y \<in> {unat (lb b i)..unat (ub b i)}" for y
      proof (rule bexI [of _ "of_nat y"])
        have "y < 2 ^ 64" using that u64_less_max [of "ub b i"] by (auto dest: le_less_trans)
        then have "unat (of_nat y :: u64) = y" by (simp add: unat_of_nat)
        then show "y = unat (of_nat y :: u64)" "of_nat y \<in> {lb b i..ub b i}"
          using that by (auto simp: u64_le_nat)
      qed
    qed (auto simp: u64_le_nat word_unat_eq_iff)
    moreover have "unat (lb b i) \<le> unat (ub b i)"
      using assms \<open>i < num_dims b\<close> by (simp add: bbox_wf_def u64_le_nat)
    ultimately show ?thesis by (simp add: bij_betw_same_card)
  qed
  then show ?thesis
    by (simp add: bbox_cells_def bbox_vol_def card_PiE)
qed

subsection \<open>Powers of two\<close>

lemma compute_bits_loop_spec:
  "compute_bits_loop n k \<ge> k \<and> unat n < 2 ^ (compute_bits_loop n k - k) \<and>
   (n \<noteq> 0 \<longrightarrow> compute_bits_loop n k > k \<and> 2 ^ (compute_bits_loop n k - k - 1) \<le> unat n)"
proof (induction n k rule: compute_bits_loop.induct)
  case (1 n k)
  show ?case
  proof (cases "n = 0")
    case True
    then show ?thesis by (simp add: compute_bits_loop.simps)
  next
    case False
    define m where "m = compute_bits_loop (drop_bit 1 n) (k + 1)"
    have eq: "compute_bits_loop n k = m"
      using False by (subst compute_bits_loop.simps) (simp add: m_def)
    have IH: "m \<ge> k + 1" "unat n div 2 < 2 ^ (m - (k + 1))"
      "drop_bit 1 n \<noteq> 0 \<longrightarrow> m > k + 1 \<and> 2 ^ (m - (k + 1) - 1) \<le> unat n div 2"
      using "1.IH" [OF False] unfolding m_def unat_half_u64 by auto
    obtain d where d: "m = k + Suc d" using IH(1) by (metis add_Suc_right add.commute le_Suc_ex plus_1_eq_Suc add.assoc)
    have up: "unat n < 2 ^ Suc d" using IH(2) d by simp
    have low: "2 ^ d \<le> unat n"
    proof (cases "drop_bit 1 n = 0")
      case True
      then have "unat n div 2 = 0" by (metis unat_half_u64 unat_0)
      moreover have "d = 0"
        using True d unfolding m_def by (simp add: compute_bits_loop.simps [of 0])
      ultimately show ?thesis using False by (simp add: unat_gt_0 Suc_le_eq)
    next
      case False
      then have "d > 0" "2 ^ (d - 1) \<le> unat n div 2" using IH(3) d by auto
      then obtain e where "d = Suc e" "2 ^ e \<le> unat n div 2" by (cases d) auto
      then show ?thesis by simp
    qed
    show ?thesis using False up low d by (simp add: eq)
  qed
qed

lemma compute_bits_bounds:
  "unat n < 2 ^ compute_bits n"
  "n \<noteq> 0 \<Longrightarrow> 2 ^ (compute_bits n - 1) \<le> unat n"
  using compute_bits_loop_spec [of 0 n] by (simp_all add: compute_bits_def)

lemma compute_bits_exp:
  assumes "k < 64"
  shows "compute_bits (2 ^ k) = Suc k"
proof -
  have u: "unat (2 ^ k :: u64) = 2 ^ k"
    using assms by (rule unat_exp_u64)
  have nz: "(2 ^ k :: u64) \<noteq> 0"
    using u by (metis power_not_zero unat_0 zero_neq_numeral)
  have "k < compute_bits (2 ^ k)"
    using compute_bits_bounds(1) [of "2 ^ k"] unfolding u by simp
  moreover have "compute_bits (2 ^ k) - 1 \<le> k"
    using compute_bits_bounds(2) [OF nz] unfolding u by simp
  ultimately show ?thesis by simp
qed

lemma next_pow_2_loop_spec:
  assumes "k < 64" and "unat n < 2 ^ Suc k" and "n \<noteq> 0"
  shows "\<exists>j\<le>k. next_pow_2_loop (2 ^ k) n = 2 ^ j \<and> 2 ^ j \<le> unat n \<and> unat n < 2 ^ Suc j"
  using assms
proof (induction k)
  case 0
  then have "unat n = 1" using unat_gt_0 [of n] by auto
  then have "n = 1" by (metis unat_1 word_unat_eq_iff)
  then show ?case by (simp add: next_pow_2_loop.simps)
next
  case (Suc k)
  show ?case
  proof (cases "bit n (Suc k)")
    case True
    then have "2 ^ Suc k AND n \<noteq> 0"
      by (simp add: and.commute [of _ n] and_exp_eq_0_iff_not_bit del: power_Suc)
    moreover have "2 ^ Suc k \<le> unat n"
    proof -
      have "unat n div 2 ^ Suc k \<noteq> 0"
        using True odd_unat_div_exp [of n "Suc k"] by (metis even_zero)
      then show ?thesis by (metis div_less not_le)
    qed
    ultimately show ?thesis
      using Suc.prems by (intro exI [of _ "Suc k"]) (subst next_pow_2_loop.simps, simp)
  next
    case False
    then have z: "2 ^ Suc k AND n = 0"
      by (simp add: and.commute [of _ n] and_exp_eq_0_iff_not_bit del: power_Suc)
    have "even (unat n div 2 ^ Suc k)"
      using False odd_unat_div_exp [of n "Suc k"] by auto
    moreover have "unat n div 2 ^ Suc k < 2"
      using Suc.prems(2) by (simp add: less_mult_imp_div_less)
    ultimately have "unat n div 2 ^ Suc k = 0" by (metis One_nat_def less_2_cases odd_one)
    then have "unat n < 2 ^ Suc k" by (simp add: div_eq_0_iff)
    then obtain j where j: "j \<le> k" "next_pow_2_loop (2 ^ k) n = 2 ^ j"
        "2 ^ j \<le> unat n" "unat n < 2 ^ Suc j"
      using Suc by auto
    have nz: "(2 ^ Suc k :: u64) \<noteq> 0" using unat_exp_u64 [OF Suc.prems(1)] by (metis power_not_zero unat_0 zero_neq_numeral)
    have "drop_bit 1 (2 ^ Suc k :: u64) = 2 ^ k"
      using Suc.prems(1) by (simp add: drop_bit_exp_eq del: power_Suc)
    then have "next_pow_2_loop (2 ^ Suc k) n = 2 ^ j"
      using z nz j(2) by (subst next_pow_2_loop.simps) simp
    then show ?thesis using j by (intro exI [of _ j]) simp
  qed
qed

text \<open>\<open>next_pow_2 n\<close> is the least power of two above \<open>n\<close>, while that power fits.\<close>

lemma u64_top_bit: "NOT (drop_bit 1 (NOT 0)) = (2 ^ 63 :: u64)"
  by (simp add: mask_eq_exp_minus_1)

lemma next_pow_2_spec:
  assumes "0 < n" and "unat n < 2 ^ 63"
  shows "\<exists>k<64. next_pow_2 n = 2 ^ k \<and> unat n < 2 ^ k \<and> 2 ^ k \<le> 2 * unat n"
proof -
  obtain j where j: "j \<le> 63" "next_pow_2_loop (2 ^ 63) n = 2 ^ j"
      "2 ^ j \<le> unat n" "unat n < 2 ^ Suc j"
    using next_pow_2_loop_spec [of 63 n] assms by auto
  have "j < 63"
  proof (rule ccontr)
    assume "\<not> j < 63"
    with j(1) have "j = 63" by simp
    with j(3) assms(2) show False by simp
  qed
  moreover have "next_pow_2 n = 2 ^ Suc j"
    unfolding next_pow_2_def u64_top_bit j(2) by (simp add: push_bit_eq_mult)
  ultimately show ?thesis using j(3,4) by (intro exI [of _ "Suc j"]) simp
qed

lemma next_pow_2_overflow:
  assumes "2 ^ 63 \<le> unat n"
  shows "next_pow_2 n = 0"
proof -
  obtain j where j: "j \<le> 63" "next_pow_2_loop (2 ^ 63) n = 2 ^ j"
      "2 ^ j \<le> unat n" "unat n < 2 ^ Suc j"
    using next_pow_2_loop_spec [of 63 n] assms u64_less_max [of n] by fastforce
  have "63 \<le> j"
  proof (rule ccontr)
    assume "\<not> 63 \<le> j"
    then have "(2 :: nat) ^ Suc j \<le> 2 ^ 63" by (intro power_increasing) auto
    with j(4) assms show False by simp
  qed
  with j(1) have "j = 63" by simp
  then show ?thesis
    unfolding next_pow_2_def u64_top_bit j(2) by (simp add: push_bit_eq_mult)
qed

subsection \<open>Intervals\<close>

definition in_intv :: "intv \<Rightarrow> u64 \<Rightarrow> bool" where
  "in_intv i v \<longleftrightarrow> i_lb i \<le> v \<and> v \<le> i_ub i"

lemma intv_do_intersect_iff:
  assumes "i_lb i0 \<le> i_ub i0" and "i_lb i1 \<le> i_ub i1"
  shows "intv_do_intersect i0 i1 \<longleftrightarrow> (\<exists>v. in_intv i0 v \<and> in_intv i1 v)"
  using assms unfolding intv_do_intersect_def in_intv_def
  by (meson linear order.trans order_refl)

lemma intv_do_intersectI: "in_intv i0 v \<Longrightarrow> in_intv i1 v \<Longrightarrow> intv_do_intersect i0 i1"
  unfolding intv_do_intersect_def in_intv_def by (meson linear order.trans)

subsection \<open>Properties\<close>

text \<open>C27: on well-formed boxes of the same dimension \<open>bbox_does_intersect\<close> is true iff the boxes
  share a cell, the cells of \<open>bbox_intersect\<close> are exactly the shared ones, and \<open>bbox_include\<close> is
  inclusion of the sets of cells.\<close>

theorem bbox_tests_are_set_operations:
  assumes "num_dims b0 = num_dims b1" "bbox_wf b0" "bbox_wf b1"
  shows "(bbox_does_intersect b0 b1 \<longleftrightarrow> (\<exists>x. in_bbox b0 x \<and> in_bbox b1 x)) \<and>
    (\<forall>x. in_bbox (bbox_intersect b0 b1 b2) x \<longleftrightarrow> in_bbox b0 x \<and> in_bbox b1 x) \<and>
    (bbox_include b0 b1 \<longleftrightarrow> (\<forall>x. in_bbox b1 x \<longrightarrow> in_bbox b0 x))"
  using bbox_does_intersect_iff [OF assms] in_bbox_intersect [OF assms(1)]
    bbox_include_iff [OF assms(1,3)] by blast

theorem bbox_tests_are_set_operations_witness:
  "bbox_does_intersect \<lparr>num_dims = 2, lb = vec [0, 0], ub = vec [4, 4]\<rparr>
     \<lparr>num_dims = 2, lb = vec [4, 2], ub = vec [9, 3]\<rparr>"
proof -
  let ?a = "\<lparr>num_dims = 2, lb = vec [0, 0], ub = vec [4, 4]\<rparr>"
  let ?b = "\<lparr>num_dims = 2, lb = vec [4, 2], ub = vec [9, 3]\<rparr>"
  have "in_bbox ?a (vec [4, 3])" "in_bbox ?b (vec [4, 3])"
    by (auto simp: in_bbox_def all_less_numeral)
  then show ?thesis
    using bbox_tests_are_set_operations [of ?a ?b ?a] by (auto simp: bbox_wf_def all_less_numeral)
qed

text \<open>C24: the \<open>2 ^ num_dims\<close> children that \<open>bbox_divide\<close> writes partition the box, as long as its
  coordinates stay below \<open>2 ^ 31 - 1\<close>: every cell of the box is in exactly one child and no
  child reaches outside.\<close>

theorem bbox_divide_partitions_box:
  assumes "bbox_small b0" "bbox_wf b0"
  shows "(\<forall>x. in_bbox b0 x \<longrightarrow>
      (\<exists>!i. i < 2 ^ num_dims b0 \<and> in_bbox (bbox_divide b0 b_tab i) x)) \<and>
    (\<forall>x i. i < 2 ^ num_dims b0 \<and> in_bbox (bbox_divide b0 b_tab i) x \<longrightarrow> in_bbox b0 x)"
  using bbox_divide_partition [OF assms] bbox_divide_sub [OF assms] by blast

theorem bbox_divide_partitions_box_witness:
  "\<exists>!i. i < 2 ^ 3 \<and> in_bbox (bbox_divide \<lparr>num_dims = 3, lb = vec [], ub = vec [7, 7, 7]\<rparr>
     (\<lambda>_. \<lparr>num_dims = 0, lb = vec [], ub = vec []\<rparr>) i) (vec [4, 3, 5])"
  using bbox_divide_partitions_box [of "\<lparr>num_dims = 3, lb = vec [], ub = vec [7, 7, 7]\<rparr>"
      "\<lambda>_. \<lparr>num_dims = 0, lb = vec [], ub = vec []\<rparr>"]
  by (auto simp: bbox_small_def bbox_wf_def in_bbox_def all_less_numeral)


text \<open>C29: \<open>bbox_volume\<close> is the number of cells of a well-formed box, modulo \<open>2 ^ 64\<close>.\<close>

theorem bbox_volume_counts_cells:
  assumes "bbox_wf b"
  shows "unat (bbox_volume b) = card (bbox_cells b) mod 2 ^ 64"
  using unat_bbox_volume [OF assms] card_bbox_cells [OF assms] by simp

theorem bbox_volume_counts_cells_witness:
  "unat (bbox_volume \<lparr>num_dims = 2, lb = vec [1, 2], ub = vec [3, 2]\<rparr>) =
     card (bbox_cells \<lparr>num_dims = 2, lb = vec [1, 2], ub = vec [3, 2]\<rparr>) mod 2 ^ 64"
  by (rule bbox_volume_counts_cells) (auto simp: bbox_wf_def all_less_numeral)

end
