(* ===== verification/DS_SFC.thy ===== *)
theory DS_SFC
  imports DS_BBox
begin

text \<open>
  The Hilbert space-filling curve of src/include/sfc.h: \<open>bitTranspose\<close>, \<open>hilbert_i2c\<close> and
  \<open>hilbert_c2i\<close>. \<open>bitmask_t\<close> is \<open>u64\<close> and \<open>halfmask_t\<close> is \<open>u32\<close>; shift amounts and loop counters are
  natural numbers. The header of the C file requires \<open>nDims * nBits \<le> 64\<close>, which keeps every shift
  amount below the width of its operand. Coordinate arrays are functions from indices.
\<close>

unbundle bit_operations_syntax

definition ones64 :: "nat \<Rightarrow> u64" where
  "ones64 k = push_bit (k - 1) 2 - 1"

definition ones32 :: "nat \<Rightarrow> u32" where
  "ones32 k = push_bit (k - 1) 2 - 1"

definition rotateRight :: "u32 \<Rightarrow> nat \<Rightarrow> nat \<Rightarrow> u32" where
  "rotateRight arg nRots nDims =
     ucast ((ucast (drop_bit nRots arg OR push_bit (nDims - nRots) arg) :: u64) AND ones64 nDims)"

definition rotateLeft :: "u32 \<Rightarrow> nat \<Rightarrow> nat \<Rightarrow> u32" where
  "rotateLeft arg nRots nDims =
     ucast ((ucast (push_bit nRots arg OR drop_bit (nDims - nRots) arg) :: u64) AND ones64 nDims)"

text \<open>\<open>while (bits) bits >>= 1, ++rotation\<close>\<close>

function adjust_loop :: "u32 \<Rightarrow> nat \<Rightarrow> nat" where
  "adjust_loop bits rotation =
     (if bits \<noteq> 0 then adjust_loop (drop_bit 1 bits) (rotation + 1) else rotation)"
  by pat_completeness auto
termination
  by (relation "measure (\<lambda>(bits, _). unat bits)") auto

declare adjust_loop.simps [simp del]

definition adjust_rotation :: "nat \<Rightarrow> nat \<Rightarrow> u32 \<Rightarrow> nat" where
  "adjust_rotation rotation nDims bits =
     (let nd1Ones = drop_bit 1 (ones32 nDims);
          rotation = adjust_loop (bits AND (- bits AND nd1Ones)) rotation + 1
      in if rotation \<ge> nDims then rotation - nDims else rotation)"

subsection \<open>Transposing a bit matrix\<close>

text \<open>One pass over the dimensions; the state is \<open>(inCoords, coords, utCoords)\<close>.\<close>

definition transpose_odd ::
  "nat \<Rightarrow> u64 \<Rightarrow> u64 \<Rightarrow> u64 \<Rightarrow> nat \<Rightarrow> nat \<Rightarrow> nat \<Rightarrow> u64 \<times> u64 \<times> u64 \<Rightarrow> u64 \<times> u64 \<times> u64" where
  "transpose_odd inB inMask inFieldStarts utMask shiftAmt utB d = (\<lambda>(inCoords, coords, utCoords).
     let i = inCoords AND inMask;
         inCoords = drop_bit inB inCoords;
         coords = coords OR push_bit (2 * shiftAmt + d) (i AND inFieldStarts);
         i = i AND NOT inFieldStarts;
         i = (i OR push_bit shiftAmt i) AND utMask
     in (inCoords, coords, utCoords OR push_bit (d * utB) i))"

definition transpose_even ::
  "nat \<Rightarrow> u64 \<Rightarrow> u64 \<Rightarrow> nat \<Rightarrow> nat \<Rightarrow> nat \<Rightarrow> u64 \<times> u64 \<times> u64 \<Rightarrow> u64 \<times> u64 \<times> u64" where
  "transpose_even inB inMask utMask shiftAmt utB d = (\<lambda>(inCoords, coords, utCoords).
     let i = inCoords AND inMask;
         inCoords = drop_bit inB inCoords;
         i = (i OR push_bit shiftAmt i) AND utMask
     in (inCoords, coords, utCoords OR push_bit (d * utB) i))"

function bitTranspose_loop :: "nat \<Rightarrow> nat \<Rightarrow> u64 \<Rightarrow> u64 \<Rightarrow> u64 \<Rightarrow> u64 \<Rightarrow> u64" where
  "bitTranspose_loop nDims inB inFieldEnds inMask coords inCoords =
     (let utB = inB div 2 in
      if utB = 0 then coords OR inCoords
      else
        let shiftAmt = (nDims - 1) * utB;
            utFieldEnds = inFieldEnds OR push_bit (shiftAmt + utB) inFieldEnds;
            utMask = push_bit utB utFieldEnds - utFieldEnds;
            pass = (if odd inB
                    then transpose_odd inB inMask (push_bit (inB - 1) inFieldEnds) utMask shiftAmt utB
                    else transpose_even inB inMask utMask shiftAmt utB);
            (_, coords', utCoords) = fold pass [0..<nDims] (inCoords, coords, 0)
        in bitTranspose_loop nDims utB utFieldEnds utMask coords' utCoords)"
  by pat_completeness auto
termination
  by (relation "measure (\<lambda>(_, inB, _). inB)") auto

declare bitTranspose_loop.simps [simp del]

definition bitTranspose :: "nat \<Rightarrow> nat \<Rightarrow> u64 \<Rightarrow> u64" where
  "bitTranspose nDims nBits inCoords = bitTranspose_loop nDims nBits 1 (ones64 nBits) 0 inCoords"

subsection \<open>Index to coordinates\<close>

text \<open>\<open>k\<close> rounds are left, so that \<open>b = k * nDims\<close>.\<close>

fun i2c_loop :: "nat \<Rightarrow> u64 \<Rightarrow> nat \<Rightarrow> nat \<Rightarrow> u32 \<Rightarrow> u64 \<Rightarrow> u64" where
  "i2c_loop nDims index 0 rotation flipBit coords = coords"
| "i2c_loop nDims index (Suc k) rotation flipBit coords =
     (let bits = ucast (drop_bit (k * nDims) index) AND ones32 nDims;
          coords = push_bit nDims coords OR ucast (rotateLeft bits rotation nDims XOR flipBit)
      in i2c_loop nDims index k (adjust_rotation rotation nDims bits) (push_bit rotation 1) coords)"

text \<open>\<open>for (b = b0; b < n; b *= 2) x ^= x >> b\<close>; \<open>b0\<close> is not 0 in the code.\<close>

function xor_fold :: "nat \<Rightarrow> nat \<Rightarrow> u64 \<Rightarrow> u64" where
  "xor_fold b n x = (if 0 < b \<and> b < n then xor_fold (b * 2) n (x XOR drop_bit b x) else x)"
  by pat_completeness auto
termination
  by (relation "measure (\<lambda>(b, n, _). n - b)") auto

declare xor_fold.simps [simp del]

definition nthbits :: "nat \<Rightarrow> nat \<Rightarrow> u64" where
  "nthbits nDims nBits = ones64 (nDims * nBits) div ucast (ones32 nDims)"

definition hilbert_i2c :: "nat \<Rightarrow> nat \<Rightarrow> u64 \<Rightarrow> coord \<Rightarrow> coord" where
  "hilbert_i2c nDims nBits index coord =
     (if nDims > 1 then
        let coords =
              (if nBits > 1 then
                 let index = index XOR drop_bit 1 (index XOR nthbits nDims nBits);
                     coords = i2c_loop nDims index nBits 0 0 0;
                     coords = xor_fold nDims (nDims * nBits) coords
                 in bitTranspose nBits nDims coords
               else index XOR drop_bit 1 index)
        in (\<lambda>d. if d < nDims then drop_bit (d * nBits) coords AND ucast (ones32 nBits) else coord d)
      else coord(0 := index))"

subsection \<open>Coordinates to index\<close>

fun c2i_loop :: "nat \<Rightarrow> u64 \<Rightarrow> nat \<Rightarrow> nat \<Rightarrow> u32 \<Rightarrow> u64 \<Rightarrow> u64" where
  "c2i_loop nDims coords 0 rotation flipBit index = index"
| "c2i_loop nDims coords (Suc k) rotation flipBit index =
     (let bits = ucast (drop_bit (k * nDims) coords) AND ones32 nDims;
          bits = rotateRight (flipBit XOR bits) rotation nDims;
          index = push_bit nDims index OR ucast bits
      in c2i_loop nDims coords k (adjust_rotation rotation nDims bits) (push_bit rotation 1) index)"

text \<open>\<open>for (d = nDims; d--; ) coords = (coords << nBits) | coord[d]\<close>\<close>

definition pack_coords :: "nat \<Rightarrow> nat \<Rightarrow> coord \<Rightarrow> u64" where
  "pack_coords nDims nBits coord =
     fold (\<lambda>d coords. push_bit nBits coords OR coord d) (rev [0..<nDims]) 0"

definition hilbert_c2i :: "nat \<Rightarrow> nat \<Rightarrow> coord \<Rightarrow> u64" where
  "hilbert_c2i nDims nBits coord =
     (if nDims > 1 then
        let coords = pack_coords nDims nBits coord;
            index =
              (if nBits > 1 then
                 let coords = bitTranspose nDims nBits coords;
                     coords = coords XOR drop_bit nDims coords
                 in c2i_loop nDims coords nBits 0 0 0 XOR drop_bit 1 (nthbits nDims nBits)
               else coords)
        in xor_fold 1 (nDims * nBits) index
      else coord 0)"

end
