(* ===== verification/DS_Queue.thy ===== *)
theory DS_Queue
  imports DS_Prelude "HOL-Library.Monad_Syntax"
begin

text \<open>
  The FIFO queue of src/include/queue.h: a singly linked list with a head pointer, a tail
  pointer and an element count. The nodes live in a heap (a map from addresses); an address
  is never used twice, as a fresh block from malloc is distinct from every live block. A
  NULL dereference is the result \<open>None\<close>. The locale \<open>fifo\<close> is the contract the clients
  (\<open>bbox_to_intv\<close>, \<open>ssd_alloc_v2\<close>) rely on; the linked list is shown to satisfy it.
\<close>

record 'a queue_node =
  qn_next :: "nat option"
  qn_obj :: 'a

record 'a queue =
  num_elem :: nat
  q_head :: "nat option"
  q_tail :: "nat option"
  q_heap :: "nat \<rightharpoonup> 'a queue_node"
  q_brk :: nat

definition queue_init :: "'a queue" where
  "queue_init = \<lparr>num_elem = 0, q_head = None, q_tail = None, q_heap = Map.empty, q_brk = 0\<rparr>"

definition queue_enqueue :: "'a queue \<Rightarrow> 'a \<Rightarrow> 'a queue option" where
  "queue_enqueue q obj =
     (let qn = q_brk q;
          heap = (q_heap q)(qn \<mapsto> \<lparr>qn_next = None, qn_obj = obj\<rparr>)
      in if num_elem q = 0
         then Some (q\<lparr>q_head := Some qn, q_tail := Some qn, q_heap := heap,
                      q_brk := qn + 1, num_elem := num_elem q + 1\<rparr>)
         else do {
           t \<leftarrow> q_tail q;
           n \<leftarrow> heap t;
           Some (q\<lparr>q_heap := heap(t \<mapsto> n\<lparr>qn_next := Some qn\<rparr>), q_tail := Some qn,
                   q_brk := qn + 1, num_elem := num_elem q + 1\<rparr>)
         })"

text \<open>The result pairs what the C function returns (NULL when empty) with the new queue.\<close>

definition queue_dequeue :: "'a queue \<Rightarrow> ('a option \<times> 'a queue) option" where
  "queue_dequeue q =
     (if num_elem q = 0 then Some (None, q)
      else do {
        h \<leftarrow> q_head q;
        n \<leftarrow> q_heap q h;
        Some (Some (qn_obj n),
              q\<lparr>q_head := qn_next n, q_heap := (q_heap q)(h := None),
                num_elem := num_elem q - 1,
                q_tail := (if num_elem q - 1 = 0 then None else q_tail q)\<rparr>)
      })"

definition queue_is_empty :: "'a queue \<Rightarrow> bool" where
  "queue_is_empty q \<longleftrightarrow> num_elem q = 0"

definition queue_size :: "'a queue \<Rightarrow> nat" where
  "queue_size q = num_elem q"

subsection \<open>The contract\<close>

locale fifo =
  fixes init :: 'q
    and enq :: "'q \<Rightarrow> 'a \<Rightarrow> 'q option"
    and deq :: "'q \<Rightarrow> ('a option \<times> 'q) option"
    and empty :: "'q \<Rightarrow> bool"
    and size_of :: "'q \<Rightarrow> nat"
    and rel :: "'q \<Rightarrow> 'a list \<Rightarrow> bool"
  assumes rel_init: "rel init []"
    and enq_ok: "rel q xs \<Longrightarrow> \<exists>q'. enq q x = Some q' \<and> rel q' (xs @ [x])"
    and deq_ok: "rel q (x # xs) \<Longrightarrow> \<exists>q'. deq q = Some (Some x, q') \<and> rel q' xs"
    and deq_empty: "rel q [] \<Longrightarrow> deq q = Some (None, q)"
    and empty_iff: "rel q xs \<Longrightarrow> empty q \<longleftrightarrow> xs = []"
    and size_ok: "rel q xs \<Longrightarrow> size_of q = length xs"
begin

lemma enq_all_ok:
  "rel q ys \<Longrightarrow> \<exists>q'. foldM (\<lambda>x q. enq q x) xs q = Some q' \<and> rel q' (ys @ xs)"
proof (induction xs arbitrary: q ys)
  case Nil
  then show ?case by simp
next
  case (Cons x xs)
  then obtain q' where "enq q x = Some q'" "rel q' (ys @ [x])" using enq_ok by blast
  with Cons.IH [of q' "ys @ [x]"] show ?case by simp
qed

end

subsection \<open>The linked list satisfies it\<close>

fun lseg :: "(nat \<rightharpoonup> 'a queue_node) \<Rightarrow> nat option \<Rightarrow> nat list \<Rightarrow> bool" where
  "lseg h p [] \<longleftrightarrow> p = None"
| "lseg h p (a # as) \<longleftrightarrow> p = Some a \<and> (\<exists>n. h a = Some n \<and> lseg h (qn_next n) as)"

definition queue_rel :: "'a queue \<Rightarrow> 'a list \<Rightarrow> bool" where
  "queue_rel q xs \<longleftrightarrow>
     (\<exists>as. lseg (q_heap q) (q_head q) as \<and> distinct as \<and> (\<forall>a\<in>set as. a < q_brk q) \<and>
           map (\<lambda>a. qn_obj (the (q_heap q a))) as = xs \<and> num_elem q = length as \<and>
           (as \<noteq> [] \<longrightarrow> q_tail q = Some (last as)))"

lemma lseg_frame: "lseg h p as \<Longrightarrow> b \<notin> set as \<Longrightarrow> lseg (h(b := v)) p as"
  by (induction as arbitrary: p) auto

lemma lseg_dom: "lseg h p as \<Longrightarrow> a \<in> set as \<Longrightarrow> \<exists>n. h a = Some n"
  by (induction as arbitrary: p) auto

lemma lseg_snoc:
  assumes "lseg h p as" "as \<noteq> []" "distinct as" "b \<notin> set as"
    and "h b = Some \<lparr>qn_next = None, qn_obj = x\<rparr>" and "h (last as) = Some n"
  shows "lseg (h(last as \<mapsto> n\<lparr>qn_next := Some b\<rparr>)) p (as @ [b])"
  using assms
proof (induction as arbitrary: p)
  case Nil
  then show ?case by simp
next
  case (Cons a as)
  show ?case
  proof (cases "as = []")
    case True
    with Cons.prems show ?thesis by auto
  next
    case False
    with Cons.prems have "last as \<in> set as" "a \<notin> set as" by auto
    then have "last as \<noteq> a" by auto
    with Cons False show ?thesis by auto
  qed
qed

lemma queue_enqueue_ok:
  assumes "queue_rel q xs"
  shows "\<exists>q'. queue_enqueue q x = Some q' \<and> queue_rel q' (xs @ [x])"
proof -
  from assms obtain as where as: "lseg (q_heap q) (q_head q) as" "distinct as"
      "\<forall>a\<in>set as. a < q_brk q" "map (\<lambda>a. qn_obj (the (q_heap q a))) as = xs"
      "num_elem q = length as" "as \<noteq> [] \<longrightarrow> q_tail q = Some (last as)"
    unfolding queue_rel_def by blast
  let ?b = "q_brk q"
  let ?h = "(q_heap q)(?b \<mapsto> \<lparr>qn_next = None, qn_obj = x\<rparr>)"
  have fresh: "?b \<notin> set as" using as(3) by auto
  show ?thesis
  proof (cases "as = []")
    case True
    then have "queue_rel (q\<lparr>q_head := Some ?b, q_tail := Some ?b, q_heap := ?h,
        q_brk := ?b + 1, num_elem := num_elem q + 1\<rparr>) (xs @ [x])"
      using as unfolding queue_rel_def by (intro exI [of _ "[?b]"]) simp
    with True as show ?thesis by (simp add: queue_enqueue_def Let_def)
  next
    case False
    then obtain n where n: "q_heap q (last as) = Some n"
      using lseg_dom [OF as(1)] by force
    have lb: "last as \<in> set as" "last as \<noteq> ?b"
      using False fresh last_in_set [of as] by metis+
    let ?h' = "?h(last as \<mapsto> n\<lparr>qn_next := Some ?b\<rparr>)"
    have "lseg ?h (q_head q) as" using as(1) fresh by (rule lseg_frame)
    then have "lseg ?h' (q_head q) (as @ [?b])"
      using False as(2) fresh n lb by (intro lseg_snoc) auto
    moreover have "map (\<lambda>a. qn_obj (the (?h' a))) as = xs"
      using as(4) fresh n by auto
    ultimately have "queue_rel (q\<lparr>q_heap := ?h', q_tail := Some ?b, q_brk := ?b + 1,
        num_elem := num_elem q + 1\<rparr>) (xs @ [x])"
      unfolding queue_rel_def using as(2,3,5) fresh lb
      by (intro exI [of _ "as @ [?b]"]) (auto simp: less_Suc_eq)
    with False as n lb show ?thesis by (auto simp: queue_enqueue_def Let_def)
  qed
qed

lemma queue_dequeue_ok:
  assumes "queue_rel q (x # xs)"
  shows "\<exists>q'. queue_dequeue q = Some (Some x, q') \<and> queue_rel q' xs"
proof -
  from assms obtain a as where as: "lseg (q_heap q) (q_head q) (a # as)" "distinct (a # as)"
      "\<forall>b\<in>set (a # as). b < q_brk q" "map (\<lambda>a. qn_obj (the (q_heap q a))) (a # as) = x # xs"
      "num_elem q = length (a # as)" "q_tail q = Some (last (a # as))"
    unfolding queue_rel_def by (auto simp: map_eq_Cons_conv)
  then obtain n where n: "q_heap q a = Some n" "lseg (q_heap q) (qn_next n) as" by auto
  have "lseg ((q_heap q)(a := None)) (qn_next n) as"
    using n(2) as(2) by (intro lseg_frame) auto
  moreover have "map (\<lambda>b. qn_obj (the (((q_heap q)(a := None)) b))) as = xs"
    using as(2,4) by auto
  ultimately have "queue_rel (q\<lparr>q_head := qn_next n, q_heap := (q_heap q)(a := None),
      num_elem := num_elem q - 1, q_tail := (if num_elem q - 1 = 0 then None else q_tail q)\<rparr>) xs"
    unfolding queue_rel_def using as by (intro exI [of _ as]) auto
  with as n show ?thesis by (simp add: queue_dequeue_def)
qed

interpretation lq: fifo queue_init queue_enqueue queue_dequeue queue_is_empty queue_size queue_rel
proof unfold_locales
  show "queue_rel queue_init []"
    unfolding queue_rel_def queue_init_def by (intro exI [of _ "[]"]) simp
  show "queue_rel q [] \<Longrightarrow> queue_dequeue q = Some (None, q)" for q :: "'a queue"
    by (auto simp: queue_rel_def queue_dequeue_def)
  show "queue_rel q xs \<Longrightarrow> queue_is_empty q \<longleftrightarrow> xs = []" for q :: "'a queue" and xs
    by (auto simp: queue_rel_def queue_is_empty_def)
  show "queue_rel q xs \<Longrightarrow> queue_size q = length xs" for q :: "'a queue" and xs
    by (auto simp: queue_rel_def queue_size_def)
qed (auto intro: queue_enqueue_ok queue_dequeue_ok)

subsection \<open>Properties\<close>

text \<open>\<open>n\<close> calls of \<open>queue_dequeue\<close> in a row, with what they return.\<close>

fun queue_drain :: "nat \<Rightarrow> 'a queue \<Rightarrow> ('a option list \<times> 'a queue) option" where
  "queue_drain 0 q = Some ([], q)"
| "queue_drain (Suc n) q = do {
     (x, q') \<leftarrow> queue_dequeue q;
     (xs, q'') \<leftarrow> queue_drain n q';
     Some (x # xs, q'')
   }"

lemma queue_drain_ok:
  "queue_rel q xs \<Longrightarrow> \<exists>q'. queue_drain (length xs) q = Some (map Some xs, q') \<and> queue_rel q' []"
proof (induction xs arbitrary: q)
  case (Cons x xs)
  obtain q1 where q1: "queue_dequeue q = Some (Some x, q1)" "queue_rel q1 xs"
    using lq.deq_ok [OF Cons.prems] by blast
  then show ?case using Cons.IH [OF q1(2)] by auto
qed simp


end
