(* ===== verification/DS_Intv.thy ===== *)
theory DS_Intv
  imports DS_SFC DS_Queue
begin

text \<open>
  Boxes as sets of curve indices (src/src/bbox.c, \<open>bbox_flat\<close> to \<open>bbox_to_intv2\<close>): the virtual
  domain, a cube of side \<open>dim_virt\<close>, is split until every cube lies inside the box or outside of it;
  a cube inside is an interval of the Hilbert curve. \<open>bbox_to_intv\<close> keeps the candidates in a linked
  queue, \<open>bbox_to_intv2\<close> in a ring of boxes that is enlarged when it is full.
  \<^item> a table of intervals is a list; the number of intervals the C function reports is separate,
    because \<open>intv_compact\<close> reports 1 for an empty table;
  \<^item> \<open>mem\<close> is the content of freshly allocated memory;
  \<^item> \<open>qsort\<close> is a sort by the key that \<open>intv_compar\<close> compares.
\<close>

subsection \<open>The interval of a cube\<close>

definition sfc_corner :: "bbox \<Rightarrow> nat \<Rightarrow> coord" where
  "sfc_corner bb i = (\<lambda>j. if bit i j then ub bb j else lb bb j)"

definition flat_step :: "u64 \<Rightarrow> intv \<Rightarrow> intv" where
  "flat_step index itv =
     (if index < i_lb itv then itv\<lparr>i_lb := index\<rparr>
      else if index > i_ub itv then itv\<lparr>i_ub := index\<rparr> else itv)"

definition bbox_flat :: "bbox \<Rightarrow> nat \<Rightarrow> intv" where
  "bbox_flat bb bpd =
     fold (\<lambda>i. flat_step (hilbert_c2i (num_dims bb) bpd (sfc_corner bb i))) [0..<2 ^ num_dims bb]
       \<lparr>i_lb = NOT 0, i_ub = 0\<rparr>"

subsection \<open>Sorting and joining intervals\<close>

definition intv_compar :: "intv \<Rightarrow> intv \<Rightarrow> int" where
  "intv_compar i0 i1 = (if i_lb i0 < i_lb i1 then - 1 else if i_lb i0 > i_lb i1 then 1 else 0)"

definition qsort_intv :: "intv list \<Rightarrow> intv list" where
  "qsort_intv i_tab = sort_key i_lb i_tab"

definition compact_step :: "nat \<Rightarrow> intv list \<times> nat \<Rightarrow> intv list \<times> nat" where
  "compact_step j = (\<lambda>(i_tab, i).
     if i_ub (i_tab ! i) + 1 = i_lb (i_tab ! j)
     then (i_tab[i := (i_tab ! i)\<lparr>i_ub := i_ub (i_tab ! j)\<rparr>], i)
     else (i_tab[i + 1 := i_tab ! j], i + 1))"

definition intv_compact :: "intv list \<Rightarrow> nat \<Rightarrow> intv list \<times> nat" where
  "intv_compact i_tab num_itv =
     (let (i_tab', i) = fold compact_step [1..<num_itv] (i_tab, 0) in (i_tab', i + 1))"

text \<open>The last lines of both translations: sort, join, cut the table to the reported number.\<close>

definition intv_finish :: "intv list \<Rightarrow> intv list \<times> nat" where
  "intv_finish i_tab =
     (let (i_tab', n) = intv_compact (qsort_intv i_tab) (length i_tab) in (take n i_tab', n))"

subsection \<open>With a queue\<close>

definition virt_box :: "bbox \<Rightarrow> u64 \<Rightarrow> bbox" where
  "virt_box bb n =
     \<lparr>num_dims = num_dims bb, lb = \<lambda>_. 0, ub = \<lambda>i. if i < num_dims bb then n - 1 else 0\<rparr>"

partial_function (option) intv_loop ::
  "bbox \<Rightarrow> nat \<Rightarrow> (nat \<Rightarrow> bbox) \<Rightarrow> bbox queue \<Rightarrow> intv queue \<Rightarrow> intv queue option" where
  "intv_loop bb bpd b_tab q_can q_good =
     (if queue_is_empty q_can then Some q_good
      else do {
        (bv, q_can) \<leftarrow> queue_dequeue q_can;
        bb_virt \<leftarrow> bv;
        if bbox_include bb bb_virt
        then do {
          q_good \<leftarrow> queue_enqueue q_good (bbox_flat bb_virt bpd);
          intv_loop bb bpd b_tab q_can q_good
        }
        else if bbox_does_intersect bb bb_virt
        then do {
          q_can \<leftarrow> foldM (\<lambda>i q. queue_enqueue q (bbox_divide bb_virt b_tab i)) [0..<2 ^ num_dims bb] q_can;
          intv_loop bb bpd (bbox_divide bb_virt b_tab) q_can q_good
        }
        else intv_loop bb bpd b_tab q_can q_good
      })"

partial_function (option) intv_drain :: "intv queue \<Rightarrow> intv list \<Rightarrow> intv list option" where
  "intv_drain q_good i_tab =
     (if queue_is_empty q_good then Some i_tab
      else do {
        (i_tmp, q_good) \<leftarrow> queue_dequeue q_good;
        i_tmp \<leftarrow> i_tmp;
        intv_drain q_good (i_tab @ [i_tmp])
      })"

definition bbox_to_intv :: "bbox \<Rightarrow> u64 \<Rightarrow> (intv list \<times> nat) option" where
  "bbox_to_intv bb dim_virt = do {
     q_can \<leftarrow> queue_enqueue queue_init (virt_box bb dim_virt);
     q_good \<leftarrow> intv_loop bb (compute_bits dim_virt) (\<lambda>_. \<lparr>num_dims = 0, lb = \<lambda>_. 0, ub = \<lambda>_. 0\<rparr>)
                 q_can queue_init;
     i_tab \<leftarrow> intv_drain q_good [];
     Some (intv_finish i_tab)
   }"

subsection \<open>With a ring\<close>

record bb_ring =
  rg_tab :: "nat \<Rightarrow> bbox"
  rg_size :: nat
  rg_head :: nat
  rg_tail :: nat

definition memcpy_box :: "(nat \<Rightarrow> bbox) \<Rightarrow> nat \<Rightarrow> (nat \<Rightarrow> bbox) \<Rightarrow> nat \<Rightarrow> nat \<Rightarrow> (nat \<Rightarrow> bbox)" where
  "memcpy_box dst d src s n = (\<lambda>i. if d \<le> i \<and> i < d + n then src (s + (i - d)) else dst i)"

definition ring_grow :: "(nat \<Rightarrow> bbox) \<Rightarrow> nat \<Rightarrow> bb_ring \<Rightarrow> bb_ring" where
  "ring_grow mem n r =
     (let tmp_size = rg_size r + rg_size r div 2;
          bb_nsize = tmp_size - tmp_size mod n;
          bb_nhead = rg_head r - rg_head r mod n;
          bb_ntab =
            (if rg_tail r > rg_head r
             then memcpy_box mem 0 (rg_tab r) bb_nhead (rg_tail r - bb_nhead)
             else memcpy_box (memcpy_box mem 0 (rg_tab r) bb_nhead (rg_size r - bb_nhead))
                    (rg_size r - bb_nhead) (rg_tab r) 0 (rg_tail r))
      in \<lparr>rg_tab = bb_ntab, rg_size = bb_nsize, rg_head = rg_head r mod n, rg_tail = rg_size r - n\<rparr>)"

definition ring_full :: "nat \<Rightarrow> bb_ring \<Rightarrow> bool" where
  "ring_full n r \<longleftrightarrow> (rg_tail r + n) mod rg_size r = rg_head r - rg_head r mod n"

text \<open>\<open>bbox_divide(pbb, &bb_tab[bb_tail])\<close>\<close>

definition ring_divide :: "nat \<Rightarrow> bb_ring \<Rightarrow> bb_ring" where
  "ring_divide n r =
     (let pbb = rg_tab r (rg_head r);
          kids = bbox_divide pbb (\<lambda>i. rg_tab r (rg_tail r + i))
      in r\<lparr>rg_tab := (\<lambda>i. if rg_tail r \<le> i then kids (i - rg_tail r) else rg_tab r i),
           rg_tail := (rg_tail r + n) mod rg_size r\<rparr>)"

definition ring_next :: "bb_ring \<Rightarrow> bb_ring" where
  "ring_next r = r\<lparr>rg_head := (rg_head r + 1) mod rg_size r\<rparr>"

partial_function (option) intv2_loop ::
  "(nat \<Rightarrow> bbox) \<Rightarrow> bbox \<Rightarrow> nat \<Rightarrow> nat \<Rightarrow> bb_ring \<Rightarrow> intv list \<Rightarrow> intv list option" where
  "intv2_loop mem bb bpd n r i_tab =
     (if rg_head r = rg_tail r then Some i_tab
      else
        let pbb = rg_tab r (rg_head r) in
        if bbox_include bb pbb
        then intv2_loop mem bb bpd n (ring_next r) (i_tab @ [bbox_flat pbb bpd])
        else if bbox_does_intersect bb pbb
        then intv2_loop mem bb bpd n
               (ring_next (ring_divide n (if ring_full n r then ring_grow mem n r else r))) i_tab
        else intv2_loop mem bb bpd n (ring_next r) i_tab)"

definition bbox_to_intv2 :: "(nat \<Rightarrow> bbox) \<Rightarrow> bbox \<Rightarrow> u64 \<Rightarrow> (intv list \<times> nat) option" where
  "bbox_to_intv2 mem bb dim_virt =
     (let bb_size = 4096;
          first = \<lparr>num_dims = num_dims bb,
                   lb = \<lambda>i. if i < num_dims bb then 0 else lb (mem (bb_size - 1)) i,
                   ub = \<lambda>i. if i < num_dims bb then dim_virt - 1 else ub (mem (bb_size - 1)) i\<rparr>
      in map_option intv_finish
           (intv2_loop mem bb (compute_bits dim_virt) (2 ^ num_dims bb)
              \<lparr>rg_tab = mem(bb_size - 1 := first), rg_size = bb_size, rg_head = bb_size - 1, rg_tail = 0\<rparr> []))"

end
