(* ===== verification/DS_Objects.thy ===== *)
theory DS_Objects
  imports DS_BBox
begin

text \<open>
  Data objects and their descriptors (src/include/ss_data.h and the second half of
  src/src/ss_data.c): the descriptor tests that decide which stored object answers a query,
  the sizes, allocation, and the per-variable list of global dimensions.
  \<^item> an object is identified by its address \<open>od_addr\<close>, as the C lists link \<open>struct obj_data\<close>
    by pointer;
  \<^item> what malloc returns is an argument of the allocation functions (\<open>None\<close> is NULL), as is
    the initial content of the data block;
  \<^item> \<open>data\<close> is the content of the aligned data pointer, byte by byte; \<open>own_data\<close> says that the
    pointer \<open>_data\<close> is set, so that \<open>obj_data_free\<close> releases the block.
\<close>

datatype storage_type = row_major | column_major

record obj_descriptor =
  od_name :: string
  od_st :: storage_type
  od_owner :: int
  od_version :: u32
  od_bb :: bbox
  od_size :: u64

record global_dimension =
  ndim :: nat
  sizes :: coord

record obj_data =
  od_addr :: nat
  obj_desc :: obj_descriptor
  od_gdim :: global_dimension
  data :: "nat \<Rightarrow> byte"
  own_data :: bool
  obj_ref :: "nat option"
  refcnt :: int
  f_free :: bool

record gdim_list_entry =
  var_name :: string
  gl_gdim :: global_dimension

subsection \<open>Descriptor tests\<close>

definition obj_desc_equals_no_owner :: "obj_descriptor \<Rightarrow> obj_descriptor \<Rightarrow> bool" where
  "obj_desc_equals_no_owner odsc1 odsc2 \<longleftrightarrow>
     od_name odsc1 = od_name odsc2 \<and> bbox_equals (od_bb odsc1) (od_bb odsc2)"

definition obj_desc_equals :: "obj_descriptor \<Rightarrow> obj_descriptor \<Rightarrow> bool" where
  "obj_desc_equals odsc1 odsc2 \<longleftrightarrow>
     od_owner odsc1 = od_owner odsc2 \<and> bbox_equals (od_bb odsc1) (od_bb odsc2)"

definition obj_desc_equals_intersect :: "obj_descriptor \<Rightarrow> obj_descriptor \<Rightarrow> bool" where
  "obj_desc_equals_intersect odsc1 odsc2 \<longleftrightarrow>
     od_name odsc1 = od_name odsc2 \<and> od_version odsc1 = od_version odsc2 \<and>
     bbox_does_intersect (od_bb odsc1) (od_bb odsc2)"

definition obj_desc_by_name_intersect :: "obj_descriptor \<Rightarrow> obj_descriptor \<Rightarrow> bool" where
  "obj_desc_by_name_intersect odsc1 odsc2 \<longleftrightarrow>
     od_name odsc1 = od_name odsc2 \<and> bbox_does_intersect (od_bb odsc1) (od_bb odsc2)"

definition obj_desc_by_name_only_intersect :: "obj_descriptor \<Rightarrow> obj_descriptor \<Rightarrow> bool" where
  "obj_desc_by_name_only_intersect odsc1 odsc2 \<longleftrightarrow> od_name odsc1 = od_name odsc2"

subsection \<open>Sizes and allocation\<close>

definition obj_data_size :: "obj_descriptor \<Rightarrow> u64" where
  "obj_data_size odsc = od_size odsc * bbox_volume (od_bb odsc)"

definition obj_data_sizev :: "obj_descriptor \<Rightarrow> u64" where
  "obj_data_sizev odsc =
     (if num_dims (od_bb odsc) = 2
      then (if od_st odsc = row_major then 1 * bbox_dist (od_bb odsc) 1
            else 1 * bbox_dist (od_bb odsc) 0)
      else if num_dims (od_bb odsc) = 3
      then (if od_st odsc = row_major
            then 1 * bbox_dist (od_bb odsc) 2 * bbox_dist (od_bb odsc) 1
            else 1 * bbox_dist (od_bb odsc) 2 * bbox_dist (od_bb odsc) 0)
      else 1)"

definition gdim_zero :: global_dimension where
  "gdim_zero = \<lparr>ndim = 0, sizes = vec []\<rparr>"

text \<open>\<open>malloc\<close> of the struct and of the data block, memset of the struct, copy of the descriptor.\<close>

definition obj_data_alloc ::
  "nat option \<Rightarrow> (nat \<Rightarrow> byte) option \<Rightarrow> obj_descriptor \<Rightarrow> obj_data option" where
  "obj_data_alloc p buf odsc =
     (case p of None \<Rightarrow> None
      | Some a \<Rightarrow> (case buf of None \<Rightarrow> None
        | Some d \<Rightarrow> Some \<lparr>od_addr = a, obj_desc = odsc, od_gdim = gdim_zero, data = d,
                        own_data = True, obj_ref = None, refcnt = 0, f_free = False\<rparr>))"

definition obj_data_alloc_no_data ::
  "nat option \<Rightarrow> obj_descriptor \<Rightarrow> (nat \<Rightarrow> byte) \<Rightarrow> obj_data option" where
  "obj_data_alloc_no_data p odsc d =
     (case p of None \<Rightarrow> None
      | Some a \<Rightarrow> Some \<lparr>od_addr = a, obj_desc = odsc, od_gdim = gdim_zero, data = d,
                      own_data = False, obj_ref = None, refcnt = 0, f_free = False\<rparr>)"

definition memcpy :: "(nat \<Rightarrow> byte) \<Rightarrow> nat \<Rightarrow> (nat \<Rightarrow> byte) \<Rightarrow> nat \<Rightarrow> nat \<Rightarrow> (nat \<Rightarrow> byte)" where
  "memcpy A a B b n = (\<lambda>k. if a \<le> k \<and> k < a + n then B (b + (k - a)) else A k)"

definition obj_data_alloc_with_data ::
  "nat option \<Rightarrow> (nat \<Rightarrow> byte) option \<Rightarrow> obj_descriptor \<Rightarrow> (nat \<Rightarrow> byte) \<Rightarrow> obj_data option" where
  "obj_data_alloc_with_data p buf odsc src =
     (case obj_data_alloc p buf odsc of None \<Rightarrow> None
      | Some od \<Rightarrow> Some (od\<lparr>data := memcpy (data od) 0 src 0 (unat (obj_data_size odsc))\<rparr>))"

subsection \<open>Global dimensions\<close>

definition copy_global_dimension :: "nat \<Rightarrow> coord \<Rightarrow> global_dimension" where
  "copy_global_dimension n gdim = \<lparr>ndim = n, sizes = (\<lambda>i. if i < n then gdim i else 0)\<rparr>"

fun lookup_gdim_list :: "gdim_list_entry list \<Rightarrow> string \<Rightarrow> gdim_list_entry option" where
  "lookup_gdim_list [] name = None"
| "lookup_gdim_list (e # es) name =
     (if var_name e = name then Some e else lookup_gdim_list es name)"

text \<open>The C code updates the entry it found in place; a new entry goes to the front.\<close>

fun update_first_gdim :: "gdim_list_entry list \<Rightarrow> string \<Rightarrow> global_dimension \<Rightarrow> gdim_list_entry list" where
  "update_first_gdim [] name g = []"
| "update_first_gdim (e # es) name g =
     (if var_name e = name then e\<lparr>gl_gdim := g\<rparr> # es else e # update_first_gdim es name g)"

definition update_gdim_list :: "gdim_list_entry list \<Rightarrow> string \<Rightarrow> nat \<Rightarrow> coord \<Rightarrow> gdim_list_entry list" where
  "update_gdim_list l name n gdim =
     (case lookup_gdim_list l name of
        None \<Rightarrow> \<lparr>var_name = name, gl_gdim = copy_global_dimension n gdim\<rparr> # l
      | Some _ \<Rightarrow> update_first_gdim l name (copy_global_dimension n gdim))"

definition set_global_dimension ::
  "gdim_list_entry list \<Rightarrow> string \<Rightarrow> global_dimension \<Rightarrow> global_dimension" where
  "set_global_dimension l name def_gdim =
     (case lookup_gdim_list l name of Some e \<Rightarrow> gl_gdim e | None \<Rightarrow> def_gdim)"

definition global_dimension_equal :: "global_dimension \<Rightarrow> global_dimension \<Rightarrow> bool" where
  "global_dimension_equal g1 g2 \<longleftrightarrow> list_all (\<lambda>i. sizes g1 i = sizes g2 i) [0..<ndim g1]"

subsection \<open>Lemmas\<close>

lemmas obj_desc_test_defs =
  obj_desc_equals_no_owner_def obj_desc_equals_def obj_desc_equals_intersect_def
  obj_desc_by_name_intersect_def obj_desc_by_name_only_intersect_def

lemma bbox_does_intersect_refl: "bbox_wf b \<Longrightarrow> bbox_does_intersect b b"
  by (auto simp: bbox_does_intersect_def bbox_intersect_ondim_def bbox_wf_def)

lemma bbox_does_intersect_sym:
  "num_dims b0 = num_dims b1 \<Longrightarrow> bbox_does_intersect b0 b1 \<longleftrightarrow> bbox_does_intersect b1 b0"
  by (auto simp: bbox_does_intersect_def bbox_intersect_ondim_def)

lemma equals_intersect_by_name:
  "obj_desc_equals_intersect d1 d2 \<longleftrightarrow>
     obj_desc_by_name_intersect d1 d2 \<and> od_version d1 = od_version d2"
  by (auto simp: obj_desc_test_defs)

lemma lookup_update_first:
  "lookup_gdim_list l name = Some e \<Longrightarrow>
   lookup_gdim_list (update_first_gdim l name g) name' =
     (if name' = name then Some (e\<lparr>gl_gdim := g\<rparr>) else lookup_gdim_list l name')"
  by (induction l) (auto split: if_splits)

lemma lookup_gdim_name: "lookup_gdim_list l name = Some e \<Longrightarrow> var_name e = name"
  by (induction l) (auto split: if_splits)

lemma set_after_update_gdim:
  "set_global_dimension (update_gdim_list l name n g) name' d =
     (if name' = name then copy_global_dimension n g else set_global_dimension l name' d)"
  by (auto simp: set_global_dimension_def update_gdim_list_def lookup_update_first
      split: option.splits)

lemma obj_data_size_no_overflow:
  assumes "bbox_wf (od_bb odsc)" and "unat (od_size odsc) * bbox_vol (od_bb odsc) < 2 ^ 64"
    and "0 < od_size odsc"
  shows "unat (obj_data_size odsc) = unat (od_size odsc) * bbox_vol (od_bb odsc)"
proof -
  have "0 < unat (od_size odsc)" using assms(3) by (simp add: unat_gt_0)
  then have "bbox_vol (od_bb odsc) \<le> unat (od_size odsc) * bbox_vol (od_bb odsc)" by simp
  then have "bbox_vol (od_bb odsc) < 2 ^ 64" using assms(2) by linarith
  then have v: "unat (bbox_volume (od_bb odsc)) = bbox_vol (od_bb odsc)"
    using assms(1) by (simp add: unat_bbox_volume)
  show ?thesis
    using assms(2) unfolding obj_data_size_def by (simp add: unat_mult_u64 v)
qed

subsection \<open>Properties\<close>

text \<open>C30: the last \<open>update_gdim_list\<close> of a variable decides the global dimension that
  \<open>set_global_dimension\<close> reports for it; other variables are not affected and a variable that was
  never set has the default.\<close>

theorem gdim_last_update_wins:
  "set_global_dimension (update_gdim_list l name n g) name' d =
     (if name' = name then copy_global_dimension n g else set_global_dimension l name' d) \<and>
   set_global_dimension [] name' d = d"
  using set_after_update_gdim by (simp add: set_global_dimension_def)

end
