(* ===== verification/DS_Table.thy ===== *)
theory DS_Table
  imports DS_Objects "HOL-Library.Multiset"
begin

text \<open>
  The contract shared by the two descriptor tables of src/src/ss_data.c, the local storage
  (\<open>struct ss_storage\<close>) and the directory entry (\<open>struct dht_entry\<close>). Both hash an element by
  its version modulo the number of bins, and both let a new element displace the first
  element of its bin that has the same name and an intersecting box. The locale
  \<open>version_table\<close> states that contract; the abstract specification \<open>spec_put\<close> displaces every
  conflicting element, and the locale proves that the tables implement it for variables that
  are written with one fixed decomposition (\<open>desc_regular\<close>).
\<close>

definition by_name_conflict :: "('e \<Rightarrow> obj_descriptor) \<Rightarrow> 'e \<Rightarrow> 'e \<Rightarrow> bool" where
  "by_name_conflict desc e x \<longleftrightarrow> obj_desc_by_name_intersect (desc e) (desc x)"

text \<open>
  A variable is decomposed regularly when any two boxes of it that overlap are the same box
  (the note in \<open>obj_desc_equals_no_owner\<close>: "object distribution should not change with version").
\<close>

definition desc_regular :: "obj_descriptor set \<Rightarrow> bool" where
  "desc_regular D \<longleftrightarrow> (\<forall>d\<in>D. bbox_wf (od_bb d)) \<and>
     (\<forall>d\<in>D. \<forall>d'\<in>D. obj_desc_by_name_intersect d d' \<longrightarrow> bbox_equals (od_bb d) (od_bb d'))"

definition one_per_box :: "('e \<Rightarrow> obj_descriptor) \<Rightarrow> 'e multiset \<Rightarrow> bool" where
  "one_per_box desc M \<longleftrightarrow> (\<forall>x\<in>#M. size (filter_mset (by_name_conflict desc x) M) = 1)"

text \<open>The abstract table: a set of elements; a put displaces all it conflicts with.\<close>

definition spec_put :: "('e \<Rightarrow> obj_descriptor) \<Rightarrow> 'e \<Rightarrow> 'e set \<Rightarrow> 'e set" where
  "spec_put desc e S = insert e {x\<in>S. \<not> by_name_conflict desc e x}"

lemma concat_map_Nil [simp]: "concat (map (\<lambda>_. []) xs) = []"
  by (induction xs) auto

lemma desc_regular_mono: "desc_regular D \<Longrightarrow> D' \<subseteq> D \<Longrightarrow> desc_regular D'"
  unfolding desc_regular_def by blast

lemma desc_regular_refl: "desc_regular D \<Longrightarrow> d \<in> D \<Longrightarrow> obj_desc_by_name_intersect d d"
  by (auto simp: desc_regular_def obj_desc_by_name_intersect_def bbox_does_intersect_refl)

lemma bbox_equals_trans: "bbox_equals a b \<Longrightarrow> bbox_equals b c \<Longrightarrow> bbox_equals a c"
  by (auto simp: bbox_equals_def)

lemma bbox_equals_sym: "bbox_equals a b \<Longrightarrow> bbox_equals b a"
  by (auto simp: bbox_equals_def)

lemma desc_regular_conflict_iff:
  assumes "desc_regular D" "d \<in> D" "d' \<in> D"
  shows "obj_desc_by_name_intersect d d' \<longleftrightarrow>
    od_name d = od_name d' \<and> bbox_equals (od_bb d) (od_bb d')"
proof
  assume "obj_desc_by_name_intersect d d'"
  then show "od_name d = od_name d' \<and> bbox_equals (od_bb d) (od_bb d')"
    using assms unfolding desc_regular_def by (auto simp: obj_desc_by_name_intersect_def)
next
  assume *: "od_name d = od_name d' \<and> bbox_equals (od_bb d) (od_bb d')"
  have "bbox_wf (od_bb d)" using assms unfolding desc_regular_def by blast
  then show "obj_desc_by_name_intersect d d'" using *
    by (auto simp: obj_desc_by_name_intersect_def bbox_does_intersect_def bbox_equals_def
        bbox_intersect_ondim_def bbox_wf_def)
qed

lemma desc_regular_equiv:
  assumes "desc_regular D" "a \<in> D" "b \<in> D" "c \<in> D" "obj_desc_by_name_intersect a b"
  shows "obj_desc_by_name_intersect b a"
    and "obj_desc_by_name_intersect a c \<longleftrightarrow> obj_desc_by_name_intersect b c"
  using assms(5)
  by (auto simp: desc_regular_conflict_iff [OF assms(1)] assms(2-4)
      intro: bbox_equals_sym bbox_equals_trans)

lemma one_per_box_empty [simp]: "one_per_box desc {#}"
  by (simp add: one_per_box_def)

lemma one_per_box_unique:
  assumes "one_per_box desc M" "x \<in># M" "y \<in># M" "by_name_conflict desc x x"
    "by_name_conflict desc x y"
  shows "x = y"
proof (rule ccontr)
  assume "x \<noteq> y"
  let ?F = "filter_mset (by_name_conflict desc x) M"
  have "x \<in># ?F" "y \<in># ?F" using assms by auto
  then obtain N where N: "?F = add_mset x N" by (meson multi_member_split)
  have "size ?F = 1" using assms(1,2) unfolding one_per_box_def by blast
  then have "N = {#}" using N by simp
  then show False using N \<open>y \<in># ?F\<close> \<open>x \<noteq> y\<close> by simp
qed

text \<open>Displacing one element per put keeps one element per box.\<close>

lemma one_per_box_put:
  assumes reg: "desc_regular (insert (desc e) (desc ` set_mset M))"
    and one: "one_per_box desc M"
    and M': "M' = add_mset e (filter_mset (\<lambda>x. \<not> by_name_conflict desc e x) M)"
  shows "one_per_box desc M'"
  unfolding one_per_box_def
proof
  let ?D = "insert (desc e) (desc ` set_mset M)"
  let ?m = "by_name_conflict desc"
  fix x assume "x \<in># M'"
  then consider "x = e" | "x \<in># M" "\<not> ?m e x" unfolding M' by auto
  then show "size (filter_mset (?m x) M') = 1"
  proof cases
    case 1
    have "?m e e" unfolding by_name_conflict_def by (rule desc_regular_refl [OF reg]) simp
    moreover have "filter_mset (?m e) (filter_mset (\<lambda>x. \<not> ?m e x) M) = {#}" by simp
    ultimately show ?thesis unfolding 1 M' by simp
  next
    case 2
    have nx: "\<not> ?m x e"
    proof
      assume "?m x e"
      then have "?m e x"
        unfolding by_name_conflict_def
        using desc_regular_equiv(1) [OF reg] 2(1) by blast
      then show False using 2(2) by simp
    qed
    have "?m x y \<Longrightarrow> y \<in># M \<Longrightarrow> \<not> ?m e y" for y
      unfolding by_name_conflict_def
      using desc_regular_equiv [OF reg, of "desc y" "desc x" "desc e"]
        desc_regular_equiv(1) [OF reg, of "desc x" "desc y" "desc e"]
        desc_regular_equiv(1) [OF reg, of "desc e" "desc y" "desc e"]
        nx 2(1) unfolding by_name_conflict_def by blast
    then have "filter_mset (?m x) (filter_mset (\<lambda>x. \<not> ?m e x) M) = filter_mset (?m x) M"
      by (auto simp: filter_filter_mset intro: filter_mset_cong)
    then show ?thesis using one 2(1) nx unfolding one_per_box_def M' by simp
  qed
qed

lemma one_per_box_remove:
  assumes reg: "desc_regular (insert (desc e) (desc ` set_mset M))" and one: "one_per_box desc M"
    and x: "x \<in># M" "by_name_conflict desc e x"
  shows "M - {#x#} = filter_mset (\<lambda>y. \<not> by_name_conflict desc e y) M"
proof -
  let ?m = "by_name_conflict desc"
  have eq: "?m e y = ?m x y" if "y \<in># M" for y
    unfolding by_name_conflict_def
    using desc_regular_equiv(2) [OF reg, of "desc e" "desc x" "desc y"] x that
    unfolding by_name_conflict_def by blast
  have xx: "?m x x" using eq x by blast
  have fx: "filter_mset (?m e) M = filter_mset (?m x) M" by (rule filter_mset_cong) (auto simp: eq)
  have "size (filter_mset (?m x) M) = 1" using one x(1) unfolding one_per_box_def by blast
  moreover have "x \<in># filter_mset (?m x) M" using x xx by simp
  ultimately have "filter_mset (?m x) M = {#x#}" by (metis One_nat_def size_1_singleton_mset singletonD set_mset_single set_mset_add_mset_insert)
  then show ?thesis using multiset_partition [of M "?m e"] fx by (metis add_mset_add_single add_mset_remove_trivial add.commute)
qed

lemma Cons_split:
  "(\<exists>us vs. e # es = us @ x # vs \<and> P vs) \<longleftrightarrow>
     (e = x \<and> P es) \<or> (\<exists>us vs. es = us @ x # vs \<and> P vs)"
  by (auto simp: Cons_eq_append_conv)

text \<open>What a sequence of puts leaves: the elements no later put conflicts with.\<close>

lemma fold_spec_put_iff:
  "x \<in> fold (spec_put desc) es S \<longleftrightarrow>
     (\<exists>us vs. es = us @ x # vs \<and> (\<forall>y\<in>set vs. \<not> by_name_conflict desc y x)) \<or>
     (x \<in> S \<and> (\<forall>y\<in>set es. \<not> by_name_conflict desc y x))"
proof (induction es arbitrary: S)
  case (Cons e es)
  have step: "x \<in> spec_put desc e S \<longleftrightarrow> x = e \<or> (x \<in> S \<and> \<not> by_name_conflict desc e x)"
    by (auto simp: spec_put_def)
  show ?case
    unfolding fold_simps Cons.IH step Cons_split by auto
qed simp

lemma filter_split:
  "(\<exists>us vs. filter P es = us @ x # vs \<and> (\<forall>y\<in>set vs. Q y)) \<longleftrightarrow>
     P x \<and> (\<exists>us vs. es = us @ x # vs \<and> (\<forall>y\<in>set vs. P y \<longrightarrow> Q y))"
  by (induction es) (auto simp: Cons_split)

fun puts_ok :: "('e \<Rightarrow> 't \<Rightarrow> bool) \<Rightarrow> ('e \<Rightarrow> 't \<Rightarrow> 't) \<Rightarrow> 'e list \<Rightarrow> 't \<Rightarrow> bool" where
  "puts_ok ok put [] t = True"
| "puts_ok ok put (e # es) t = (ok e t \<and> puts_ok ok put es (put e t))"

subsection \<open>The contract\<close>

locale version_table =
  fixes inv :: "'t \<Rightarrow> bool"
    and nbins :: "'t \<Rightarrow> nat"
    and bin :: "'t \<Rightarrow> nat \<Rightarrow> 'e list"
    and desc :: "'e \<Rightarrow> obj_descriptor"
    and ok :: "'e \<Rightarrow> 't \<Rightarrow> bool"
    and put :: "'e \<Rightarrow> 't \<Rightarrow> 't"
  assumes put_inv: "inv t \<Longrightarrow> ok e t \<Longrightarrow> inv (put e t)"
    and put_nbins: "nbins (put e t) = nbins t"
    and put_other: "inv t \<Longrightarrow> ok e t \<Longrightarrow> i \<noteq> unat (od_version (desc e)) mod nbins t \<Longrightarrow>
      bin (put e t) i = bin t i"
    and put_bin: "inv t \<Longrightarrow> ok e t \<Longrightarrow> i = unat (od_version (desc e)) mod nbins t \<Longrightarrow>
      mset (bin (put e t) i) =
        add_mset e (case find (by_name_conflict desc e) (bin t i) of
          None \<Rightarrow> mset (bin t i) | Some x \<Rightarrow> mset (bin t i) - {#x#})"
begin

lemma put_mset_regular:
  assumes "inv t" "ok e t" "i = unat (od_version (desc e)) mod nbins t"
    and "desc_regular (insert (desc e) (desc ` set (bin t i)))"
    and "one_per_box desc (mset (bin t i))"
  shows "mset (bin (put e t) i) =
    add_mset e (filter_mset (\<lambda>x. \<not> by_name_conflict desc e x) (mset (bin t i)))"
proof (cases "find (by_name_conflict desc e) (bin t i)")
  case None
  then have "filter_mset (\<lambda>x. \<not> by_name_conflict desc e x) (mset (bin t i)) = mset (bin t i)"
    by (auto simp: find_None_iff filter_mset_eq_conv)
  then show ?thesis using put_bin [OF assms(1-3)] None by simp
next
  case (Some x)
  then have "x \<in> set (bin t i)" "by_name_conflict desc e x"
    by (auto simp: find_Some_iff)
  then show ?thesis
    using put_bin [OF assms(1-3)] Some assms(4,5) one_per_box_remove [of desc e "mset (bin t i)" x]
    by simp
qed

text \<open>Without any assumption on the boxes: what a put keeps, and where elements come from.\<close>

lemma put_mem:
  "inv t \<Longrightarrow> ok e t \<Longrightarrow> e \<in> set (bin (put e t) (unat (od_version (desc e)) mod nbins t))"
  using arg_cong [OF put_bin [of t e "unat (od_version (desc e)) mod nbins t"], of set_mset] by auto

lemma put_keeps:
  assumes "inv t" "ok e t" "x \<in> set (bin t i)"
    and "unat (od_version (desc e)) mod nbins t = i \<longrightarrow> \<not> by_name_conflict desc e x"
  shows "x \<in> set (bin (put e t) i)"
proof (cases "unat (od_version (desc e)) mod nbins t = i")
  case True
  have "x \<in># (case find (by_name_conflict desc e) (bin t i) of
      None \<Rightarrow> mset (bin t i) | Some y \<Rightarrow> mset (bin t i) - {#y#})"
    using True assms(3,4) by (auto simp: find_Some_iff in_diff_count split: option.split)
  then show ?thesis using put_bin [OF assms(1,2) True [symmetric]] by (metis set_mset_mset union_iff add_mset_add_single)
qed (use put_other [OF assms(1,2)] assms(3) in simp)

lemma put_from:
  assumes "inv t" "ok e t" "y \<in> set (bin (put e t) i)"
  shows "y = e \<and> unat (od_version (desc e)) mod nbins t = i \<or> y \<in> set (bin t i)"
proof (cases "unat (od_version (desc e)) mod nbins t = i")
  case True
  then have "y = e \<or> y \<in># (case find (by_name_conflict desc e) (bin t i) of
      None \<Rightarrow> mset (bin t i) | Some y \<Rightarrow> mset (bin t i) - {#y#})"
    using assms(3) arg_cong [OF put_bin [OF assms(1,2) True [symmetric]], of set_mset] by auto
  then show ?thesis using True by (auto split: option.splits dest: in_diffD)
qed (use put_other [OF assms(1,2)] assms(3) in simp)

lemma put_refines:
  assumes "inv t" "ok e t" "i = unat (od_version (desc e)) mod nbins t"
    and "desc_regular (insert (desc e) (desc ` set (bin t i)))"
    and "one_per_box desc (mset (bin t i))"
  shows "set (bin (put e t) i) = spec_put desc e (set (bin t i))"
    and "one_per_box desc (mset (bin (put e t) i))"
proof -
  note m = put_mset_regular [OF assms]
  show "set (bin (put e t) i) = spec_put desc e (set (bin t i))"
    using arg_cong [OF m, of set_mset] by (auto simp: spec_put_def)
  show "one_per_box desc (mset (bin (put e t) i))"
    by (rule one_per_box_put [of desc e "mset (bin t i)"]) (use assms m in auto)
qed

lemma puts_inv: "inv t \<Longrightarrow> puts_ok ok put es t \<Longrightarrow> inv (fold put es t)"
  by (induction es arbitrary: t) (auto simp: put_inv)

lemma puts_refine:
  assumes "inv t" "puts_ok ok put es t"
    and "desc_regular (desc ` (set es \<union> set (bin t i)))"
    and "one_per_box desc (mset (bin t i))"
  shows "set (bin (fold put es t) i) =
    fold (spec_put desc) (filter (\<lambda>e. unat (od_version (desc e)) mod nbins t = i) es)
      (set (bin t i))"
  using assms
proof (induction es arbitrary: t)
  case (Cons e es)
  let ?t = "put e t"
  have ok: "ok e t" "puts_ok ok put es ?t" using Cons.prems(2) by auto
  show ?case
  proof (cases "unat (od_version (desc e)) mod nbins t = i")
    case True
    have reg: "desc_regular (insert (desc e) (desc ` set (bin t i)))"
      by (rule desc_regular_mono [OF Cons.prems(3)]) auto
    note r = put_refines [OF Cons.prems(1) ok(1) True [symmetric] reg Cons.prems(4)]
    have "desc_regular (desc ` (set es \<union> set (bin ?t i)))"
      by (rule desc_regular_mono [OF Cons.prems(3)]) (auto simp: r(1) spec_put_def)
    from Cons.IH [OF put_inv [OF Cons.prems(1) ok(1)] ok(2) this r(2)] show ?thesis
      using True by (simp add: put_nbins r(1))
  next
    case False
    then have b: "bin ?t i = bin t i"
      using put_other [OF Cons.prems(1) ok(1)] by simp
    have "desc_regular (desc ` (set es \<union> set (bin ?t i)))"
      by (rule desc_regular_mono [OF Cons.prems(3)]) (auto simp: b)
    from Cons.IH [OF put_inv [OF Cons.prems(1) ok(1)] ok(2) this] Cons.prems(4) show ?thesis
      using False by (simp add: put_nbins b)
  qed
qed simp

text \<open>Started empty, a bin holds exactly the last element written for each box.\<close>

lemma puts_latest:
  assumes "inv t" "puts_ok ok put es t" "desc_regular (desc ` set es)" "bin t i = []"
  shows "x \<in> set (bin (fold put es t) i) \<longleftrightarrow>
    (\<exists>us vs. filter (\<lambda>e. unat (od_version (desc e)) mod nbins t = i) es = us @ x # vs \<and>
      (\<forall>y\<in>set vs. \<not> by_name_conflict desc y x))"
  using puts_refine [OF assms(1,2), of i] assms(3,4) by (simp add: fold_spec_put_iff)

text \<open>The same over the unfiltered sequence of puts.\<close>

lemma puts_latest_all:
  assumes "inv t" "puts_ok ok put es t" "desc_regular (desc ` set es)" "bin t i = []"
  shows "x \<in> set (bin (fold put es t) i) \<longleftrightarrow>
    unat (od_version (desc x)) mod nbins t = i \<and>
    (\<exists>us vs. es = us @ x # vs \<and>
      (\<forall>y\<in>set vs. unat (od_version (desc y)) mod nbins t = i \<longrightarrow> \<not> by_name_conflict desc y x))"
  unfolding puts_latest [OF assms] by (rule filter_split)

text \<open>
  A variable written version by version: exactly the last \<open>nbins\<close> versions are kept.
\<close>

lemma keeps_last_versions:
  assumes "inv t" "puts_ok ok put (map e [0..<k]) t" "\<forall>i. bin t i = []" "0 < nbins t"
    and "\<And>v. v < k \<Longrightarrow> desc (e v) = d\<lparr>od_version := of_nat v\<rparr>" "bbox_wf (od_bb d)" "k \<le> 2 ^ 32"
  shows "x \<in> set (bin (fold put (map e [0..<k]) t) i) \<longleftrightarrow>
    (\<exists>v<k. k \<le> v + nbins t \<and> v mod nbins t = i \<and> x = e v)"
proof -
  let ?n = "nbins t"
  have ver: "unat (od_version (desc (e v))) = v" if "v < k" for v
    using that assms(5) [OF that] assms(7) by (simp add: unat_of_nat)
  have box: "od_bb (desc (e v)) = od_bb d" "od_name (desc (e v)) = od_name d" if "v < k" for v
    using assms(5) [OF that] by auto
  have conf: "by_name_conflict desc (e v) (e w)" if "v < k" "w < k" for v w
    using that box assms(6)
    by (simp add: by_name_conflict_def obj_desc_by_name_intersect_def bbox_does_intersect_refl)
  have reg: "desc_regular (desc ` set (map e [0..<k]))"
    using box assms(6) by (auto simp: desc_regular_def bbox_equals_def)
  have split: "(\<exists>us vs. map e [0..<k] = us @ x # vs \<and> P vs) \<longleftrightarrow>
      (\<exists>v<k. x = e v \<and> P (map e [Suc v..<k]))" (is "?l \<longleftrightarrow> ?r") for P
  proof
    assume ?l
    then obtain us vs where uv: "map e [0..<k] = us @ x # vs" "P vs" by blast
    have l: "length us < k" using arg_cong [OF uv(1), of length] by simp
    have "x = e (length us)" using arg_cong [OF uv(1), of "\<lambda>l. l ! length us"] l by simp
    moreover have "vs = map e [Suc (length us)..<k]"
      using arg_cong [OF uv(1), of "drop (Suc (length us))"] by (simp add: drop_map)
    ultimately show ?r using l uv(2) by blast
  next
    assume ?r
    then obtain v where v: "v < k" "x = e v" "P (map e [Suc v..<k])" by blast
    then have "[0..<k] = [0..<v] @ v # [Suc v..<k]"
      using upt_add_eq_append [of 0 v "k - v"] by (simp add: upt_conv_Cons)
    then show ?l using v by (intro exI [of _ "map e [0..<v]"] exI [of _ "map e [Suc v..<k]"]) simp
  qed
  have gap: "(\<forall>w\<in>{Suc v..<k}. w mod ?n \<noteq> v mod ?n) \<longleftrightarrow> k \<le> v + ?n" if "v < k" for v
  proof
    assume *: "\<forall>w\<in>{Suc v..<k}. w mod ?n \<noteq> v mod ?n"
    show "k \<le> v + ?n"
    proof (rule ccontr)
      assume "\<not> k \<le> v + ?n"
      then have "v + ?n \<in> {Suc v..<k}" using assms(4) by auto
      then show False using * by (metis mod_add_self2)
    qed
  next
    assume le: "k \<le> v + ?n"
    show "\<forall>w\<in>{Suc v..<k}. w mod ?n \<noteq> v mod ?n"
    proof
      fix w assume w: "w \<in> {Suc v..<k}"
      show "w mod ?n \<noteq> v mod ?n"
      proof
        assume "w mod ?n = v mod ?n"
        then have "?n dvd w - v" using w by (simp add: mod_eq_dvd_iff_nat)
        then have "?n \<le> w - v" using w by (intro dvd_imp_le) auto
        then show False using w le by auto
      qed
    qed
  qed
  have "x \<in> set (bin (fold put (map e [0..<k]) t) i) \<longleftrightarrow>
      unat (od_version (desc x)) mod ?n = i \<and>
      (\<exists>v<k. x = e v \<and> (\<forall>y\<in>set (map e [Suc v..<k]).
         unat (od_version (desc y)) mod ?n = i \<longrightarrow> \<not> by_name_conflict desc y x))"
    using puts_latest_all [OF assms(1,2) reg, of i x] assms(3) by (simp add: split)
  also have "\<dots> \<longleftrightarrow> (\<exists>v<k. v mod ?n = i \<and> x = e v \<and> (\<forall>w\<in>{Suc v..<k}. w mod ?n \<noteq> v mod ?n))"
    using ver conf by (auto 0 3)
  also have "\<dots> \<longleftrightarrow> (\<exists>v<k. k \<le> v + ?n \<and> v mod ?n = i \<and> x = e v)" using gap by blast
  finally show ?thesis .
qed

end

end
