(* ===== verification/DS_DHT.thy ===== *)
theory DS_DHT
  imports DS_Table
begin

text \<open>
  The directory entry of a server (\<open>struct dht_entry\<close>, \<open>dht_entry_alloc\<close>, \<open>dht_find_match\<close> to
  \<open>dht_find_versions\<close> in src/src/ss_data.c): a table of \<open>odsc_size\<close> bins of object
  descriptors, together with the part of the global domain the entry is responsible for
  (index intervals for the space-filling-curve mapping, boxes for the bisection mapping).
  The descriptor table is shown to satisfy the contract of \<open>DS_Table\<close>; the queries are
  characterised on top of it.
\<close>

record dht_entry =
  rank :: int
  i_virt :: intv
  num_intv :: nat
  i_tab :: "nat \<Rightarrow> intv"
  num_bbox :: nat
  size_bb_tab :: nat
  bb_tab :: "nat \<Rightarrow> bbox"
  odsc_size :: nat
  odsc_num :: int
  odsc_hash :: "nat \<Rightarrow> obj_descriptor list"

definition ENOMEM :: int where
  "ENOMEM = 12"

definition dht_entry_alloc :: "bool \<Rightarrow> nat \<Rightarrow> dht_entry option" where
  "dht_entry_alloc malloc_ok size_hash =
     (if malloc_ok
      then Some \<lparr>rank = 0, i_virt = \<lparr>i_lb = 0, i_ub = 0\<rparr>, num_intv = 0,
        i_tab = (\<lambda>_. \<lparr>i_lb = 0, i_ub = 0\<rparr>), num_bbox = 0, size_bb_tab = 0,
        bb_tab = (\<lambda>_. \<lparr>num_dims = 0, lb = vec [], ub = vec []\<rparr>), odsc_size = size_hash,
        odsc_num = 0, odsc_hash = (\<lambda>_. [])\<rparr>
      else None)"

definition de_index :: "dht_entry \<Rightarrow> obj_descriptor \<Rightarrow> nat" where
  "de_index de odsc = unat (od_version odsc) mod odsc_size de"

fun find_index :: "('a \<Rightarrow> bool) \<Rightarrow> 'a list \<Rightarrow> nat option" where
  "find_index P [] = None"
| "find_index P (x # xs) = (if P x then Some 0 else map_option Suc (find_index P xs))"

text \<open>The matching list cell, as its position in the bin. Version \<open>-1\<close> means "not set".\<close>

definition dht_find_match :: "dht_entry \<Rightarrow> obj_descriptor \<Rightarrow> nat option" where
  "dht_find_match de odsc =
     (if od_version odsc = - 1 then None
      else find_index (obj_desc_by_name_intersect odsc) (odsc_hash de (de_index de odsc)))"

definition dht_add_entry :: "bool \<Rightarrow> dht_entry \<Rightarrow> obj_descriptor \<Rightarrow> int \<times> dht_entry" where
  "dht_add_entry malloc_ok de odsc =
     (let n = de_index de odsc in
      case dht_find_match de odsc of
        Some k \<Rightarrow> (0, de\<lparr>odsc_hash := (odsc_hash de)(n := (odsc_hash de n)[k := odsc])\<rparr>)
      | None \<Rightarrow>
          if malloc_ok
          then (0, de\<lparr>odsc_hash := (odsc_hash de)(n := odsc # odsc_hash de n),
                      odsc_num := odsc_num de + 1\<rparr>)
          else (- ENOMEM, de))"

text \<open>The body of \<open>dht_find_entry\<close> is commented out in the source: it always returns NULL.\<close>

definition dht_find_entry :: "dht_entry \<Rightarrow> obj_descriptor \<Rightarrow> obj_descriptor option" where
  "dht_find_entry de odsc = None"

definition dht_find_entry_all :: "dht_entry \<Rightarrow> obj_descriptor \<Rightarrow> obj_descriptor list" where
  "dht_find_entry_all de q_odsc =
     filter (\<lambda>x. obj_desc_equals_intersect x q_odsc) (odsc_hash de (de_index de q_odsc))"

definition dht_find_versions :: "dht_entry \<Rightarrow> obj_descriptor \<Rightarrow> u32 list" where
  "dht_find_versions de q_odsc =
     List.map_filter
       (\<lambda>i. map_option od_version
              (find (\<lambda>x. obj_desc_by_name_intersect x q_odsc) (odsc_hash de i)))
       [0..<odsc_size de]"

subsection \<open>Invariant\<close>

definition de_objs :: "dht_entry \<Rightarrow> obj_descriptor list" where
  "de_objs de = concat (map (odsc_hash de) [0..<odsc_size de])"

definition de_inv :: "dht_entry \<Rightarrow> bool" where
  "de_inv de \<longleftrightarrow> 0 < odsc_size de \<and> odsc_num de = int (length (de_objs de)) \<and>
     (\<forall>i. \<forall>x\<in>set (odsc_hash de i). de_index de x = i)"

definition de_can_add :: "obj_descriptor \<Rightarrow> dht_entry \<Rightarrow> bool" where
  "de_can_add odsc de \<longleftrightarrow> od_version odsc \<noteq> - 1"

abbreviation de_put :: "obj_descriptor \<Rightarrow> dht_entry \<Rightarrow> dht_entry" where
  "de_put odsc de \<equiv> snd (dht_add_entry True de odsc)"

lemma find_index_None: "find_index P xs = None \<longleftrightarrow> (\<forall>x\<in>set xs. \<not> P x)"
  by (induction xs) auto

lemma find_index_Some:
  "find_index P xs = Some k \<Longrightarrow> k < length xs \<and> find P xs = Some (xs ! k)"
  by (induction xs arbitrary: k) (auto split: if_splits)

lemma find_index_find: "find P xs = None \<longleftrightarrow> find_index P xs = None"
  by (auto simp: find_index_None find_None_iff)

lemma dht_entry_alloc_inv: "0 < n \<Longrightarrow> dht_entry_alloc True n = Some de \<Longrightarrow> de_inv de"
  by (auto simp: dht_entry_alloc_def de_inv_def de_objs_def)

lemma de_bin_index: "de_inv de \<Longrightarrow> x \<in> set (odsc_hash de i) \<Longrightarrow> de_index de x = i"
  by (auto simp: de_inv_def)

lemma de_index_less: "de_inv de \<Longrightarrow> de_index de odsc < odsc_size de"
  by (simp add: de_inv_def de_index_def)

lemma de_objs_iff:
  assumes "de_inv de"
  shows "x \<in> set (de_objs de) \<longleftrightarrow> x \<in> set (odsc_hash de (de_index de x))"
proof
  assume "x \<in> set (de_objs de)"
  then obtain i where "x \<in> set (odsc_hash de i)" by (auto simp: de_objs_def)
  with de_bin_index [OF assms this] show "x \<in> set (odsc_hash de (de_index de x))" by simp
next
  assume "x \<in> set (odsc_hash de (de_index de x))"
  then show "x \<in> set (de_objs de)" using de_index_less [OF assms] by (force simp: de_objs_def)
qed

lemma length_concat_upd:
  "n < m \<Longrightarrow> int (length (concat (map (f(n := xs)) [0..<m]))) =
     int (length (concat (map f [0..<m]))) - int (length (f n)) + int (length xs)"
proof (induction m)
  case (Suc m)
  then show ?case
  proof (cases "n = m")
    case True
    have e: "map (f(m := xs)) [0..<m] = map f [0..<m]" by simp
    have "[0..<Suc m] = [0..<m] @ [m]" by simp
    then show ?thesis unfolding True by (simp only: map_append e concat_append length_append) simp
  qed simp
qed simp

lemma dht_add_entry_sel [simp]:
  "odsc_size (snd (dht_add_entry ok de odsc)) = odsc_size de"
  "rank (snd (dht_add_entry ok de odsc)) = rank de"
  "de_index (snd (dht_add_entry ok de odsc)) = de_index de"
  by (auto simp: dht_add_entry_def Let_def de_index_def fun_eq_iff split: option.splits)

lemma dht_add_entry_other:
  "i \<noteq> de_index de odsc \<Longrightarrow> odsc_hash (snd (dht_add_entry ok de odsc)) i = odsc_hash de i"
  by (auto simp: dht_add_entry_def Let_def split: option.splits)

lemma dht_add_entry_bin:
  assumes "od_version odsc \<noteq> - 1"
  shows "mset (odsc_hash (de_put odsc de) (de_index de odsc)) =
    add_mset odsc (case find (obj_desc_by_name_intersect odsc) (odsc_hash de (de_index de odsc)) of
      None \<Rightarrow> mset (odsc_hash de (de_index de odsc))
    | Some x \<Rightarrow> mset (odsc_hash de (de_index de odsc)) - {#x#})"
proof (cases "find_index (obj_desc_by_name_intersect odsc) (odsc_hash de (de_index de odsc))")
  case None
  then have "find (obj_desc_by_name_intersect odsc) (odsc_hash de (de_index de odsc)) = None"
    by (simp add: find_index_find)
  then show ?thesis using assms None by (simp add: dht_add_entry_def Let_def dht_find_match_def)
next
  case (Some k)
  from find_index_Some [OF Some] show ?thesis
    using assms Some by (simp add: dht_add_entry_def Let_def dht_find_match_def mset_update)
qed

lemma dht_add_entry_mem:
  "x \<in> set (odsc_hash (snd (dht_add_entry ok de odsc)) i) \<Longrightarrow>
     x \<in> set (odsc_hash de i) \<or> (x = odsc \<and> i = de_index de odsc)"
  by (auto simp: dht_add_entry_def Let_def split: option.splits if_splits
      dest!: set_update_subset_insert [THEN subsetD])

lemma dht_add_entry_inv:
  assumes "de_inv de"
  shows "de_inv (snd (dht_add_entry ok de odsc))"
proof -
  let ?n = "de_index de odsc" and ?d = "snd (dht_add_entry ok de odsc)"
  have n: "?n < odsc_size de" by (rule de_index_less [OF assms])
  have num: "odsc_num de = int (length (de_objs de))" using assms by (simp add: de_inv_def)
  have "odsc_num ?d = int (length (de_objs ?d))"
    using num length_concat_upd [OF n, of "odsc_hash de"]
    by (auto simp: dht_add_entry_def Let_def de_objs_def split: option.splits)
  moreover have "de_index ?d x = i" if "x \<in> set (odsc_hash ?d i)" for i x
    using dht_add_entry_mem [OF that] de_bin_index [OF assms] by auto
  moreover have "0 < odsc_size ?d" using assms by (simp add: de_inv_def)
  ultimately show ?thesis unfolding de_inv_def by blast
qed

interpretation de: version_table de_inv odsc_size odsc_hash "\<lambda>odsc. odsc" de_can_add de_put
proof
  fix de e i
  assume inv: "de_inv de" and ok: "de_can_add e de"
  show "de_inv (de_put e de)" using inv by (rule dht_add_entry_inv)
  show "odsc_hash (de_put e de) i = odsc_hash de i" if "i \<noteq> unat (od_version e) mod odsc_size de"
    using that by (simp add: dht_add_entry_other de_index_def)
  show "mset (odsc_hash (de_put e de) i) =
      add_mset e (case find (by_name_conflict (\<lambda>odsc. odsc) e) (odsc_hash de i) of
        None \<Rightarrow> mset (odsc_hash de i) | Some x \<Rightarrow> mset (odsc_hash de i) - {#x#})"
    if "i = unat (od_version e) mod odsc_size de"
  proof -
    have i: "i = de_index de e" using that by (simp add: de_index_def)
    show ?thesis
      unfolding i using dht_add_entry_bin [of e de] ok
      by (simp add: de_can_add_def by_name_conflict_def [abs_def])
  qed
qed simp

subsection \<open>Queries\<close>

lemma dht_find_entry_all_iff:
  assumes "de_inv de"
  shows "x \<in> set (dht_find_entry_all de q) \<longleftrightarrow>
    x \<in> set (de_objs de) \<and> obj_desc_equals_intersect x q"
proof -
  have "de_index de x = de_index de q" if "obj_desc_equals_intersect x q"
    using that by (simp add: de_index_def obj_desc_equals_intersect_def)
  then show ?thesis
    unfolding dht_find_entry_all_def de_objs_iff [OF assms] by auto
qed

text \<open>The descriptor just added is found by every query it answers.\<close>

lemma dht_add_entry_in:
  assumes "fst (dht_add_entry ok de odsc) = 0"
  shows "odsc \<in> set (odsc_hash (snd (dht_add_entry ok de odsc)) (de_index de odsc))"
proof (cases "dht_find_match de odsc")
  case (Some k)
  then have "k < length (odsc_hash de (de_index de odsc))"
    using find_index_Some by (fastforce simp: dht_find_match_def split: if_splits)
  then show ?thesis using Some by (simp add: dht_add_entry_def Let_def set_update_memI)
qed (use assms in \<open>auto simp: dht_add_entry_def Let_def ENOMEM_def split: if_splits\<close>)

lemma dht_find_after_add:
  assumes "fst (dht_add_entry ok de odsc) = 0" "obj_desc_equals_intersect odsc q"
  shows "odsc \<in> set (dht_find_entry_all (snd (dht_add_entry ok de odsc)) q)"
proof -
  have "de_index de q = de_index de odsc"
    using assms(2) by (simp add: de_index_def obj_desc_equals_intersect_def)
  then show ?thesis
    using dht_add_entry_in [OF assms(1)] assms(2) by (simp add: dht_find_entry_all_def)
qed

lemma dht_find_versions_sound:
  assumes "v \<in> set (dht_find_versions de q)"
  shows "\<exists>x\<in>set (de_objs de). obj_desc_by_name_intersect x q \<and> od_version x = v"
proof -
  from assms obtain i x where "i < odsc_size de" "od_version x = v"
    "find (\<lambda>x. obj_desc_by_name_intersect x q) (odsc_hash de i) = Some x"
    by (auto simp: dht_find_versions_def List.map_filter_def)
  then show ?thesis using find_SomeD by (fastforce simp: de_objs_def)
qed

text \<open>Every bin that holds a match contributes exactly one version.\<close>

lemma length_dht_find_versions:
  "length (dht_find_versions de q) =
     card {i. i < odsc_size de \<and> (\<exists>x\<in>set (odsc_hash de i). obj_desc_by_name_intersect x q)}"
proof -
  let ?P = "\<lambda>i. \<exists>x\<in>set (odsc_hash de i). obj_desc_by_name_intersect x q"
  have "length (dht_find_versions de q) = length (filter ?P [0..<odsc_size de])"
    by (simp add: dht_find_versions_def List.map_filter_def comp_def find_not_None del: not_None_eq)
  also have "\<dots> = card {i. i < odsc_size de \<and> ?P i}"
    by (subst distinct_card [symmetric]) (auto intro: arg_cong [of _ _ card])
  finally show ?thesis .
qed

subsection \<open>Properties\<close>

lemma fold_de_put_sel [simp]:
  "odsc_size (fold de_put ds de) = odsc_size de"
  "de_index (fold de_put ds de) = de_index de"
  by (induction ds arbitrary: de) auto

lemma de_puts_ok: "\<forall>d\<in>set ds. od_version d \<noteq> - 1 \<Longrightarrow> puts_ok de_can_add de_put ds de"
  by (induction ds arbitrary: de) (auto simp: de_can_add_def)

text \<open>C16: the directory answers with exactly the current descriptors: after the descriptors \<open>ds\<close>
  of regularly decomposed variables were added to a new entry, a query returns a descriptor iff
  it was added, has the name and version of the query and a box that meets the queried one, and
  no descriptor of the same box and bin was added after it.\<close>

theorem dht_answers_current_descriptors:
  assumes "0 < n" "dht_entry_alloc True n = Some de" "desc_regular (set ds)"
    and "\<forall>d\<in>set ds. od_version d \<noteq> - 1"
  shows "x \<in> set (dht_find_entry_all (fold de_put ds de) q) \<longleftrightarrow>
    obj_desc_equals_intersect x q \<and>
    (\<exists>us vs. ds = us @ x # vs \<and>
      (\<forall>y\<in>set vs. unat (od_version y) mod n = unat (od_version x) mod n \<longrightarrow>
         \<not> obj_desc_by_name_intersect y x))"
proof -
  have de: "de_inv de" "odsc_size de = n" "odsc_hash de = (\<lambda>_. [])"
    using assms(1,2) dht_entry_alloc_inv by (auto simp: dht_entry_alloc_def)
  have ok: "puts_ok de_can_add de_put ds de" by (rule de_puts_ok [OF assms(4)])
  have inv: "de_inv (fold de_put ds de)" by (rule de.puts_inv [OF de(1) ok])
  have "x \<in> set (de_objs (fold de_put ds de)) \<longleftrightarrow>
      (\<exists>us vs. ds = us @ x # vs \<and>
      (\<forall>y\<in>set vs. unat (od_version y) mod n = unat (od_version x) mod n \<longrightarrow>
         \<not> obj_desc_by_name_intersect y x))"
    unfolding de_objs_iff [OF inv] fold_de_put_sel
    using de.puts_latest_all [OF de(1) ok, of "de_index de x" x] assms(3) de
    by (simp add: by_name_conflict_def de_index_def)
  then show ?thesis unfolding dht_find_entry_all_iff [OF inv] by blast
qed

abbreviation line_desc :: "string \<Rightarrow> u32 \<Rightarrow> u64 \<Rightarrow> u64 \<Rightarrow> obj_descriptor" where
  "line_desc name v l u \<equiv> \<lparr>od_name = name, od_st = column_major, od_owner = 3, od_version = v,
     od_bb = \<lparr>num_dims = 1, lb = vec [l], ub = vec [u]\<rparr>, od_size = 8\<rparr>"

theorem dht_answers_current_descriptors_witness:
  "line_desc ''v'' 1 0 4 \<in> set (dht_find_entry_all
     (fold de_put [line_desc ''v'' 0 0 4, line_desc ''v'' 1 0 4, line_desc ''v'' 1 5 9]
        (the (dht_entry_alloc True 2))) (line_desc ''v'' 1 3 8))"
proof -
  let ?ds = "[line_desc ''v'' 0 0 4, line_desc ''v'' 1 0 4, line_desc ''v'' 1 5 9]"
  have reg: "desc_regular (set ?ds)"
    by (auto simp: desc_regular_def bbox_wf_def obj_desc_by_name_intersect_def
        bbox_does_intersect_def bbox_intersect_ondim_def bbox_equals_def all_less_numeral)
  have "obj_desc_equals_intersect (line_desc ''v'' 1 0 4) (line_desc ''v'' 1 3 8)"
    by (simp add: obj_desc_equals_intersect_def bbox_does_intersect_def bbox_intersect_ondim_def)
  moreover have "\<exists>us vs. ?ds = us @ line_desc ''v'' 1 0 4 # vs \<and>
      (\<forall>y\<in>set vs. unat (od_version y) mod 2 = unat (od_version (line_desc ''v'' 1 0 4)) mod 2 \<longrightarrow>
         \<not> obj_desc_by_name_intersect y (line_desc ''v'' 1 0 4))"
    by (rule exI [of _ "[line_desc ''v'' 0 0 4]"], rule exI [of _ "[line_desc ''v'' 1 5 9]"])
      (simp add: obj_desc_by_name_intersect_def bbox_does_intersect_def bbox_intersect_ondim_def)
  ultimately show ?thesis
    using dht_answers_current_descriptors [of 2 "the (dht_entry_alloc True 2)" ?ds
        "line_desc ''v'' 1 0 4" "line_desc ''v'' 1 3 8"] reg
    by (simp add: dht_entry_alloc_def)
qed

text \<open>C28: \<open>dht_find_versions\<close> lists one version for every bin that holds a match, each of them the
  version of a stored descriptor that matches the query; it never writes more than
  \<open>odsc_size\<close> entries of the caller's array.\<close>

theorem dht_find_versions_one_per_bin:
  "length (dht_find_versions de q) =
     card {i. i < odsc_size de \<and> (\<exists>x\<in>set (odsc_hash de i). obj_desc_by_name_intersect x q)} \<and>
   length (dht_find_versions de q) \<le> odsc_size de \<and>
   set (dht_find_versions de q) \<subseteq>
     od_version ` {x. x \<in> set (de_objs de) \<and> obj_desc_by_name_intersect x q}"
proof (intro conjI)
  show "length (dht_find_versions de q) =
     card {i. i < odsc_size de \<and> (\<exists>x\<in>set (odsc_hash de i). obj_desc_by_name_intersect x q)}"
    by (rule length_dht_find_versions)
  show "length (dht_find_versions de q) \<le> odsc_size de"
    unfolding length_dht_find_versions
    by (rule order_trans [OF card_mono [of "{..<odsc_size de}"]]) auto
  show "set (dht_find_versions de q) \<subseteq>
     od_version ` {x. x \<in> set (de_objs de) \<and> obj_desc_by_name_intersect x q}"
    using dht_find_versions_sound by fastforce
qed

end
