(* ===== verification/DS_Space.thy ===== *)
theory DS_Space
  imports DS_DHT
begin

text \<open>
  The shared space (\<open>struct sspace\<close>, \<open>struct dht\<close> in src/include/ss_data.h) and what the two
  domain decompositions of src/src/ss_data.c have in common: allocation of the directory, the
  helpers on powers of two, and the cache of hash results \<open>sfc_hash_list\<close>.
  \<^item> a pointer to a directory entry is the pair of the address of its space and its index in
    \<open>ent_tab\<close>;
  \<^item> the outcome of the n-th malloc of an allocation routine is an argument.
  The locale \<open>cell_hash\<close> is what the put and get paths rely on: every cell of the domain has
  an owner among the entries a box containing the cell is hashed to.
\<close>

record dht =
  bb_glb_domain :: bbox
  num_entries :: nat
  ent_tab :: "nat \<Rightarrow> dht_entry"

datatype sspace_hash_version = ssd_hash_version_v1 | ssd_hash_version_v2 | unknown_hash_version

record sspace =
  ss_addr :: nat
  max_dim :: u64
  bpd :: nat
  dht :: dht
  ss_rank :: nat
  ent_self :: nat
  total_num_bbox :: nat
  hash_version :: sspace_hash_version

type_synonym de_ref = "nat \<times> nat"

definition ssd_init :: "sspace \<Rightarrow> nat \<Rightarrow> sspace" where
  "ssd_init ssd r = ssd\<lparr>ss_rank := r, ent_self := r\<rparr>"

subsection \<open>Allocation of the directory\<close>

fun dht_alloc_entries ::
  "(nat \<Rightarrow> bool) \<Rightarrow> nat \<Rightarrow> nat list \<Rightarrow> (nat \<Rightarrow> dht_entry) \<Rightarrow> nat + (nat \<Rightarrow> dht_entry)" where
  "dht_alloc_entries malloc_ok size_hash [] tab = Inr tab"
| "dht_alloc_entries malloc_ok size_hash (i # is) tab =
     (case dht_entry_alloc (malloc_ok (Suc i)) size_hash of
        None \<Rightarrow> Inl i
      | Some de \<Rightarrow> dht_alloc_entries malloc_ok size_hash is (tab(i := de)))"

text \<open>
  \<open>Inl fs\<close> is the NULL result, \<open>fs\<close> being the indices of the entries released on the error
  path (\<open>while (--i > 0) free(dht->ent_tab[i])\<close>).
\<close>

definition dht_alloc ::
  "(nat \<Rightarrow> bool) \<Rightarrow> (nat \<Rightarrow> dht_entry) \<Rightarrow> bbox \<Rightarrow> nat \<Rightarrow> nat \<Rightarrow> nat list + dht" where
  "dht_alloc malloc_ok tab bb_domain num_nodes size_hash =
     (if \<not> malloc_ok 0 then Inl []
      else case dht_alloc_entries malloc_ok size_hash [0..<num_nodes] tab of
             Inl i \<Rightarrow> Inl (rev [1..<i])
           | Inr tab' \<Rightarrow>
               Inr \<lparr>bb_glb_domain = bb_domain, num_entries = num_nodes, ent_tab = tab'\<rparr>)"

subsection \<open>Helpers of the decompositions\<close>

text \<open>\<open>while (i < n) i = i << 1\<close>: does not return when \<open>n > 2 ^ 63\<close>.\<close>

partial_function (option) next_pow_2_v2_loop :: "u64 \<Rightarrow> u64 \<Rightarrow> u64 option" where
  "next_pow_2_v2_loop i n = (if i < n then next_pow_2_v2_loop (push_bit 1 i) n else Some i)"

definition next_pow_2_v2 :: "u64 \<Rightarrow> u64 option" where
  "next_pow_2_v2 n = next_pow_2_v2_loop 1 n"

function compute_bits_v2_loop :: "u64 \<Rightarrow> nat \<Rightarrow> nat" where
  "compute_bits_v2_loop n nr_bits =
     (if n > 1 then compute_bits_v2_loop (drop_bit 1 n) (nr_bits + 1) else nr_bits)"
  by pat_completeness auto
termination
  by (relation "measure (\<lambda>(n, _). unat n)") (auto intro!: unat_half_less)

definition compute_bits_v2 :: "u64 \<Rightarrow> nat" where
  "compute_bits_v2 n = compute_bits_v2_loop n 0"

declare compute_bits_v2_loop.simps [simp del]

text \<open>Both return the new value of \<open>*out_dim\<close>, which keeps its old value when no size is positive.\<close>

definition get_bbox_max_dim :: "bbox \<Rightarrow> nat \<Rightarrow> u64 \<times> nat" where
  "get_bbox_max_dim bb out_dim =
     fold (\<lambda>i (m, d). if m < ub bb i then (ub bb i, i) else (m, d)) [0..<num_dims bb] (0, out_dim)"

definition get_bbox_max_dim_size :: "bbox \<Rightarrow> nat \<Rightarrow> u64 \<times> nat" where
  "get_bbox_max_dim_size bb out_dim =
     fold (\<lambda>i (m, d). let s = ub bb i - lb bb i + 1 in if m < s then (s, i) else (m, d))
       [0..<num_dims bb] (0, out_dim)"

subsection \<open>The cache of hash results\<close>

record sfc_hash_cache =
  sh_bb :: bbox
  sh_de_tab :: "de_ref list"

definition sh_add :: "bool \<Rightarrow> sfc_hash_cache list \<Rightarrow> bbox \<Rightarrow> de_ref list \<Rightarrow> int \<times> sfc_hash_cache list" where
  "sh_add malloc_ok l bb de_tab =
     (if malloc_ok then (0, l @ [\<lparr>sh_bb = bb, sh_de_tab = de_tab\<rparr>]) else (- ENOMEM, l))"

text \<open>\<open>None\<close> is the result \<open>-1\<close>.\<close>

definition sh_find :: "sfc_hash_cache list \<Rightarrow> bbox \<Rightarrow> de_ref list option" where
  "sh_find l bb = map_option sh_de_tab (find (\<lambda>shc. bbox_equals bb (sh_bb shc)) l)"

text \<open>
  The frame of \<open>ssd_hash_v1\<close> and \<open>ssd_hash_v2\<close>: a cached result is used only when it is not
  empty; otherwise the entries are computed and the result is cached.
\<close>

definition ssd_hash_cached ::
  "(bbox \<Rightarrow> de_ref list) \<Rightarrow> bool \<Rightarrow> sfc_hash_cache list \<Rightarrow> bbox \<Rightarrow> de_ref list \<times> sfc_hash_cache list" where
  "ssd_hash_cached compute malloc_ok l bb =
     (let slow = (compute bb, snd (sh_add malloc_ok l bb (compute bb)))
      in case sh_find l bb of
           Some de_tab \<Rightarrow> if length de_tab > 0 then (de_tab, l) else slow
         | None \<Rightarrow> slow)"

text \<open>A cache that only holds results of the function it is used with.\<close>

definition sh_coherent :: "(bbox \<Rightarrow> de_ref list) \<Rightarrow> sfc_hash_cache list \<Rightarrow> bool" where
  "sh_coherent compute l \<longleftrightarrow> (\<forall>shc\<in>set l. sh_de_tab shc = compute (sh_bb shc))"

lemma ssd_hash_cached_transparent:
  assumes "sh_coherent compute l" "\<And>b b'. bbox_equals b b' \<Longrightarrow> compute b = compute b'"
  shows "fst (ssd_hash_cached compute malloc_ok l bb) = compute bb"
    and "sh_coherent compute (snd (ssd_hash_cached compute malloc_ok l bb))"
proof -
  have hit: "de_tab = compute bb" if h: "sh_find l bb = Some de_tab" for de_tab
  proof -
    obtain shc where "find (\<lambda>shc. bbox_equals bb (sh_bb shc)) l = Some shc" "de_tab = sh_de_tab shc"
      using h by (auto simp: sh_find_def)
    with find_SomeD [OF this(1)] show ?thesis
      using assms(1) assms(2) [of bb "sh_bb shc"] by (auto simp: sh_coherent_def)
  qed
  show "fst (ssd_hash_cached compute malloc_ok l bb) = compute bb"
    using hit by (auto simp: ssd_hash_cached_def Let_def split: option.splits)
  show "sh_coherent compute (snd (ssd_hash_cached compute malloc_ok l bb))"
    using assms(1)
    by (auto simp: ssd_hash_cached_def Let_def sh_add_def sh_coherent_def split: option.splits)
qed

subsection \<open>The contract of a decomposition\<close>

locale cell_hash =
  fixes hash :: "'s \<Rightarrow> bbox \<Rightarrow> nat list"
    and dom :: "'s \<Rightarrow> bbox"
    and owner :: "'s \<Rightarrow> coord \<Rightarrow> nat"
    and ok :: "'s \<Rightarrow> bool"
  assumes owner_hash: "ok s \<Longrightarrow> in_bbox (dom s) x \<Longrightarrow> num_dims bb = num_dims (dom s) \<Longrightarrow>
      in_bbox bb x \<Longrightarrow> owner s x \<in> set (hash s bb)"
begin

text \<open>Two boxes that share a cell of the domain are hashed to a common entry.\<close>

lemma rendezvous:
  assumes "ok s" "num_dims b1 = num_dims (dom s)" "num_dims b2 = num_dims (dom s)"
    and "in_bbox (dom s) x" "in_bbox b1 x" "in_bbox b2 x"
  shows "\<exists>k. k \<in> set (hash s b1) \<and> k \<in> set (hash s b2)"
  using owner_hash assms by blast

lemma hash_nonempty:
  assumes "ok s" "num_dims b = num_dims (dom s)" "in_bbox (dom s) x" "in_bbox b x"
  shows "hash s b \<noteq> []"
  using owner_hash [OF assms(1,3,2,4)] by auto

end

subsection \<open>Lemmas on the helpers\<close>

lemma next_pow_2_v2_loop_spec:
  assumes "k \<le> m" "m < 64" "unat n \<le> 2 ^ m" "0 < k \<longrightarrow> 2 ^ (k - 1) < unat n"
  shows "\<exists>j. k \<le> j \<and> j \<le> m \<and> next_pow_2_v2_loop (2 ^ k) n = Some (2 ^ j) \<and> unat n \<le> 2 ^ j \<and>
    (0 < j \<longrightarrow> 2 ^ (j - 1) < unat n)"
  using assms
proof (induction "m - k" arbitrary: k)
  case 0
  then have "k = m" by simp
  then have "\<not> (2 ^ k :: u64) < n" using 0 by (simp add: word_less_nat_alt unat_exp_u64)
  then show ?case using 0 \<open>k = m\<close> by (intro exI [of _ k]) (auto simp: next_pow_2_v2_loop.simps)
next
  case (Suc d)
  have uk: "unat (2 ^ k :: u64) = 2 ^ k" using Suc by (intro unat_exp_u64) simp
  show ?case
  proof (cases "(2 ^ k :: u64) < n")
    case True
    have "push_bit 1 (2 ^ k :: u64) = 2 ^ Suc k" by (simp add: push_bit_eq_mult)
    then have e: "next_pow_2_v2_loop (2 ^ k) n = next_pow_2_v2_loop (2 ^ Suc k) n"
      using True by (subst next_pow_2_v2_loop.simps) (simp add: mult.commute)
    have "2 ^ k < unat n" using True uk by (simp add: word_less_nat_alt)
    then have "\<exists>j. Suc k \<le> j \<and> j \<le> m \<and> next_pow_2_v2_loop (2 ^ Suc k) n = Some (2 ^ j) \<and>
        unat n \<le> 2 ^ j \<and> (0 < j \<longrightarrow> 2 ^ (j - 1) < unat n)"
      using Suc by (intro Suc.hyps(1)) auto
    then show ?thesis unfolding e by (metis Suc_leD)
  next
    case False
    then have "unat n \<le> 2 ^ k" using uk by (simp add: word_less_nat_alt)
    then show ?thesis
      using False Suc.prems by (intro exI [of _ k]) (auto simp: next_pow_2_v2_loop.simps)
  qed
qed

text \<open>The least power of two that is at least \<open>n\<close>.\<close>

lemma next_pow_2_v2_spec:
  assumes "unat n \<le> 2 ^ 63"
  shows "\<exists>j\<le>63. next_pow_2_v2 n = Some (2 ^ j) \<and> unat n \<le> 2 ^ j \<and> (0 < j \<longrightarrow> 2 ^ (j - 1) < unat n)"
  using next_pow_2_v2_loop_spec [of 0 63 n] assms unfolding next_pow_2_v2_def by auto

lemma compute_bits_v2_exp:
  assumes "j < 64"
  shows "compute_bits_v2 (2 ^ j) = j"
proof -
  have "compute_bits_v2_loop (2 ^ j) k = k + j" for k
    using assms
  proof (induction j arbitrary: k)
    case 0
    then show ?case by (simp add: compute_bits_v2_loop.simps)
  next
    case (Suc j)
    have "drop_bit 1 (2 ^ Suc j :: u64) = 2 ^ j"
      using Suc.prems by (simp add: drop_bit_exp_eq del: power_Suc)
    moreover have "(2 ^ Suc j :: u64) > 1"
    proof -
      have "(1 :: nat) < 2 ^ Suc j" by (rule one_less_power) simp_all
      then show ?thesis
        unfolding word_less_nat_alt unat_exp_u64 [OF Suc.prems] by simp
    qed
    ultimately show ?case using Suc by (subst compute_bits_v2_loop.simps) simp
  qed
  then show ?thesis by (simp add: compute_bits_v2_def)
qed

lemma fold_argmax:
  fixes f :: "nat \<Rightarrow> u64"
  assumes "fold (\<lambda>i (m, d). if m < f i then (f i, i) else (m, d)) [0..<n] (0, d0) = (m, d)"
  shows "(\<forall>i<n. f i \<le> m) \<and> (m = 0 \<and> d = d0 \<or> d < n \<and> m = f d)"
  using assms
proof (induction n arbitrary: m d)
  case (Suc n)
  obtain m' d' where e: "fold (\<lambda>i (m, d). if m < f i then (f i, i) else (m, d)) [0..<n] (0, d0) = (m', d')"
    by fastforce
  show ?case using Suc.IH [OF e] Suc.prems e
    by (auto simp: less_Suc_eq not_less split: if_splits intro: order_trans less_imp_le
        simp del: word_le_0_iff)
qed auto

lemma get_bbox_max_dim_size_spec:
  assumes "get_bbox_max_dim_size bb d0 = (m, d)"
  shows "(\<forall>i<num_dims bb. ub bb i - lb bb i + 1 \<le> m) \<and>
    (m = 0 \<and> d = d0 \<or> d < num_dims bb \<and> m = ub bb d - lb bb d + 1)"
  using assms fold_argmax [of "\<lambda>i. ub bb i - lb bb i + 1"]
  by (simp add: get_bbox_max_dim_size_def Let_def)

lemma dht_alloc_entries_ok:
  "dht_alloc_entries malloc_ok n is tab = Inr tab' \<Longrightarrow>
     \<forall>i. tab' i = (if i \<in> set is then the (dht_entry_alloc True n) else tab i)"
proof (induction "is" arbitrary: tab)
  case (Cons i "is")
  then show ?case
    by (cases "malloc_ok (Suc i)") (auto simp: dht_entry_alloc_def split: if_splits)
qed simp

lemma dht_alloc_ok:
  assumes "dht_alloc malloc_ok tab bb n size_hash = Inr d"
  shows "bb_glb_domain d = bb" "num_entries d = n"
    "i < n \<Longrightarrow> ent_tab d i = the (dht_entry_alloc True size_hash)"
  using assms dht_alloc_entries_ok [of malloc_ok size_hash "[0..<n]" tab]
  by (auto simp: dht_alloc_def split: if_splits sum.splits)

end
