(* ===== verification/DS_Bisect.thy ===== *)
theory DS_Bisect
  imports DS_Space DS_Queue
begin

text \<open>
  The second decomposition of the global domain (\<open>ssd_alloc_v2\<close>, \<open>ssd_hash_v2\<close> in
  src/src/ss_data.c): the domain is bisected along its longest dimension, level by level with
  two queues, until there are at least as many boxes as directory entries; the boxes are
  dealt to the entries round-robin. A query box is hashed to the entries that hold a box it
  intersects. Proved: the queue loops return and compute the same list as the recursive
  \<open>divide_list\<close>; the leaves partition the domain; no table overflows; hence the contract
  \<open>cell_hash\<close> (every cell of the domain has an owner in the hash of every box around it).
  A use of an uninitialised queue pointer is the result \<open>None\<close>.
\<close>

subsection \<open>Bisection\<close>

partial_function (option) divide_level ::
  "bbox queue \<Rightarrow> bbox queue \<Rightarrow> nat \<Rightarrow> (bbox queue \<times> bbox queue \<times> nat) option" where
  "divide_level src_q dst_q dim =
     (if queue_is_empty src_q then Some (src_q, dst_q, dim)
      else Option.bind (queue_dequeue src_q) (\<lambda>(obj, src_q1).
           Option.bind obj (\<lambda>bb.
             let dim1 = snd (get_bbox_max_dim_size bb dim);
                 b_tab = bbox_divide_in2_ondim bb dim1
             in Option.bind (queue_enqueue dst_q (fst b_tab)) (\<lambda>dst_q1.
                Option.bind (queue_enqueue dst_q1 (snd b_tab)) (\<lambda>dst_q2.
                  divide_level src_q1 dst_q2 dim1)))))"

fun divide_loop ::
  "nat \<Rightarrow> bbox queue \<Rightarrow> bbox queue \<Rightarrow> nat \<Rightarrow> (bbox queue \<times> bbox queue \<times> nat) option" where
  "divide_loop 0 q1 q2 dim = Some (q1, q2, dim)"
| "divide_loop (Suc i) q1 q2 dim =
     (if \<not> queue_is_empty q1 \<and> queue_is_empty q2
      then Option.bind (divide_level q1 q2 dim) (\<lambda>(q1', q2', dim'). divide_loop i q1' q2' dim')
      else if \<not> queue_is_empty q2 \<and> queue_is_empty q1
      then Option.bind (divide_level q2 q1 dim) (\<lambda>(q2', q1', dim'). divide_loop i q1' q2' dim')
      else None)"

subsection \<open>Round-robin assignment\<close>

definition dht_give_bbox :: "dht \<Rightarrow> nat \<Rightarrow> bbox \<Rightarrow> dht" where
  "dht_give_bbox d j bb =
     (let de = ent_tab d j; k = num_bbox de
      in d\<lparr>ent_tab := (ent_tab d)(j := de\<lparr>num_bbox := k + 1, bb_tab := (bb_tab de)(k := bb)\<rparr>)\<rparr>)"

partial_function (option) assign_loop :: "bbox queue \<Rightarrow> nat \<Rightarrow> dht \<Rightarrow> dht option" where
  "assign_loop q i d =
     (if queue_is_empty q then Some d
      else Option.bind (queue_dequeue q) (\<lambda>(obj, q1).
           Option.bind obj (\<lambda>bb.
             assign_loop q1 (i + 1) (dht_give_bbox d (i mod num_entries d) bb))))"

text \<open>
  \<open>n = ceil(total_num_bbox * 1.0 / num_entries)\<close>: both operands are C ints, so the quotient of
  the doubles is never rounded onto or past an integer and the result is the integer ceiling.
\<close>

definition ceil_div :: "nat \<Rightarrow> nat \<Rightarrow> nat" where
  "ceil_div a b = (a + b - 1) div b"

definition dht_size_bb_tabs :: "nat \<Rightarrow> dht \<Rightarrow> dht" where
  "dht_size_bb_tabs n d =
     d\<lparr>ent_tab := (\<lambda>i. if i < num_entries d then (ent_tab d i)\<lparr>size_bb_tab := n\<rparr> else ent_tab d i)\<rparr>"

definition dht_set_ranks :: "nat \<Rightarrow> dht \<Rightarrow> dht" where
  "dht_set_ranks n d =
     d\<lparr>ent_tab := (\<lambda>i. if i < n then (ent_tab d i)\<lparr>rank := int i\<rparr> else ent_tab d i)\<rparr>"

text \<open>
  The outer \<open>option\<close> is definedness (every loop returns, no uninitialised pointer is used), the
  inner one the returned pointer. \<open>addr\<close> is the address of the new space, \<open>dim0\<close> and \<open>tab0\<close> are
  the contents of uninitialised memory, \<open>malloc_ok\<close> the outcomes of the checked mallocs.
\<close>

definition ssd_alloc_v2 ::
  "nat \<Rightarrow> nat \<Rightarrow> (nat \<Rightarrow> dht_entry) \<Rightarrow> bool \<Rightarrow> (nat \<Rightarrow> bool) \<Rightarrow> bbox \<Rightarrow> nat \<Rightarrow> nat \<Rightarrow>
     sspace option option" where
  "ssd_alloc_v2 addr dim0 tab0 ss_ok malloc_ok bb_domain num_nodes max_versions =
     (let (md, dim) = get_bbox_max_dim bb_domain dim0 in
      Option.bind (next_pow_2_v2 md) (\<lambda>md2.
      Option.bind (next_pow_2_v2 (of_nat num_nodes)) (\<lambda>nn2.
      Option.bind (queue_enqueue queue_init bb_domain) (\<lambda>q1.
      Option.bind (divide_loop (compute_bits_v2 nn2) q1 queue_init dim) (\<lambda>(q1, q2, dim).
      Option.bind (if \<not> queue_is_empty q1 then Some q1
                   else if \<not> queue_is_empty q2 then Some q2 else None) (\<lambda>q.
      if \<not> ss_ok then Some None
      else case dht_alloc malloc_ok tab0 bb_domain num_nodes max_versions of
             Inl _ \<Rightarrow> Some None
           | Inr d0 \<Rightarrow>
               let total = queue_size q;
                   d1 = dht_size_bb_tabs (ceil_div total num_nodes) (dht_set_ranks num_nodes d0)
               in Option.bind (assign_loop q 0 d1) (\<lambda>d2.
                    Some (Some \<lparr>ss_addr = addr, max_dim = md2, bpd = compute_bits_v2 md2,
                      dht = d2, ss_rank = 0, ent_self = 0, total_num_bbox = total,
                      hash_version = ssd_hash_version_v2\<rparr>))))))))"

subsection \<open>Hashing\<close>

definition de_boxes :: "dht_entry \<Rightarrow> bbox list" where
  "de_boxes de = map (bb_tab de) [0..<num_bbox de]"

definition hash_v2 :: "sspace \<Rightarrow> bbox \<Rightarrow> nat list" where
  "hash_v2 ss bb =
     filter (\<lambda>i. list_ex (bbox_does_intersect bb) (de_boxes (ent_tab (dht ss) i)))
       [0..<num_entries (dht ss)]"

definition ssd_hash_v2 ::
  "bool \<Rightarrow> sfc_hash_cache list \<Rightarrow> sspace \<Rightarrow> bbox \<Rightarrow> de_ref list \<times> sfc_hash_cache list" where
  "ssd_hash_v2 malloc_ok l ss bb =
     ssd_hash_cached (\<lambda>bb. map (Pair (ss_addr ss)) (hash_v2 ss bb)) malloc_ok l bb"

subsection \<open>The loops return\<close>

fun divide_list :: "bbox list \<Rightarrow> nat \<Rightarrow> bbox list \<times> nat" where
  "divide_list [] dim = ([], dim)"
| "divide_list (bb # bbs) dim =
     (let dim1 = snd (get_bbox_max_dim_size bb dim);
          b_tab = bbox_divide_in2_ondim bb dim1;
          r = divide_list bbs dim1
      in (fst b_tab # snd b_tab # fst r, snd r))"

fun divide_lists :: "nat \<Rightarrow> bbox list \<Rightarrow> nat \<Rightarrow> bbox list \<times> nat" where
  "divide_lists 0 bbs dim = (bbs, dim)"
| "divide_lists (Suc i) bbs dim = (let r = divide_list bbs dim in divide_lists i (fst r) (snd r))"

lemma divide_level_list:
  assumes "queue_rel src xs" "queue_rel dst ys"
  shows "\<exists>src' dst'. divide_level src dst dim = Some (src', dst', snd (divide_list xs dim)) \<and>
    queue_rel src' [] \<and> queue_rel dst' (ys @ fst (divide_list xs dim))"
  using assms
proof (induction xs arbitrary: src dst ys dim)
  case Nil
  then show ?case using lq.empty_iff [OF Nil.prems(1)] by (subst divide_level.simps) simp
next
  case (Cons bb bbs)
  let ?d = "snd (get_bbox_max_dim_size bb dim)"
  let ?b = "bbox_divide_in2_ondim bb ?d"
  obtain src1 where s: "queue_dequeue src = Some (Some bb, src1)" "queue_rel src1 bbs"
    using lq.deq_ok [OF Cons.prems(1)] by blast
  obtain dst1 where d1: "queue_enqueue dst (fst ?b) = Some dst1" "queue_rel dst1 (ys @ [fst ?b])"
    using lq.enq_ok [OF Cons.prems(2)] by blast
  obtain dst2 where d2: "queue_enqueue dst1 (snd ?b) = Some dst2"
    "queue_rel dst2 ((ys @ [fst ?b]) @ [snd ?b])"
    using lq.enq_ok [OF d1(2)] by blast
  have "\<not> queue_is_empty src" using lq.empty_iff [OF Cons.prems(1)] by simp
  then have "divide_level src dst dim = divide_level src1 dst2 ?d"
    by (subst divide_level.simps) (simp add: s(1) d1(1) d2(1) Let_def)
  then show ?case using Cons.IH [OF s(2) d2(2), of ?d] by (simp add: Let_def)
qed

lemma divide_list_Nil: "fst (divide_list bbs dim) = [] \<longleftrightarrow> bbs = []"
  by (cases bbs) (auto simp: Let_def)

lemma divide_loop_list:
  assumes "queue_rel q1 xs" "queue_rel q2 ys" "xs = [] \<and> bbs = ys \<or> ys = [] \<and> bbs = xs" "bbs \<noteq> []"
  shows "\<exists>q1' q2' xs' ys'. divide_loop i q1 q2 dim = Some (q1', q2', snd (divide_lists i bbs dim)) \<and>
    queue_rel q1' xs' \<and> queue_rel q2' ys' \<and>
    (xs' = [] \<and> fst (divide_lists i bbs dim) = ys' \<or> ys' = [] \<and> fst (divide_lists i bbs dim) = xs')"
  using assms
proof (induction i arbitrary: q1 q2 xs ys bbs dim)
  case 0
  then show ?case by auto
next
  case (Suc i)
  let ?r = "divide_list bbs dim"
  have ne: "fst ?r \<noteq> []" using Suc.prems(4) by (simp add: divide_list_Nil)
  have e: "queue_is_empty q1 \<longleftrightarrow> xs = []" "queue_is_empty q2 \<longleftrightarrow> ys = []"
    using lq.empty_iff Suc.prems(1,2) by blast+
  from Suc.prems(3) show ?case
  proof
    assume *: "ys = [] \<and> bbs = xs"
    obtain q1' q2' where "divide_level q1 q2 dim = Some (q1', q2', snd ?r)" "queue_rel q1' []"
      "queue_rel q2' (fst ?r)"
      using divide_level_list [OF Suc.prems(1,2)] * by fastforce
    then show ?thesis
      using Suc.IH [of q1' "[]" q2' "fst ?r" "fst ?r" "snd ?r"] ne * e Suc.prems(4)
      by (simp add: Let_def)
  next
    assume *: "xs = [] \<and> bbs = ys"
    obtain q2' q1' where "divide_level q2 q1 dim = Some (q2', q1', snd ?r)" "queue_rel q2' []"
      "queue_rel q1' (fst ?r)"
      using divide_level_list [OF Suc.prems(2,1)] * by fastforce
    then show ?thesis
      using Suc.IH [of q1' "fst ?r" q2' "[]" "fst ?r" "snd ?r"] ne * e Suc.prems(4)
      by (simp add: Let_def)
  qed
qed

lemma length_divide_list: "length (fst (divide_list bbs dim)) = 2 * length bbs"
  by (induction bbs dim rule: divide_list.induct) (auto simp: Let_def)

lemma length_divide_lists: "length (fst (divide_lists i bbs dim)) = 2 ^ i * length bbs"
  by (induction i bbs dim rule: divide_lists.induct) (auto simp: Let_def length_divide_list)

fun assign_list :: "bbox list \<Rightarrow> nat \<Rightarrow> dht \<Rightarrow> dht" where
  "assign_list [] i d = d"
| "assign_list (bb # bbs) i d = assign_list bbs (i + 1) (dht_give_bbox d (i mod num_entries d) bb)"

lemma assign_loop_list: "queue_rel q xs \<Longrightarrow> assign_loop q i d = Some (assign_list xs i d)"
proof (induction xs arbitrary: q i d)
  case Nil
  then show ?case using lq.empty_iff [OF Nil.prems] by (subst assign_loop.simps) simp
next
  case (Cons bb bbs)
  obtain q1 where q: "queue_dequeue q = Some (Some bb, q1)" "queue_rel q1 bbs"
    using lq.deq_ok [OF Cons.prems] by blast
  have "\<not> queue_is_empty q" using lq.empty_iff [OF Cons.prems] by simp
  then show ?case using Cons.IH [OF q(2)] by (subst assign_loop.simps) (simp add: q(1))
qed

subsection \<open>The leaves partition the domain\<close>

text \<open>A box of the bisection: below \<open>2 ^ 63\<close>, and empty by at most one step in each dimension.\<close>

definition leaf_ok :: "nat \<Rightarrow> bbox \<Rightarrow> bool" where
  "leaf_ok n b \<longleftrightarrow> num_dims b = n \<and>
     (\<forall>i<n. unat (ub b i) < 2 ^ 63 \<and> unat (lb b i) \<le> Suc (unat (ub b i)))"

definition cell_count :: "coord \<Rightarrow> bbox list \<Rightarrow> nat" where
  "cell_count x bbs = length (filter (\<lambda>b. in_bbox b x) bbs)"

lemma cell_count_simps [simp]:
  "cell_count x [] = 0"
  "cell_count x (b # bbs) = (if in_bbox b x then 1 else 0) + cell_count x bbs"
  by (auto simp: cell_count_def)

lemma leaf_ok_split:
  assumes "leaf_ok n b" "d < n" "bbox_divide_in2_ondim b d = (b1, b2)"
  shows "leaf_ok n b1" "leaf_ok n b2"
    "(if in_bbox b1 x then 1 else 0) + (if in_bbox b2 x then 1 else 0) = (if in_bbox b x then 1 else (0::nat))"
proof -
  have b: "num_dims b = n" "unat (ub b d) < 2 ^ 63" "unat (lb b d) \<le> Suc (unat (ub b d))"
    using assms(1,2) by (auto simp: leaf_ok_def)
  then have sum: "unat (lb b d) + unat (ub b d) < 2 ^ 64" by simp
  define m where "m = drop_bit 1 (lb b d + ub b d)"
  have b12: "b1 = b\<lparr>ub := (ub b)(d := m)\<rparr>" "b2 = b\<lparr>lb := (lb b)(d := m + 1)\<rparr>"
    using assms(3) by (auto simp: bbox_divide_in2_ondim_def m_def Let_def)
  have m: "unat m = (unat (lb b d) + unat (ub b d)) div 2"
    unfolding m_def unat_half_u64 using sum by (simp add: unat_add_u64)
  have m1: "unat (m + 1) = Suc (unat m)" using m b sum by (subst unat_add_u64) auto
  show "leaf_ok n b1" "leaf_ok n b2" using assms(1) b m m1 by (auto simp: leaf_ok_def b12)
  show "(if in_bbox b1 x then 1 else 0) + (if in_bbox b2 x then 1 else 0) = (if in_bbox b x then 1 else (0::nat))"
    using in_bbox_divide_in2 [OF _ b(3) sum assms(3), of x] assms(2) b(1) by auto
qed

lemma max_dim_less:
  assumes "leaf_ok n b" "d0 < n"
  shows "snd (get_bbox_max_dim_size b d0) < n"
proof -
  obtain m d where e: "get_bbox_max_dim_size b d0 = (m, d)" by fastforce
  from get_bbox_max_dim_size_spec [OF e] show ?thesis using assms e by (auto simp: leaf_ok_def)
qed

text \<open>The first split needs no earlier value of \<open>dim\<close> when the box has a dimension of positive size.\<close>

lemma max_dim_less_wf:
  assumes "leaf_ok n b" "bbox_wf b" "0 < n"
  shows "snd (get_bbox_max_dim_size b d0) < n"
proof -
  obtain m d where e: "get_bbox_max_dim_size b d0 = (m, d)" by fastforce
  have b: "num_dims b = n" "unat (ub b 0) < 2 ^ 63" using assms(1,3) by (auto simp: leaf_ok_def)
  then have "unat (ub b 0) - unat (lb b 0) + 1 < 2 ^ 64" by simp
  moreover have "lb b 0 \<le> ub b 0" using assms b by (simp add: bbox_wf_def)
  ultimately have "unat (ub b 0 - lb b 0 + 1) = unat (ub b 0) - unat (lb b 0) + 1"
    using unat_coord_dist [of b 0] by (simp add: bbox_dist_def coord_dist_def)
  then have "ub b 0 - lb b 0 + 1 \<noteq> 0" by (metis Suc_eq_plus1 nat.distinct(1) unat_0)
  moreover have "ub b 0 - lb b 0 + 1 \<le> m" using get_bbox_max_dim_size_spec [OF e] b assms(3) by auto
  ultimately have "m \<noteq> 0" by auto
  then show ?thesis using get_bbox_max_dim_size_spec [OF e] e b by auto
qed

lemma divide_list_leaves:
  assumes "\<forall>b\<in>set bbs. leaf_ok n b" "dim < n"
  shows "(\<forall>b\<in>set (fst (divide_list bbs dim)). leaf_ok n b) \<and> snd (divide_list bbs dim) < n \<and>
    cell_count x (fst (divide_list bbs dim)) = cell_count x bbs"
  using assms
proof (induction bbs arbitrary: dim)
  case (Cons b bbs)
  let ?d = "snd (get_bbox_max_dim_size b dim)"
  obtain b1 b2 where e: "bbox_divide_in2_ondim b ?d = (b1, b2)" by fastforce
  have d: "?d < n" using Cons.prems by (intro max_dim_less) auto
  have b: "leaf_ok n b" using Cons.prems by simp
  note L = leaf_ok_split [OF b d e]
  have "(\<forall>b\<in>set (fst (divide_list bbs ?d)). leaf_ok n b) \<and> snd (divide_list bbs ?d) < n \<and>
      cell_count x (fst (divide_list bbs ?d)) = cell_count x bbs"
    using Cons.prems d by (intro Cons.IH) auto
  then show ?case using L e by (simp add: Let_def)
qed simp

lemma divide_lists_leaves:
  assumes "\<forall>b\<in>set bbs. leaf_ok n b" "dim < n"
  shows "(\<forall>b\<in>set (fst (divide_lists i bbs dim)). leaf_ok n b) \<and>
    cell_count x (fst (divide_lists i bbs dim)) = cell_count x bbs"
  using assms
proof (induction i arbitrary: bbs dim)
  case (Suc i)
  let ?r = "divide_list bbs dim"
  have D: "(\<forall>b\<in>set (fst ?r). leaf_ok n b) \<and> snd ?r < n \<and> cell_count x (fst ?r) = cell_count x bbs"
    by (rule divide_list_leaves [OF Suc.prems])
  then have "(\<forall>b\<in>set (fst (divide_lists i (fst ?r) (snd ?r))). leaf_ok n b) \<and>
      cell_count x (fst (divide_lists i (fst ?r) (snd ?r))) = cell_count x (fst ?r)"
    by (intro Suc.IH) auto
  then show ?case using D by (simp add: Let_def)
qed simp

lemma divide_lists_domain:
  assumes "leaf_ok n b" "bbox_wf b" "0 < n"
  shows "(\<forall>b'\<in>set (fst (divide_lists i [b] dim)). leaf_ok n b') \<and>
    cell_count x (fst (divide_lists i [b] dim)) = (if in_bbox b x then 1 else 0)"
proof (cases i)
  case (Suc j)
  let ?d = "snd (get_bbox_max_dim_size b dim)"
  obtain b1 b2 where e: "bbox_divide_in2_ondim b ?d = (b1, b2)" by fastforce
  have d: "?d < n" by (rule max_dim_less_wf [OF assms])
  note L = leaf_ok_split [OF assms(1) d e]
  have "(\<forall>b'\<in>set (fst (divide_lists j [b1, b2] ?d)). leaf_ok n b') \<and>
      cell_count x (fst (divide_lists j [b1, b2] ?d)) = cell_count x [b1, b2]"
    using L d by (intro divide_lists_leaves) auto
  then show ?thesis using L(3) [of x] e Suc by (simp add: Let_def)
qed (use assms in simp)

subsection \<open>Dealing the leaves\<close>

fun deal :: "nat \<Rightarrow> nat \<Rightarrow> nat \<Rightarrow> 'a list \<Rightarrow> 'a list" where
  "deal N i j [] = []"
| "deal N i j (b # bs) = (if i mod N = j then b # deal N (i + 1) j bs else deal N (i + 1) j bs)"

lemma deal_snoc:
  "deal N i j (bs @ [b]) = deal N i j bs @ (if (i + length bs) mod N = j then [b] else [])"
  by (induction bs arbitrary: i) auto

lemma set_deal: "set (deal N i j bs) \<subseteq> set bs"
  by (induction bs arbitrary: i) auto

lemma length_deal:
  assumes "j < N"
  shows "length (deal N 0 j bs) = (length bs + (N - 1 - j)) div N"
proof (induction bs rule: rev_induct)
  case Nil
  then show ?case using assms by simp
next
  case (snoc b bs)
  let ?L = "length bs"
  have "Suc (?L + (N - 1 - j)) mod N = 0 \<longleftrightarrow> ?L mod N = j"
  proof -
    have e: "Suc (?L + (N - 1 - j)) = ?L + (N - j)" using assms by simp
    show ?thesis unfolding e
    proof
      assume *: "(?L + (N - j)) mod N = 0"
      have "?L mod N = (?L + (N - j) + j) mod N" using assms by simp
      also have "\<dots> = ((?L + (N - j)) mod N + j) mod N" by (simp add: mod_add_left_eq)
      finally show "?L mod N = j" using * assms by simp
    next
      assume "?L mod N = j"
      then have "(?L + (N - j)) mod N = (j + (N - j)) mod N" by (metis mod_add_left_eq)
      then show "(?L + (N - j)) mod N = 0" using assms by simp
    qed
  qed
  then show ?case using snoc by (simp add: deal_snoc div_Suc)
qed

lemma cell_count_deal:
  "0 < N \<Longrightarrow> (\<Sum>j<N. cell_count x (deal N i j bs)) = cell_count x bs"
proof (induction bs arbitrary: i)
  case (Cons b bs)
  let ?c = "if in_bbox b x then 1 else (0::nat)"
  have "(\<Sum>j<N. cell_count x (deal N i j (b # bs))) =
      (\<Sum>j<N. (if i mod N = j then ?c else 0) + cell_count x (deal N (i + 1) j bs))"
    by (rule sum.cong) auto
  also have "\<dots> = ?c + cell_count x bs"
    unfolding sum.distrib using Cons by simp
  finally show ?case by simp
qed simp

lemma dht_give_bbox_sel [simp]:
  "num_entries (dht_give_bbox d j bb) = num_entries d"
  "bb_glb_domain (dht_give_bbox d j bb) = bb_glb_domain d"
  "de_boxes (ent_tab (dht_give_bbox d j bb) k) = de_boxes (ent_tab d k) @ (if j = k then [bb] else [])"
  "rank (ent_tab (dht_give_bbox d j bb) k) = rank (ent_tab d k)"
  "size_bb_tab (ent_tab (dht_give_bbox d j bb) k) = size_bb_tab (ent_tab d k)"
  "odsc_size (ent_tab (dht_give_bbox d j bb) k) = odsc_size (ent_tab d k)"
  "odsc_num (ent_tab (dht_give_bbox d j bb) k) = odsc_num (ent_tab d k)"
  "odsc_hash (ent_tab (dht_give_bbox d j bb) k) = odsc_hash (ent_tab d k)"
  by (auto simp: dht_give_bbox_def Let_def de_boxes_def)

lemma assign_list_sel [simp]:
  "num_entries (assign_list bbs i d) = num_entries d"
  "bb_glb_domain (assign_list bbs i d) = bb_glb_domain d"
  "rank (ent_tab (assign_list bbs i d) k) = rank (ent_tab d k)"
  "size_bb_tab (ent_tab (assign_list bbs i d) k) = size_bb_tab (ent_tab d k)"
  "odsc_size (ent_tab (assign_list bbs i d) k) = odsc_size (ent_tab d k)"
  "odsc_num (ent_tab (assign_list bbs i d) k) = odsc_num (ent_tab d k)"
  "odsc_hash (ent_tab (assign_list bbs i d) k) = odsc_hash (ent_tab d k)"
  by (induction bbs arbitrary: i d) auto

lemma assign_list_boxes:
  "de_boxes (ent_tab (assign_list bbs i d) j) = de_boxes (ent_tab d j) @ deal (num_entries d) i j bbs"
  by (induction bbs arbitrary: i d) auto

lemma length_de_boxes [simp]: "length (de_boxes de) = num_bbox de"
  by (simp add: de_boxes_def)

subsection \<open>What \<open>ssd_alloc_v2\<close> returns\<close>

definition dom_ok :: "bbox \<Rightarrow> bool" where
  "dom_ok b \<longleftrightarrow> 0 < num_dims b \<and> bbox_wf b \<and> (\<forall>i<num_dims b. unat (ub b i) < 2 ^ 63)"

lemma dom_ok_leaf: "dom_ok b \<Longrightarrow> leaf_ok (num_dims b) b"
  by (auto simp: dom_ok_def leaf_ok_def bbox_wf_def u64_le_nat le_Suc_eq)

text \<open>The space a completed \<open>ssd_alloc_v2\<close> describes, in terms of its leaves.\<close>

definition v2_space :: "bbox \<Rightarrow> nat \<Rightarrow> nat \<Rightarrow> bbox list \<Rightarrow> sspace \<Rightarrow> bool" where
  "v2_space bb num_nodes max_versions leaves ss \<longleftrightarrow>
     num_entries (dht ss) = num_nodes \<and> bb_glb_domain (dht ss) = bb \<and>
     hash_version ss = ssd_hash_version_v2 \<and> total_num_bbox ss = length leaves \<and>
     num_nodes \<le> length leaves \<and> length leaves < 2 * num_nodes \<and>
     (\<forall>b\<in>set leaves. leaf_ok (num_dims bb) b) \<and>
     (\<forall>x. cell_count x leaves = (if in_bbox bb x then 1 else 0)) \<and>
     (\<forall>j<num_nodes. let de = ent_tab (dht ss) j in
        de_boxes de = deal num_nodes 0 j leaves \<and> rank de = int j \<and>
        size_bb_tab de = ceil_div (length leaves) num_nodes \<and>
        odsc_size de = max_versions \<and> odsc_num de = 0 \<and> odsc_hash de = (\<lambda>_. []))"

lemma dht_alloc_total:
  assumes "\<forall>i. malloc_ok i"
  shows "\<exists>d. dht_alloc malloc_ok tab bb n m = Inr d"
proof -
  have "\<exists>t. dht_alloc_entries malloc_ok m is tab = Inr t" for "is"
    using assms by (induction "is" arbitrary: tab) (auto simp: dht_entry_alloc_def)
  then obtain t where "dht_alloc_entries malloc_ok m [0..<n] tab = Inr t" by blast
  then show ?thesis using assms by (simp add: dht_alloc_def)
qed

definition v2_leaves :: "bbox \<Rightarrow> nat \<Rightarrow> nat \<Rightarrow> bbox list" where
  "v2_leaves bb n dim = fst (divide_lists (compute_bits_v2 (the (next_pow_2_v2 (of_nat n)))) [bb] dim)"

text \<open>The uninitialised dimension the bisection starts with is overwritten before it is used.\<close>

lemma fold_argmax_start:
  fixes f :: "nat \<Rightarrow> u64"
  shows "\<exists>m e e'. fold (\<lambda>i (m, d). if m < f i then (f i, i) else (m, d)) [0..<k] (0, d) = (m, e) \<and>
    fold (\<lambda>i (m, d). if m < f i then (f i, i) else (m, d)) [0..<k] (0, d') = (m, e') \<and>
    (e = e' \<or> m = 0 \<and> (\<forall>i<k. f i = 0))"
proof (induction k)
  case (Suc k)
  then obtain m e e' where e: "fold (\<lambda>i (m, d). if m < f i then (f i, i) else (m, d)) [0..<k] (0, d) = (m, e)"
    "fold (\<lambda>i (m, d). if m < f i then (f i, i) else (m, d)) [0..<k] (0, d') = (m, e')"
    "e = e' \<or> m = 0 \<and> (\<forall>i<k. f i = 0)" by blast
  show ?case
  proof (cases "m < f k")
    case False
    then have "m = 0 \<Longrightarrow> f k = 0" by (simp add: word_le_0_iff not_less)
    then show ?thesis using False e by (auto simp: less_Suc_eq)
  qed (use e in simp)
qed simp

lemma max_dim_size_start:
  assumes "i < num_dims bb" "ub bb i - lb bb i + 1 \<noteq> 0"
  shows "get_bbox_max_dim_size bb d = get_bbox_max_dim_size bb d'"
  using fold_argmax_start [of "\<lambda>i. ub bb i - lb bb i + 1" "num_dims bb" d d'] assms
  unfolding get_bbox_max_dim_size_def Let_def by metis

lemma v2_leaves_start:
  assumes "dom_ok bb"
  shows "v2_leaves bb n d = v2_leaves bb n d'"
proof (cases "compute_bits_v2 (the (next_pow_2_v2 (of_nat n)))")
  case (Suc k)
  have "0 < num_dims bb" "lb bb 0 \<le> ub bb 0" "unat (ub bb 0) < 2 ^ 63"
    using assms by (auto simp: dom_ok_def bbox_wf_def)
  then have "unat (ub bb 0 - lb bb 0 + 1) = unat (ub bb 0) - unat (lb bb 0) + 1"
    using unat_coord_dist [of bb 0] by (simp add: bbox_dist_def coord_dist_def)
  then have "ub bb 0 - lb bb 0 + 1 \<noteq> 0" by (metis add_is_0 one_neq_zero unat_0)
  then have "get_bbox_max_dim_size bb d = get_bbox_max_dim_size bb d'"
    using \<open>0 < num_dims bb\<close> by (rule max_dim_size_start [rotated])
  then show ?thesis by (simp add: v2_leaves_def Suc Let_def)
qed (simp add: v2_leaves_def)

lemma ssd_alloc_v2_leaves:
  assumes dom: "dom_ok bb" and n: "0 < n" "n < 2 ^ 31" and mem: "ss_ok" "\<forall>i. malloc_ok i"
  shows "\<exists>ss. ssd_alloc_v2 addr dim0 tab0 ss_ok malloc_ok bb n m = Some (Some ss) \<and>
    ss_addr ss = addr \<and> v2_space bb n m (v2_leaves bb n 0) ss"
proof -
  obtain md dim where md: "get_bbox_max_dim bb dim0 = (md, dim)" by fastforce
  have "md = 0 \<or> (\<exists>d<num_dims bb. md = ub bb d)"
    using fold_argmax [of "ub bb" "num_dims bb" dim0 md dim] md by (auto simp: get_bbox_max_dim_def)
  then have "unat md \<le> 2 ^ 63" using dom by (auto simp: dom_ok_def less_imp_le)
  then obtain a where a: "next_pow_2_v2 md = Some (2 ^ a)" using next_pow_2_v2_spec by blast
  have un: "unat (of_nat n :: u64) = n" using n by (simp add: unat_of_nat)
  then obtain j where j: "j \<le> 63" "next_pow_2_v2 (of_nat n) = Some (2 ^ j)" "n \<le> 2 ^ j"
    "0 < j \<longrightarrow> 2 ^ (j - 1) < n"
    using next_pow_2_v2_spec [of "of_nat n"] n by auto
  have c: "compute_bits_v2 (2 ^ j) = j" using j(1) by (intro compute_bits_v2_exp) simp
  obtain q1 where q1: "queue_enqueue queue_init bb = Some q1" "queue_rel q1 [bb]"
    using lq.enq_ok [OF lq.rel_init] by fastforce
  define leaves where "leaves = fst (divide_lists j [bb] dim)"
  obtain p1 p2 xs ys where L: "divide_loop j q1 queue_init dim = Some (p1, p2, snd (divide_lists j [bb] dim))"
    "queue_rel p1 xs" "queue_rel p2 ys" "xs = [] \<and> leaves = ys \<or> ys = [] \<and> leaves = xs"
    using divide_loop_list [OF q1(2) lq.rel_init, of "[bb]" j dim] unfolding leaves_def by auto
  have len: "length leaves = 2 ^ j" unfolding leaves_def by (simp add: length_divide_lists)
  then have ne: "leaves \<noteq> []" by auto
  obtain q where q: "(if \<not> queue_is_empty p1 then Some p1
      else if \<not> queue_is_empty p2 then Some p2 else None) = Some q" "queue_rel q leaves"
    using L(2-4) lq.empty_iff [OF L(2)] lq.empty_iff [OF L(3)] ne by auto
  obtain d0 where d0: "dht_alloc malloc_ok tab0 bb n m = Inr d0" using dht_alloc_total [OF mem(2)] by blast
  define d1 where "d1 = dht_size_bb_tabs (ceil_div (length leaves) n) (dht_set_ranks n d0)"
  let ?ss = "\<lparr>ss_addr = addr, max_dim = 2 ^ a, bpd = compute_bits_v2 (2 ^ a),
    dht = assign_list leaves 0 d1, ss_rank = 0, ent_self = 0, total_num_bbox = length leaves,
    hash_version = ssd_hash_version_v2\<rparr>"
  have run: "ssd_alloc_v2 addr dim0 tab0 ss_ok malloc_ok bb n m = Some (Some ?ss)"
    unfolding ssd_alloc_v2_def Let_def
    using md a j(2) c q1(1) L(1) q(1) mem(1) d0 lq.size_ok [OF q(2)] assign_loop_list [OF q(2)]
    by (simp add: d1_def)
  have two: "length leaves < 2 * n"
    using j(4) n(1) len by (cases j) auto
  have inv: "\<forall>b\<in>set leaves. leaf_ok (num_dims bb) b"
    "cell_count x leaves = (if in_bbox bb x then 1 else 0)" for x
    using divide_lists_domain [OF dom_ok_leaf [OF dom], of j dim] dom
    unfolding leaves_def dom_ok_def by blast+
  have d1: "num_entries d1 = n" "bb_glb_domain d1 = bb"
    using dht_alloc_ok [OF d0] by (auto simp: d1_def dht_size_bb_tabs_def dht_set_ranks_def)
  have e1: "de_boxes (ent_tab d1 k) = []" "rank (ent_tab d1 k) = int k"
    "size_bb_tab (ent_tab d1 k) = ceil_div (length leaves) n" "odsc_size (ent_tab d1 k) = m"
    "odsc_num (ent_tab d1 k) = 0" "odsc_hash (ent_tab d1 k) = (\<lambda>_. [])" if "k < n" for k
    using dht_alloc_ok [OF d0] that
    by (auto simp: d1_def dht_size_bb_tabs_def dht_set_ranks_def de_boxes_def dht_entry_alloc_def)
  have "v2_space bb n m leaves ?ss"
    using two len j(3) inv d1 e1 by (simp add: v2_space_def Let_def assign_list_boxes)
  moreover have "leaves = v2_leaves bb n 0"
    using v2_leaves_start [OF dom, of n dim 0] j(2) c by (simp add: v2_leaves_def leaves_def)
  ultimately show ?thesis using run by simp
qed

lemma ssd_alloc_v2_run:
  assumes "dom_ok bb" "0 < n" "n < 2 ^ 31" "ss_ok" "\<forall>i. malloc_ok i"
  shows "\<exists>ss leaves. ssd_alloc_v2 addr dim0 tab0 ss_ok malloc_ok bb n m = Some (Some ss) \<and>
    ss_addr ss = addr \<and> v2_space bb n m leaves ss"
  using ssd_alloc_v2_leaves [OF assms, of addr dim0 tab0 m] by blast

lemma cell_count_total_1:
  fixes N :: nat
  assumes "(\<Sum>j<N. cell_count x (f j)) = 1"
  shows "\<exists>!jk. fst jk < N \<and> snd jk < length (f (fst jk)) \<and> in_bbox (f (fst jk) ! snd jk) x"
proof -
  let ?K = "\<lambda>j. {k. k < length (f j) \<and> in_bbox (f j ! k) x}"
  have "card (SIGMA j:{..<N}. ?K j) = (\<Sum>j<N. card (?K j))" by (rule card_SigmaI) auto
  also have "\<dots> = 1" using assms by (simp add: cell_count_def length_filter_conv_card)
  finally have "card (SIGMA j:{..<N}. ?K j) = 1" .
  then obtain p where p: "(SIGMA j:{..<N}. ?K j) = {p}" by (rule card_1_singletonE)
  have "fst q < N \<and> snd q < length (f (fst q)) \<and> in_bbox (f (fst q) ! snd q) x \<longleftrightarrow> q = p" for q
    using eqset_imp_iff [OF p, of q] by (cases q) auto
  then show ?thesis by (intro ex1I [of _ p]) auto
qed

lemma v2_space_total:
  assumes "v2_space bb n m leaves ss" "0 < n"
  shows "(\<Sum>j<n. cell_count x (de_boxes (ent_tab (dht ss) j))) = (if in_bbox bb x then 1 else 0)"
proof -
  have "(\<Sum>j<n. cell_count x (de_boxes (ent_tab (dht ss) j))) =
      (\<Sum>j<n. cell_count x (deal n 0 j leaves))"
    using assms(1) by (intro sum.cong) (auto simp: v2_space_def Let_def)
  then show ?thesis using assms by (simp add: cell_count_deal v2_space_def)
qed

lemma v2_space_inv:
  assumes "v2_space bb n m leaves ss" "j < n" "0 < m"
  shows "de_inv (ent_tab (dht ss) j)"
  using assms by (simp add: v2_space_def Let_def de_inv_def de_objs_def)

subsection \<open>The bisection satisfies the contract of a decomposition\<close>

definition v2_ok :: "sspace \<Rightarrow> bool" where
  "v2_ok ss \<longleftrightarrow> (\<exists>n m leaves. 0 < n \<and> v2_space (bb_glb_domain (dht ss)) n m leaves ss)"

definition owner_v2 :: "sspace \<Rightarrow> coord \<Rightarrow> nat" where
  "owner_v2 ss x =
     hd (filter (\<lambda>j. cell_count x (de_boxes (ent_tab (dht ss) j)) > 0) [0..<num_entries (dht ss)])"

lemma owner_v2_spec:
  assumes "v2_ok ss" "in_bbox (bb_glb_domain (dht ss)) x"
  shows "owner_v2 ss x < num_entries (dht ss) \<and>
    (\<exists>b\<in>set (de_boxes (ent_tab (dht ss) (owner_v2 ss x))). in_bbox b x)"
proof -
  obtain n m leaves where v: "0 < n" "v2_space (bb_glb_domain (dht ss)) n m leaves ss"
    using assms(1) by (auto simp: v2_ok_def)
  let ?c = "\<lambda>j. cell_count x (de_boxes (ent_tab (dht ss) j))"
  have n: "num_entries (dht ss) = n" using v(2) by (simp add: v2_space_def)
  have "(\<Sum>j<n. ?c j) \<noteq> 0" using v2_space_total [OF v(2,1), of x] assms(2) by simp
  then obtain j where "j < n" "?c j > 0" by (metis (no_types, lifting) lessThan_iff neq0_conv sum.neutral)
  then have "filter (\<lambda>j. ?c j > 0) [0..<num_entries (dht ss)] \<noteq> []" using n by (auto simp: filter_empty_conv)
  then have "owner_v2 ss x \<in> set (filter (\<lambda>j. ?c j > 0) [0..<num_entries (dht ss)])"
    unfolding owner_v2_def by (rule hd_in_set)
  then show ?thesis by (auto simp: cell_count_def filter_empty_conv)
qed

interpretation bisect: cell_hash hash_v2 "\<lambda>ss. bb_glb_domain (dht ss)" owner_v2 v2_ok
proof
  fix ss x bb
  assume ss: "v2_ok ss" and x: "in_bbox (bb_glb_domain (dht ss)) x"
    and nd: "num_dims bb = num_dims (bb_glb_domain (dht ss))" and bb: "in_bbox bb x"
  obtain b where b: "owner_v2 ss x < num_entries (dht ss)"
    "b \<in> set (de_boxes (ent_tab (dht ss) (owner_v2 ss x)))" "in_bbox b x"
    using owner_v2_spec [OF ss x] by blast
  obtain n m leaves where v: "0 < n" "v2_space (bb_glb_domain (dht ss)) n m leaves ss"
    using ss by (auto simp: v2_ok_def)
  have "b \<in> set leaves"
    using v b(1,2) set_deal by (fastforce simp: v2_space_def Let_def)
  then have "num_dims b = num_dims bb" using v nd by (simp add: v2_space_def leaf_ok_def)
  then have "bbox_does_intersect bb b" using bbox_does_intersectI [of bb b x] bb b(3) by simp
  then show "owner_v2 ss x \<in> set (hash_v2 ss bb)"
    using b by (auto simp: hash_v2_def list_ex_iff)
qed

lemma hash_v2_cong:
  assumes "bbox_equals b b'"
  shows "hash_v2 ss b = hash_v2 ss b'"
proof -
  have "bbox_does_intersect b = bbox_does_intersect b'"
    using assms by (auto simp: bbox_equals_def bbox_does_intersect_def bbox_intersect_ondim_def fun_eq_iff)
  then show ?thesis by (simp add: hash_v2_def)
qed

subsection \<open>Properties\<close>

text \<open>The 8 by 4 domain and the space of 3 servers on which the hypotheses below are exercised.\<close>

abbreviation dom_8x4 :: bbox where
  "dom_8x4 \<equiv> \<lparr>num_dims = 2, lb = vec [0, 0], ub = vec [7, 3]\<rparr>"

abbreviation alloc_8x4 :: "sspace option option" where
  "alloc_8x4 \<equiv> ssd_alloc_v2 7 0 (\<lambda>_. the (dht_entry_alloc True 1)) True (\<lambda>_. True) dom_8x4 3 1"

lemma dom_8x4_ok: "dom_ok dom_8x4"
  by (auto simp: dom_ok_def bbox_wf_def all_less_numeral)

lemma alloc_8x4_ok: "\<exists>ss. alloc_8x4 = Some (Some ss)"
  using ssd_alloc_v2_run [OF dom_8x4_ok, of 3 True "\<lambda>_. True" 7 0
      "\<lambda>_. the (dht_entry_alloc True 1)" 1] by auto

text \<open>C11: \<open>ssd_alloc_v2\<close> returns for every well-formed domain with coordinates below \<open>2 ^ 63\<close>
  and every positive number of servers, and the boxes it deals to the servers partition the
  domain: every cell of the domain is in exactly one box of exactly one directory entry, and
  no box reaches outside the domain.\<close>

theorem bisection_partitions_domain:
  assumes "dom_ok bb" "0 < n" "n < 2 ^ 31"
  shows "\<exists>ss. ssd_alloc_v2 addr dim0 tab0 True (\<lambda>_. True) bb n m = Some (Some ss) \<and>
    num_entries (dht ss) = n \<and>
    (\<forall>x. in_bbox bb x \<longrightarrow>
       (\<exists>!jk. fst jk < n \<and> snd jk < num_bbox (ent_tab (dht ss) (fst jk)) \<and>
          in_bbox (bb_tab (ent_tab (dht ss) (fst jk)) (snd jk)) x)) \<and>
    (\<forall>x j k. j < n \<and> k < num_bbox (ent_tab (dht ss) j) \<and>
       in_bbox (bb_tab (ent_tab (dht ss) j) k) x \<longrightarrow> in_bbox bb x)"
proof -
  obtain ss leaves where ss: "ssd_alloc_v2 addr dim0 tab0 True (\<lambda>_. True) bb n m = Some (Some ss)"
    "v2_space bb n m leaves ss"
    using ssd_alloc_v2_run [OF assms, of True "\<lambda>_. True" addr dim0 tab0 m] by auto
  let ?B = "\<lambda>j. de_boxes (ent_tab (dht ss) j)"
  have nth: "?B j ! k = bb_tab (ent_tab (dht ss) j) k" if "k < num_bbox (ent_tab (dht ss) j)" for j k
    using that by (simp add: de_boxes_def)
  have one: "\<exists>!jk. fst jk < n \<and> snd jk < num_bbox (ent_tab (dht ss) (fst jk)) \<and>
      in_bbox (bb_tab (ent_tab (dht ss) (fst jk)) (snd jk)) x" if "in_bbox bb x" for x
    using cell_count_total_1 [of x ?B n] v2_space_total [OF ss(2) assms(2), of x] that nth
    by (simp cong: conj_cong)
  have sub: "in_bbox bb x" if "j < n" "k < num_bbox (ent_tab (dht ss) j)"
      "in_bbox (bb_tab (ent_tab (dht ss) j) k) x" for x j k
  proof (rule ccontr)
    assume "\<not> in_bbox bb x"
    then have "cell_count x (?B j) = 0" using v2_space_total [OF ss(2) assms(2), of x] that(1) by simp
    moreover have "?B j ! k \<in> set (?B j)" using that(2) by simp
    ultimately show False using that nth by (auto simp: cell_count_def filter_empty_conv)
  qed
  show ?thesis using ss one sub by (auto simp: v2_space_def)
qed

theorem bisection_partitions_domain_witness:
  "\<exists>ss. alloc_8x4 = Some (Some ss) \<and>
    (\<exists>!jk. fst jk < 3 \<and> snd jk < num_bbox (ent_tab (dht ss) (fst jk)) \<and>
      in_bbox (bb_tab (ent_tab (dht ss) (fst jk)) (snd jk)) (vec [5, 2]))"
proof -
  have "in_bbox dom_8x4 (vec [5, 2])" by (auto simp: in_bbox_def all_less_numeral)
  then show ?thesis
    using bisection_partitions_domain [OF dom_8x4_ok, of 3 7 0
        "\<lambda>_. the (dht_entry_alloc True 1)" 1] by auto
qed

text \<open>C25: the round-robin assignment never writes past the table \<open>bb_tab\<close> it allocated for an
  entry, and leaves no server without a box.\<close>

theorem bisection_tables_fit:
  assumes "dom_ok bb" "0 < n" "n < 2 ^ 31"
    and "ssd_alloc_v2 addr dim0 tab0 True (\<lambda>_. True) bb n m = Some (Some ss)" "j < n"
  shows "0 < num_bbox (ent_tab (dht ss) j) \<and>
    num_bbox (ent_tab (dht ss) j) \<le> size_bb_tab (ent_tab (dht ss) j) \<and>
    size_bb_tab (ent_tab (dht ss) j) \<le> 2"
proof -
  obtain leaves where v: "v2_space bb n m leaves ss"
    using ssd_alloc_v2_run [OF assms(1-3), of True "\<lambda>_. True" addr dim0 tab0 m] assms(4) by auto
  let ?L = "length leaves"
  have L: "n \<le> ?L" "?L < 2 * n" using v by (auto simp: v2_space_def)
  have e: "de_boxes (ent_tab (dht ss) j) = deal n 0 j leaves"
    "size_bb_tab (ent_tab (dht ss) j) = ceil_div ?L n"
    using v assms(5) by (auto simp: v2_space_def Let_def)
  have nb: "num_bbox (ent_tab (dht ss) j) = (?L + (n - 1 - j)) div n"
    using length_deal [OF assms(5), of leaves] arg_cong [OF e(1), of length] by simp
  have "(?L + (n - 1 - j)) div n \<ge> n div n" using L(1) by (intro div_le_mono) simp
  moreover have "(?L + (n - 1 - j)) div n \<le> (?L + n - 1) div n" using assms(5) by (intro div_le_mono) simp
  moreover have "(?L + n - 1) div n < 3" using L(2) assms(2) by (intro less_mult_imp_div_less) simp
  ultimately show ?thesis using nb e(2) assms(2) by (simp add: ceil_div_def)
qed

theorem bisection_tables_fit_witness:
  "\<exists>ss. alloc_8x4 = Some (Some ss) \<and> 0 < num_bbox (ent_tab (dht ss) 2) \<and>
    num_bbox (ent_tab (dht ss) 2) \<le> size_bb_tab (ent_tab (dht ss) 2)"
proof -
  obtain ss where ss: "alloc_8x4 = Some (Some ss)" using alloc_8x4_ok by blast
  show ?thesis using bisection_tables_fit [OF dom_8x4_ok _ _ ss, of 2] ss by auto
qed

text \<open>C5: two boxes that share a cell of the domain are hashed by \<open>ssd_hash_v2\<close> to a common
  directory entry, so the server that learns of a put is asked by every overlapping get. The
  result does not depend on what the cache holds, as long as it was filled by this space.\<close>

theorem bisection_rendezvous:
  assumes "dom_ok bb" "0 < n" "n < 2 ^ 31"
    and "ssd_alloc_v2 addr dim0 tab0 True (\<lambda>_. True) bb n m = Some (Some ss)"
    and "num_dims put_bb = num_dims bb" "num_dims get_bb = num_dims bb"
    and "in_bbox bb x" "in_bbox put_bb x" "in_bbox get_bb x"
    and "sh_coherent (\<lambda>b. map (Pair addr) (hash_v2 ss b)) l1"
    and "sh_coherent (\<lambda>b. map (Pair addr) (hash_v2 ss b)) l2"
  shows "\<exists>de. de \<in> set (fst (ssd_hash_v2 ok1 l1 ss put_bb)) \<and>
    de \<in> set (fst (ssd_hash_v2 ok2 l2 ss get_bb))"
proof -
  obtain leaves where v: "v2_space bb n m leaves ss" "ss_addr ss = addr"
    using ssd_alloc_v2_run [OF assms(1-3), of True "\<lambda>_. True" addr dim0 tab0 m] assms(4) by auto
  then have dom: "bb_glb_domain (dht ss) = bb" by (simp add: v2_space_def)
  then have "v2_ok ss" using v assms(2) by (auto simp: v2_ok_def)
  then obtain k where k: "k \<in> set (hash_v2 ss put_bb)" "k \<in> set (hash_v2 ss get_bb)"
    using bisect.rendezvous [of ss put_bb get_bb x] assms(5-9) dom by auto
  have "fst (ssd_hash_v2 ok l ss b) = map (Pair addr) (hash_v2 ss b)"
    if "sh_coherent (\<lambda>b. map (Pair addr) (hash_v2 ss b)) l" for ok l b
    unfolding ssd_hash_v2_def v(2) by (rule ssd_hash_cached_transparent(1) [OF that])
      (metis hash_v2_cong)
  then show ?thesis using k assms(10,11) by auto
qed

theorem bisection_rendezvous_witness:
  "\<exists>ss. alloc_8x4 = Some (Some ss) \<and>
    (\<exists>de. de \<in> set (fst (ssd_hash_v2 True [] ss
          \<lparr>num_dims = 2, lb = vec [0, 0], ub = vec [5, 2]\<rparr>)) \<and>
      de \<in> set (fst (ssd_hash_v2 True [] ss \<lparr>num_dims = 2, lb = vec [5, 2], ub = vec [9, 9]\<rparr>)))"
proof -
  obtain ss where ss: "alloc_8x4 = Some (Some ss)" using alloc_8x4_ok by blast
  show ?thesis
    using bisection_rendezvous [OF dom_8x4_ok _ _ ss, of "\<lparr>num_dims = 2, lb = vec [0, 0], ub = vec [5, 2]\<rparr>"
        "\<lparr>num_dims = 2, lb = vec [5, 2], ub = vec [9, 9]\<rparr>" "vec [5, 2]" "[]" "[]" True True] ss
    by (auto simp: in_bbox_def all_less_numeral sh_coherent_def)
qed

end
