(* ===== verification/DS_Curve.thy ===== *)
theory DS_Curve
  imports DS_Intv DS_Bisect
begin

text \<open>
  The first decomposition of the global domain (\<open>dht_construct_hash\<close>, \<open>ssd_alloc_v1\<close>,
  \<open>ssd_hash_v1\<close> in src/src/ss_data.c): the curve indices of the domain are dealt to the directory
  entries in consecutive runs of equal size. Then the dispatch over both versions (\<open>ssd_alloc\<close>,
  \<open>ssd_hash\<close>). The result \<open>None\<close> is a loop that does not return, a read outside of a table, a read
  of uninitialised memory or a division by zero.
\<close>

definition dht_intersect :: "dht_entry \<Rightarrow> intv \<Rightarrow> bool" where
  "dht_intersect de itv \<longleftrightarrow>
     \<not> (i_lb (i_virt de) > i_ub itv \<or> i_ub (i_virt de) < i_lb itv) \<and>
     list_ex (\<lambda>i. intv_do_intersect (i_tab de i) itv) [0..<num_intv de]"

definition de_add_intv :: "dht_entry \<Rightarrow> intv \<Rightarrow> dht_entry" where
  "de_add_intv de itv = de\<lparr>i_tab := (i_tab de)(num_intv de := itv), num_intv := num_intv de + 1\<rparr>"

partial_function (option) fill_entry ::
  "intv list \<Rightarrow> nat \<Rightarrow> u64 \<Rightarrow> dht_entry \<Rightarrow> (intv list \<times> nat \<times> dht_entry) option" where
  "fill_entry tab j len de =
     (if len > 0
      then
        if j < length tab
        then
          if intv_size (tab ! j) > len
          then let itv = \<lparr>i_lb = i_lb (tab ! j), i_ub = i_lb (tab ! j) + len - 1\<rparr>
               in fill_entry (tab[j := (tab ! j)\<lparr>i_lb := i_lb (tab ! j) + len\<rparr>]) j
                    (len - intv_size itv) (de_add_intv de itv)
          else fill_entry tab (j + 1) (len - intv_size (tab ! j)) (de_add_intv de (tab ! j))
        else None
      else Some (tab, j, de))"

definition de_set_virt :: "dht_entry \<Rightarrow> dht_entry option" where
  "de_set_virt de =
     (if num_intv de = 0 then None
      else Some (de\<lparr>i_virt := \<lparr>i_lb = i_lb (i_tab de 0), i_ub = i_ub (i_tab de (num_intv de - 1))\<rparr>\<rparr>))"

text \<open>
  The loop over the entries; the first component of the result is false when it is left early
  because an allocation failed.
\<close>

fun construct_loop ::
  "(nat \<Rightarrow> bool) \<Rightarrow> u64 \<Rightarrow> nat list \<Rightarrow> intv list \<Rightarrow> nat \<Rightarrow> dht \<Rightarrow> (bool \<times> dht) option" where
  "construct_loop malloc_ok sn [] tab j d = Some (True, d)"
| "construct_loop malloc_ok sn (i # is) tab j d =
     (let de = (ent_tab d i)\<lparr>rank := int i\<rparr> in
      if \<not> malloc_ok (2 * i) then Some (False, d\<lparr>ent_tab := (ent_tab d)(i := de)\<rparr>)
      else do {
        (tab, j, de) \<leftarrow> fill_entry tab j sn de;
        de \<leftarrow> de_set_virt de;
        let d = d\<lparr>ent_tab := (ent_tab d)(i := de)\<rparr> in
        if \<not> malloc_ok (2 * i + 1) then Some (False, d) else construct_loop malloc_ok sn is tab j d
      })"

definition dht_construct_hash :: "(nat \<Rightarrow> bool) \<Rightarrow> u64 \<Rightarrow> dht \<Rightarrow> (int \<times> dht) option" where
  "dht_construct_hash malloc_ok md d =
     (if num_entries d = 0 then None
      else do {
        (tab, num) \<leftarrow> bbox_to_intv (bb_glb_domain d) md;
        (ok, d) \<leftarrow> construct_loop malloc_ok (bbox_volume (bb_glb_domain d) div of_nat (num_entries d))
                     [0..<num_entries d] tab 0 d;
        Some (if ok then 0 else - ENOMEM, d)
      })"

definition domain_max_dim :: "bbox \<Rightarrow> u64" where
  "domain_max_dim bb =
     (let m = fold (\<lambda>i m. max (ub bb i) m) [1..<num_dims bb] (ub bb 0) in if m = 0 then 1 else m)"

definition ssd_alloc_v1 ::
  "nat \<Rightarrow> (nat \<Rightarrow> dht_entry) \<Rightarrow> bool \<Rightarrow> (nat \<Rightarrow> bool) \<Rightarrow> (nat \<Rightarrow> bool) \<Rightarrow> bbox \<Rightarrow> nat \<Rightarrow> nat \<Rightarrow>
     sspace option option" where
  "ssd_alloc_v1 addr tab0 ss_ok malloc_ok intv_ok bb_domain num_nodes max_versions =
     (if \<not> ss_ok then Some None
      else case dht_alloc malloc_ok tab0 bb_domain num_nodes max_versions of
             Inl _ \<Rightarrow> Some None
           | Inr d \<Rightarrow>
               let md = next_pow_2 (domain_max_dim bb_domain)
               in do {
                 (err, d) \<leftarrow> dht_construct_hash intv_ok md d;
                 if err < 0 then Some None
                 else Some (Some \<lparr>ss_addr = addr, max_dim = md, bpd = compute_bits md, dht = d, ss_rank = 0,
                        ent_self = 0, total_num_bbox = 0, hash_version = ssd_hash_version_v1\<rparr>)
               })"

definition hash_v1 :: "(nat \<Rightarrow> bbox) \<Rightarrow> sspace \<Rightarrow> bbox \<Rightarrow> nat list option" where
  "hash_v1 mem ss bb = do {
     (tab, n) \<leftarrow> bbox_to_intv2 mem bb (max_dim ss);
     if n \<le> length tab
     then Some (filter (\<lambda>k. list_ex (dht_intersect (ent_tab (dht ss) k)) (take n tab))
                  [0..<num_entries (dht ss)])
     else None
   }"

definition ssd_hash_v1 ::
  "(nat \<Rightarrow> bbox) \<Rightarrow> bool \<Rightarrow> sfc_hash_cache list \<Rightarrow> sspace \<Rightarrow> bbox \<Rightarrow>
     (de_ref list \<times> sfc_hash_cache list) option" where
  "ssd_hash_v1 mem malloc_ok l ss bb =
     (let slow = map_option (\<lambda>ks. let de_tab = map (Pair (ss_addr ss)) ks
                                  in (de_tab, snd (sh_add malloc_ok l bb de_tab))) (hash_v1 mem ss bb)
      in case sh_find l bb of
           Some de_tab \<Rightarrow> if length de_tab > 0 then Some (de_tab, l) else slow
         | None \<Rightarrow> slow)"

subsection \<open>Both versions\<close>

text \<open>What an allocation finds in its environment: uninitialised memory and the outcomes of malloc.\<close>

record ss_env =
  e_addr :: nat
  e_dim :: nat
  e_tab :: "nat \<Rightarrow> dht_entry"
  e_mem :: "nat \<Rightarrow> bbox"
  e_ss_ok :: bool
  e_malloc_ok :: "nat \<Rightarrow> bool"
  e_intv_ok :: "nat \<Rightarrow> bool"

definition ssd_alloc ::
  "ss_env \<Rightarrow> bbox \<Rightarrow> nat \<Rightarrow> nat \<Rightarrow> sspace_hash_version \<Rightarrow> sspace option option" where
  "ssd_alloc e bb_domain num_nodes max_versions hv =
     (case hv of
        ssd_hash_version_v1 \<Rightarrow>
          ssd_alloc_v1 (e_addr e) (e_tab e) (e_ss_ok e) (e_malloc_ok e) (e_intv_ok e)
            bb_domain num_nodes max_versions
      | ssd_hash_version_v2 \<Rightarrow>
          ssd_alloc_v2 (e_addr e) (e_dim e) (e_tab e) (e_ss_ok e) (e_malloc_ok e)
            bb_domain num_nodes max_versions
      | unknown_hash_version \<Rightarrow> Some None)"

definition ssd_hash ::
  "(nat \<Rightarrow> bbox) \<Rightarrow> bool \<Rightarrow> sfc_hash_cache list \<Rightarrow> sspace \<Rightarrow> bbox \<Rightarrow>
     (de_ref list \<times> sfc_hash_cache list) option" where
  "ssd_hash mem malloc_ok l ss bb =
     (case hash_version ss of
        ssd_hash_version_v1 \<Rightarrow> ssd_hash_v1 mem malloc_ok l ss bb
      | ssd_hash_version_v2 \<Rightarrow> Some (ssd_hash_v2 malloc_ok l ss bb)
      | unknown_hash_version \<Rightarrow> Some ([], l))"

end
