(* ===== verification/DS_Storage.thy ===== *)
theory DS_Storage
  imports DS_Table
begin

text \<open>
  The local storage of a server (\<open>struct ss_storage\<close>, \<open>ls_alloc\<close> to \<open>ls_find_no_version\<close> in
  src/src/ss_data.c): a table of \<open>size_hash\<close> bins of data objects, the bin of an object being
  its version modulo \<open>size_hash\<close>, newest object first.
  \<^item> \<open>obj_hash i\<close> is the list linked from \<open>ls->obj_hash[i]\<close>; \<open>list_del\<close> unlinks the object of
    the given address wherever it is linked;
  \<^item> \<open>freed\<close> is a ghost log of the objects passed to \<open>obj_data_free\<close>, which makes double frees
    and dangling list members statable.
  Proved: the table invariant of every operation, that it implements the contract of
  \<open>DS_Table\<close>, what each search returns, and that \<open>ls_free\<close> releases every object once.
\<close>

record ss_storage =
  num_obj :: int
  size_hash :: nat
  obj_hash :: "nat \<Rightarrow> obj_data list"
  freed :: "nat list"

text \<open>\<open>None\<close> when malloc fails.\<close>

definition ls_alloc :: "bool \<Rightarrow> nat \<Rightarrow> ss_storage option" where
  "ls_alloc malloc_ok max_versions =
     (if malloc_ok
      then Some \<lparr>num_obj = 0, size_hash = max_versions, obj_hash = (\<lambda>_. []), freed = []\<rparr>
      else None)"

definition obj_data_free :: "ss_storage \<Rightarrow> obj_data \<Rightarrow> ss_storage" where
  "obj_data_free ls od = ls\<lparr>freed := od_addr od # freed ls\<rparr>"

definition ls_remove :: "ss_storage \<Rightarrow> obj_data \<Rightarrow> ss_storage" where
  "ls_remove ls od =
     ls\<lparr>obj_hash := (\<lambda>i. filter (\<lambda>o'. od_addr o' \<noteq> od_addr od) (obj_hash ls i)),
        num_obj := num_obj ls - 1\<rparr>"

definition ls_try_remove_free :: "ss_storage \<Rightarrow> obj_data \<Rightarrow> ss_storage" where
  "ls_try_remove_free ls od =
     (if refcnt od = 0 then obj_data_free (ls_remove ls od) od else ls)"

definition ls_index :: "ss_storage \<Rightarrow> obj_descriptor \<Rightarrow> nat" where
  "ls_index ls odsc = unat (od_version odsc) mod size_hash ls"

definition ls_find_no_version :: "ss_storage \<Rightarrow> obj_descriptor \<Rightarrow> obj_data option" where
  "ls_find_no_version ls odsc =
     find (\<lambda>od. obj_desc_by_name_intersect odsc (obj_desc od)) (obj_hash ls (ls_index ls odsc))"

definition ls_find :: "ss_storage \<Rightarrow> obj_descriptor \<Rightarrow> obj_data option" where
  "ls_find ls odsc =
     find (\<lambda>od. obj_desc_equals_intersect odsc (obj_desc od)) (obj_hash ls (ls_index ls odsc))"

text \<open>Assignment through the pointer to a linked object.\<close>

definition ls_update :: "nat \<Rightarrow> (obj_data \<Rightarrow> obj_data) \<Rightarrow> ss_storage \<Rightarrow> ss_storage" where
  "ls_update a f ls =
     ls\<lparr>obj_hash := (\<lambda>i. map (\<lambda>od. if od_addr od = a then f od else od) (obj_hash ls i))\<rparr>"

definition ls_evict :: "ss_storage \<Rightarrow> obj_descriptor \<Rightarrow> ss_storage" where
  "ls_evict ls odsc =
     (case ls_find_no_version ls odsc of
        None \<Rightarrow> ls
      | Some ex \<Rightarrow>
          let ls1 = ls_update (od_addr ex) (\<lambda>od. od\<lparr>f_free := True\<rparr>) ls in
          if refcnt ex = 0 then obj_data_free (ls_remove ls1 ex) ex else ls1)"

definition ls_link :: "ss_storage \<Rightarrow> obj_data \<Rightarrow> ss_storage" where
  "ls_link ls od =
     ls\<lparr>obj_hash := (obj_hash ls)(ls_index ls (obj_desc od) :=
          od # obj_hash ls (ls_index ls (obj_desc od))),
        num_obj := num_obj ls + 1\<rparr>"

definition ls_add_obj :: "ss_storage \<Rightarrow> obj_data \<Rightarrow> ss_storage" where
  "ls_add_obj ls od = ls_link (ls_evict ls (obj_desc od)) od"

definition ls_objs :: "ss_storage \<Rightarrow> obj_data list" where
  "ls_objs ls = concat (map (obj_hash ls) [0..<size_hash ls])"

definition ls_lookup :: "ss_storage \<Rightarrow> string \<Rightarrow> obj_data option" where
  "ls_lookup ls name = find (\<lambda>od. od_name (obj_desc od) = name) (ls_objs ls)"

definition ls_free_bin :: "nat \<Rightarrow> ss_storage \<Rightarrow> ss_storage" where
  "ls_free_bin i ls = fold (\<lambda>od ls. obj_data_free (ls_remove ls od) od) (obj_hash ls i) ls"

text \<open>The state in which \<open>free(ls)\<close> is called; the error message is printed iff \<open>num_obj \<noteq> 0\<close>.\<close>

definition ls_free :: "ss_storage \<Rightarrow> ss_storage" where
  "ls_free ls = fold ls_free_bin [0..<size_hash ls] ls"

subsection \<open>Search by the next version\<close>

text \<open>
  The two nested loops of \<open>ls_find_next\<close>: \<open>Inl od\<close> is the \<open>return\<close> from inside the loops,
  \<open>Inr (od_next, next_ver)\<close> the state of the local variables when the loop ends.
\<close>

definition INT_MAX :: u32 where
  "INT_MAX = 2147483647"

fun ls_find_next_bin ::
  "obj_descriptor \<Rightarrow> nat \<Rightarrow> obj_data list \<Rightarrow> obj_data option \<times> u32 \<Rightarrow>
     obj_data + obj_data option \<times> u32" where
  "ls_find_next_bin odsc n [] st = Inr st"
| "ls_find_next_bin odsc n (od # ods) (od_next, next_ver) =
     (if obj_desc_by_name_only_intersect odsc (obj_desc od) \<and>
         od_version odsc + 1 \<le> od_version (obj_desc od) \<and> od_version (obj_desc od) < next_ver
      then (if od_version (obj_desc od) \<le> od_version odsc + of_nat n then Inl od
            else ls_find_next_bin odsc n ods (Some od, od_version (obj_desc od)))
      else ls_find_next_bin odsc n ods (od_next, next_ver))"

fun ls_find_next_bins ::
  "ss_storage \<Rightarrow> obj_descriptor \<Rightarrow> nat list \<Rightarrow> obj_data option \<times> u32 \<Rightarrow>
     obj_data + obj_data option \<times> u32" where
  "ls_find_next_bins ls odsc [] st = Inr st"
| "ls_find_next_bins ls odsc (k # ks) st =
     (case ls_find_next_bin odsc (size_hash ls)
             (obj_hash ls (unat (od_version odsc + of_nat k) mod size_hash ls)) st of
        Inl od \<Rightarrow> Inl od
      | Inr st' \<Rightarrow> ls_find_next_bins ls odsc ks st')"

definition ls_find_next :: "ss_storage \<Rightarrow> obj_descriptor \<Rightarrow> obj_data option" where
  "ls_find_next ls odsc =
     (case ls_find_next_bins ls odsc [1..<Suc (size_hash ls)] (None, INT_MAX) of
        Inl od \<Rightarrow> Some od
      | Inr (od_next, _) \<Rightarrow> od_next)"

subsection \<open>Search for the latest version\<close>

text \<open>
  The loop of \<open>ls_find_latest\<close> runs to \<open>index = size_hash\<close>, one bin past the initialised ones;
  \<open>stray\<close> stands for what the uninitialised list head there leads to. The inner condition
  reads \<open>od_next->obj_desc.version\<close> before it tests \<open>!od_next\<close>; the result \<open>None\<close> is the
  dereference of NULL.
\<close>

fun ls_find_latest_bin ::
  "obj_descriptor \<Rightarrow> obj_data list \<Rightarrow> obj_data option \<Rightarrow> obj_data option option" where
  "ls_find_latest_bin odsc [] od_next = Some od_next"
| "ls_find_latest_bin odsc (od # ods) od_next =
     (if obj_desc_by_name_only_intersect odsc (obj_desc od) \<and>
         od_version odsc + 1 \<le> od_version (obj_desc od)
      then (case od_next of
              None \<Rightarrow> None
            | Some nx \<Rightarrow> ls_find_latest_bin odsc ods
                (if od_version (obj_desc nx) < od_version (obj_desc od) then Some od else od_next))
      else ls_find_latest_bin odsc ods od_next)"

definition ls_find_latest ::
  "obj_data list \<Rightarrow> ss_storage \<Rightarrow> obj_descriptor \<Rightarrow> obj_data option option" where
  "ls_find_latest stray ls odsc =
     ls_find_latest_bin odsc (ls_objs ls @ stray) None"

subsection \<open>Invariant\<close>

definition ls_inv :: "ss_storage \<Rightarrow> bool" where
  "ls_inv ls \<longleftrightarrow> 0 < size_hash ls \<and>
     (\<forall>i. \<forall>od\<in>set (obj_hash ls i). ls_index ls (obj_desc od) = i) \<and>
     distinct (map od_addr (ls_objs ls)) \<and> num_obj ls = int (length (ls_objs ls)) \<and>
     distinct (freed ls) \<and> set (freed ls) \<inter> od_addr ` set (ls_objs ls) = {}"

definition ls_addrs :: "ss_storage \<Rightarrow> nat set" where
  "ls_addrs ls = od_addr ` set (ls_objs ls) \<union> set (freed ls)"

subsection \<open>Lemmas on the bins\<close>

lemma mset_concat_upd:
  "i < n \<Longrightarrow> mset (concat (map (f(i := x # f i)) [0..<n])) =
     add_mset x (mset (concat (map f [0..<n])))"
  by (induction n) (auto simp: less_Suc_eq)

lemma mset_filter_key:
  "distinct (map f xs) \<Longrightarrow> x \<in> set xs \<Longrightarrow>
     mset (filter (\<lambda>y. f y \<noteq> f x) xs) = mset xs - {#x#}"
proof (induction xs)
  case (Cons y ys)
  then show ?case
  proof (cases "y = x")
    case True
    then have "f x \<notin> f ` set ys" using Cons.prems by simp
    then have "filter (\<lambda>y. f y \<noteq> f x) ys = ys" by (intro filter_True) (metis imageI)
    then show ?thesis using True by simp
  next
    case False
    then have "x \<in> set ys" "f y \<noteq> f x" using Cons.prems by auto
    then show ?thesis using Cons False by (simp add: add_mset_diff_bothsides)
  qed
qed simp

lemma ls_objs_bin: "i < size_hash ls \<Longrightarrow> set (obj_hash ls i) \<subseteq> set (ls_objs ls)"
  by (auto simp: ls_objs_def)

lemma ls_index_less: "0 < size_hash ls \<Longrightarrow> ls_index ls odsc < size_hash ls"
  by (simp add: ls_index_def)

lemma ls_invD:
  assumes "ls_inv ls"
  shows "0 < size_hash ls" "distinct (map od_addr (ls_objs ls))"
    "num_obj ls = int (length (ls_objs ls))" "distinct (freed ls)"
    "set (freed ls) \<inter> od_addr ` set (ls_objs ls) = {}"
  using assms unfolding ls_inv_def by blast+

lemma ls_inv_obj:
  assumes "ls_inv ls" "od \<in> set (obj_hash ls i)"
  shows "i = ls_index ls (obj_desc od)" "i < size_hash ls" "od \<in> set (ls_objs ls)"
proof -
  show 1: "i = ls_index ls (obj_desc od)" using assms unfolding ls_inv_def by metis
  have "0 < size_hash ls" using assms(1) unfolding ls_inv_def by blast
  then show 2: "i < size_hash ls" unfolding 1 by (rule ls_index_less)
  show "od \<in> set (ls_objs ls)" using ls_objs_bin [OF 2] assms(2) by blast
qed

lemma ls_objs_iff:
  assumes "ls_inv ls"
  shows "od \<in> set (ls_objs ls) \<longleftrightarrow> od \<in> set (obj_hash ls (ls_index ls (obj_desc od)))"
proof
  assume "od \<in> set (ls_objs ls)"
  then obtain i where "od \<in> set (obj_hash ls i)" by (auto simp: ls_objs_def)
  with ls_inv_obj(1) [OF assms this] show "od \<in> set (obj_hash ls (ls_index ls (obj_desc od)))"
    by simp
qed (rule ls_inv_obj(3) [OF assms])

lemma ls_bin_distinct: "ls_inv ls \<Longrightarrow> distinct (map od_addr (obj_hash ls i))"
proof (cases "i < size_hash ls")
  case True
  assume "ls_inv ls"
  then have "distinct (concat (map (map od_addr) (map (obj_hash ls) [0..<size_hash ls])))"
    by (simp add: ls_inv_def ls_objs_def map_concat)
  then show ?thesis using True by (simp add: distinct_concat_iff)
next
  case False
  assume "ls_inv ls"
  then have "obj_hash ls i = []" using False ls_inv_obj(2) by (metis last_in_set)
  then show ?thesis by simp
qed

lemma ls_sel [simp]:
  "size_hash (ls_remove ls od) = size_hash ls"
  "size_hash (obj_data_free ls od) = size_hash ls"
  "size_hash (ls_update a f ls) = size_hash ls"
  "size_hash (ls_link ls od) = size_hash ls"
  "size_hash (ls_evict ls odsc) = size_hash ls"
  "size_hash (ls_add_obj ls od) = size_hash ls"
  "obj_hash (obj_data_free ls od) = obj_hash ls"
  "freed (ls_remove ls od) = freed ls"
  "freed (ls_link ls od) = freed ls"
  "freed (ls_update a f ls) = freed ls"
  "freed (obj_data_free ls od) = od_addr od # freed ls"
  "num_obj (ls_remove ls od) = num_obj ls - 1"
  "num_obj (obj_data_free ls od) = num_obj ls"
  "num_obj (ls_update a f ls) = num_obj ls"
  "num_obj (ls_link ls od) = num_obj ls + 1"
  by (auto simp: ls_remove_def obj_data_free_def ls_update_def ls_link_def ls_evict_def
      ls_add_obj_def Let_def split: option.splits)

lemma obj_hash_sel [simp]:
  "obj_hash (ls_remove ls od) i = filter (\<lambda>o'. od_addr o' \<noteq> od_addr od) (obj_hash ls i)"
  "obj_hash (ls_update a f ls) i = map (\<lambda>od. if od_addr od = a then f od else od) (obj_hash ls i)"
  "obj_hash (ls_link ls od) i =
     (if i = ls_index ls (obj_desc od) then od # obj_hash ls i else obj_hash ls i)"
  by (auto simp: ls_remove_def ls_update_def ls_link_def)

lemma ls_index_sel [simp]:
  "ls_index (ls_remove ls od) = ls_index ls"
  "ls_index (obj_data_free ls od) = ls_index ls"
  "ls_index (ls_update a f ls) = ls_index ls"
  "ls_index (ls_link ls od) = ls_index ls"
  "ls_index (ls_evict ls odsc) = ls_index ls"
  by (auto simp: ls_index_def fun_eq_iff)

lemma ls_objs_remove [simp]:
  "ls_objs (ls_remove ls od) = filter (\<lambda>o'. od_addr o' \<noteq> od_addr od) (ls_objs ls)"
  by (simp add: ls_objs_def ls_remove_def filter_concat comp_def)

lemma ls_objs_free [simp]: "ls_objs (obj_data_free ls od) = ls_objs ls"
  by (simp add: ls_objs_def)

lemma ls_objs_update [simp]:
  "ls_objs (ls_update a f ls) = map (\<lambda>od. if od_addr od = a then f od else od) (ls_objs ls)"
  by (simp add: ls_objs_def ls_update_def map_concat comp_def)

lemma mset_ls_objs_link:
  "0 < size_hash ls \<Longrightarrow> mset (ls_objs (ls_link ls od)) = add_mset od (mset (ls_objs ls))"
  by (simp add: ls_objs_def ls_link_def mset_concat_upd ls_index_less)

subsection \<open>Every operation keeps the invariant\<close>

lemma ls_alloc_inv: "0 < n \<Longrightarrow> ls_alloc True n = Some ls \<Longrightarrow> ls_inv ls"
  by (auto simp: ls_alloc_def ls_inv_def ls_objs_def)

lemma length_filter_key:
  assumes "distinct (map f xs)" "x \<in> set xs"
  shows "Suc (length (filter (\<lambda>y. f y \<noteq> f x) xs)) = length xs"
proof -
  have "length (filter (\<lambda>y. f y \<noteq> f x) xs) = size (mset xs - {#x#})"
    by (metis mset_filter_key [OF assms] size_mset)
  then show ?thesis
    using assms(2) length_pos_if_in_set [OF assms(2)] by (simp add: size_Diff_singleton)
qed

lemma ls_invI:
  assumes "0 < size_hash ls" "\<And>i od. od \<in> set (obj_hash ls i) \<Longrightarrow> ls_index ls (obj_desc od) = i"
    "distinct (map od_addr (ls_objs ls))" "num_obj ls = int (length (ls_objs ls))"
    "distinct (freed ls)" "set (freed ls) \<inter> od_addr ` set (ls_objs ls) = {}"
  shows "ls_inv ls"
  using assms unfolding ls_inv_def by blast

lemma ls_remove_free_inv:
  assumes "ls_inv ls" "od \<in> set (ls_objs ls)"
  shows "ls_inv (obj_data_free (ls_remove ls od) od)"
proof (rule ls_invI)
  note D = ls_invD [OF assms(1)]
  show "0 < size_hash (obj_data_free (ls_remove ls od) od)" using D(1) by simp
  show "distinct (map od_addr (ls_objs (obj_data_free (ls_remove ls od) od)))"
    using D(2) by (simp add: distinct_map_filter)
  show "num_obj (obj_data_free (ls_remove ls od) od) =
      int (length (ls_objs (obj_data_free (ls_remove ls od) od)))"
    using D(3) length_filter_key [OF D(2) assms(2)] by simp
  show "distinct (freed (obj_data_free (ls_remove ls od) od))"
    using D(4,5) assms(2) by auto
  show "set (freed (obj_data_free (ls_remove ls od) od)) \<inter>
      od_addr ` set (ls_objs (obj_data_free (ls_remove ls od) od)) = {}"
    using D(5) by auto
  fix i od' assume "od' \<in> set (obj_hash (obj_data_free (ls_remove ls od) od) i)"
  then have "od' \<in> set (obj_hash ls i)" by simp
  then show "ls_index (obj_data_free (ls_remove ls od) od) (obj_desc od') = i"
    using ls_inv_obj(1) [OF assms(1)] by simp
qed

lemma ls_try_remove_free_inv:
  "ls_inv ls \<Longrightarrow> od \<in> set (ls_objs ls) \<Longrightarrow> ls_inv (ls_try_remove_free ls od)"
  by (simp add: ls_try_remove_free_def ls_remove_free_inv)

text \<open>An assignment to a linked object that keeps its address and descriptor.\<close>

lemma ls_update_inv:
  assumes "ls_inv ls" "\<And>od. od_addr (f od) = od_addr od" "\<And>od. obj_desc (f od) = obj_desc od"
  shows "ls_inv (ls_update a f ls)"
proof (rule ls_invI)
  note D = ls_invD [OF assms(1)]
  have a: "map od_addr (ls_objs (ls_update a f ls)) = map od_addr (ls_objs ls)"
    by (simp add: assms(2))
  then have s: "od_addr ` set (ls_objs (ls_update a f ls)) = od_addr ` set (ls_objs ls)"
    by (metis set_map)
  show "0 < size_hash (ls_update a f ls)" using D(1) by simp
  show "distinct (map od_addr (ls_objs (ls_update a f ls)))" unfolding a by (rule D(2))
  show "num_obj (ls_update a f ls) = int (length (ls_objs (ls_update a f ls)))"
    using D(3) by simp
  show "distinct (freed (ls_update a f ls))" using D(4) by simp
  show "set (freed (ls_update a f ls)) \<inter> od_addr ` set (ls_objs (ls_update a f ls)) = {}"
    unfolding s using D(5) by simp
  fix i od assume "od \<in> set (obj_hash (ls_update a f ls) i)"
  then obtain od' where "od' \<in> set (obj_hash ls i)" "obj_desc od = obj_desc od'"
    by (auto simp: assms(3))
  then show "ls_index (ls_update a f ls) (obj_desc od) = i"
    using ls_inv_obj(1) [OF assms(1)] by simp
qed

lemma ls_link_inv:
  assumes "ls_inv ls" "od_addr od \<notin> ls_addrs ls"
  shows "ls_inv (ls_link ls od)"
proof (rule ls_invI)
  note D = ls_invD [OF assms(1)]
  have m: "mset (ls_objs (ls_link ls od)) = mset (od # ls_objs ls)"
    using mset_ls_objs_link [OF D(1)] by simp
  have s: "set (ls_objs (ls_link ls od)) = set (od # ls_objs ls)" by (rule mset_eq_setD [OF m])
  have md: "mset (map od_addr (ls_objs (ls_link ls od))) = mset (map od_addr (od # ls_objs ls))"
    unfolding mset_map m ..
  show "0 < size_hash (ls_link ls od)" using D(1) by simp
  show "distinct (map od_addr (ls_objs (ls_link ls od)))"
    using mset_eq_imp_distinct_iff [OF md] D(2) assms(2) by (auto simp: ls_addrs_def)
  show "num_obj (ls_link ls od) = int (length (ls_objs (ls_link ls od)))"
    using mset_eq_length [OF m] D(3) by simp
  show "distinct (freed (ls_link ls od))" using D(4) by simp
  show "set (freed (ls_link ls od)) \<inter> od_addr ` set (ls_objs (ls_link ls od)) = {}"
    unfolding s using D(5) assms(2) by (auto simp: ls_addrs_def)
  fix i od' assume "od' \<in> set (obj_hash (ls_link ls od) i)"
  then show "ls_index (ls_link ls od) (obj_desc od') = i"
    using ls_inv_obj(1) [OF assms(1), of od' i] by (auto split: if_splits)
qed

lemma ls_find_no_versionD:
  assumes "ls_find_no_version ls odsc = Some x"
  shows "x \<in> set (obj_hash ls (ls_index ls odsc))" "obj_desc_by_name_intersect odsc (obj_desc x)"
  using assms by (auto simp: ls_find_no_version_def find_Some_iff)

text \<open>What the eviction leaves in each bin.\<close>

lemma ls_evict_None: "ls_find_no_version ls odsc = None \<Longrightarrow> ls_evict ls odsc = ls"
  by (simp add: ls_evict_def)

lemma ls_evict_delayed:
  assumes "ls_find_no_version ls odsc = Some x" "refcnt x \<noteq> 0"
  shows "ls_evict ls odsc = ls_update (od_addr x) (\<lambda>od. od\<lparr>f_free := True\<rparr>) ls"
  using assms by (simp add: ls_evict_def Let_def)

lemma filter_map_update:
  "(\<And>od. od_addr (f od) = od_addr od) \<Longrightarrow>
   filter (\<lambda>o'. od_addr o' \<noteq> a) (map (\<lambda>od. if od_addr od = a then f od else od) xs) =
     filter (\<lambda>o'. od_addr o' \<noteq> a) xs"
  by (induction xs) auto

lemma ls_evict_now:
  assumes "ls_find_no_version ls odsc = Some x" "refcnt x = 0"
  shows "ls_evict ls odsc = obj_data_free (ls_remove ls x) x"
  using assms
  by (simp add: ls_evict_def Let_def ls_remove_def ls_update_def obj_data_free_def
      filter_map_update)

lemma ls_evict_inv:
  assumes "ls_inv ls"
  shows "ls_inv (ls_evict ls odsc)"
proof (cases "ls_find_no_version ls odsc")
  case None
  then show ?thesis using assms by (simp add: ls_evict_None)
next
  case (Some x)
  then have "x \<in> set (ls_objs ls)" using ls_find_no_versionD(1) ls_inv_obj(3) [OF assms] by blast
  then show ?thesis
    using assms Some
    by (cases "refcnt x = 0")
      (simp_all add: ls_evict_now ls_evict_delayed ls_remove_free_inv ls_update_inv)
qed

lemma ls_addrs_update:
  assumes "\<And>od. od_addr (f od) = od_addr od"
  shows "ls_addrs (ls_update a f ls) = ls_addrs ls"
proof -
  have "map od_addr (ls_objs (ls_update a f ls)) = map od_addr (ls_objs ls)"
    by (simp add: assms)
  then have "od_addr ` set (ls_objs (ls_update a f ls)) = od_addr ` set (ls_objs ls)"
    by (metis set_map)
  then show ?thesis unfolding ls_addrs_def by simp
qed

lemma ls_addrs_remove_free:
  "od \<in> set (ls_objs ls) \<Longrightarrow> ls_addrs (obj_data_free (ls_remove ls od) od) = ls_addrs ls"
  by (auto simp: ls_addrs_def)

lemma ls_addrs_evict: "ls_inv ls \<Longrightarrow> ls_addrs (ls_evict ls odsc) = ls_addrs ls"
proof (cases "ls_find_no_version ls odsc")
  case (Some x)
  assume inv: "ls_inv ls"
  then have "x \<in> set (ls_objs ls)" using Some ls_find_no_versionD(1) ls_inv_obj(3) by blast
  then show ?thesis
    using Some
    by (cases "refcnt x = 0")
      (simp_all add: ls_evict_now ls_evict_delayed ls_addrs_remove_free ls_addrs_update)
qed (simp add: ls_evict_None)

lemma ls_add_obj_inv:
  "ls_inv ls \<Longrightarrow> od_addr od \<notin> ls_addrs ls \<Longrightarrow> ls_inv (ls_add_obj ls od)"
  by (simp add: ls_add_obj_def ls_link_inv ls_evict_inv ls_addrs_evict)

lemma ls_addrs_add:
  assumes "ls_inv ls"
  shows "ls_addrs (ls_add_obj ls od) = insert (od_addr od) (ls_addrs ls)"
proof -
  have "0 < size_hash (ls_evict ls (obj_desc od))" using ls_invD(1) [OF assms] by simp
  from mset_eq_setD [OF mset_ls_objs_link [OF this, of od, folded mset.simps(2)]]
  have "ls_addrs (ls_add_obj ls od) = insert (od_addr od) (ls_addrs (ls_evict ls (obj_desc od)))"
    by (auto simp: ls_addrs_def ls_add_obj_def)
  then show ?thesis by (simp add: ls_addrs_evict [OF assms])
qed

subsection \<open>The storage implements the table contract\<close>

definition ls_can_add :: "obj_data \<Rightarrow> ss_storage \<Rightarrow> bool" where
  "ls_can_add od ls \<longleftrightarrow> od_addr od \<notin> ls_addrs ls \<and> (\<forall>x\<in>set (ls_objs ls). refcnt x = 0)"

lemma find_conflict_no_version:
  "find (by_name_conflict obj_desc od) (obj_hash ls (ls_index ls (obj_desc od))) =
     ls_find_no_version ls (obj_desc od)"
  by (simp add: ls_find_no_version_def by_name_conflict_def [abs_def])

lemma ls_evict_bin:
  assumes "ls_inv ls" "\<forall>x\<in>set (ls_objs ls). refcnt x = 0"
  shows "mset (obj_hash (ls_evict ls odsc) i) =
    (case ls_find_no_version ls odsc of
       Some x \<Rightarrow> (if i = ls_index ls odsc then mset (obj_hash ls i) - {#x#} else mset (obj_hash ls i))
     | None \<Rightarrow> mset (obj_hash ls i))"
proof (cases "ls_find_no_version ls odsc")
  case (Some x)
  note x = ls_find_no_versionD [OF Some]
  have "refcnt x = 0" using assms ls_inv_obj(3) [OF assms(1) x(1)] by blast
  then have e: "obj_hash (ls_evict ls odsc) i = filter (\<lambda>o'. od_addr o' \<noteq> od_addr x) (obj_hash ls i)"
    using Some by (simp add: ls_evict_now)
  show ?thesis
  proof (cases "i = ls_index ls odsc")
    case True
    have m: "mset (filter (\<lambda>o'. od_addr o' \<noteq> od_addr x) (obj_hash ls i)) = mset (obj_hash ls i) - {#x#}"
      by (rule mset_filter_key [OF ls_bin_distinct [OF assms(1)]]) (use True x(1) in simp)
    then show ?thesis using True Some unfolding e by simp
  next
    case False
    have "od_addr y \<noteq> od_addr x" if "y \<in> set (obj_hash ls i)" for y
    proof
      assume eq: "od_addr y = od_addr x"
      have "x \<in> set (ls_objs ls)" "y \<in> set (ls_objs ls)"
        using ls_inv_obj(3) [OF assms(1)] x(1) that by blast+
      then have "y = x" using eq ls_invD(2) [OF assms(1)] by (auto simp: distinct_map inj_on_def)
      then show False using False ls_inv_obj(1) [OF assms(1)] x(1) that by metis
    qed
    then have "filter (\<lambda>o'. od_addr o' \<noteq> od_addr x) (obj_hash ls i) = obj_hash ls i"
      by (simp add: filter_id_conv)
    then show ?thesis using False Some e by simp
  qed
qed (simp add: ls_evict_None)

interpretation ls: version_table ls_inv size_hash obj_hash obj_desc ls_can_add
  "\<lambda>od ls. ls_add_obj ls od"
proof
  fix ls od i
  assume inv: "ls_inv ls" and ok: "ls_can_add od ls"
  then have rc: "\<forall>x\<in>set (ls_objs ls). refcnt x = 0" by (simp add: ls_can_add_def)
  show "ls_inv (ls_add_obj ls od)" using inv ok by (simp add: ls_can_add_def ls_add_obj_inv)
  show "obj_hash (ls_add_obj ls od) i = obj_hash ls i"
    if "i \<noteq> unat (od_version (obj_desc od)) mod size_hash ls"
  proof -
    have i: "i \<noteq> ls_index ls (obj_desc od)" using that by (simp add: ls_index_def)
    show ?thesis
    proof (cases "ls_find_no_version ls (obj_desc od)")
      case (Some x)
      have "refcnt x = 0"
        using rc ls_inv_obj(3) [OF inv ls_find_no_versionD(1) [OF Some]] by blast
      have "filter (\<lambda>o'. od_addr o' \<noteq> od_addr x) (obj_hash ls i) = obj_hash ls i"
        using ls_evict_bin [OF inv rc, of "obj_desc od" i] Some i \<open>refcnt x = 0\<close>
        by (simp add: ls_evict_now) (metis filter_True mset_filter set_mset_mset filter_mset_eq_conv)
      then show ?thesis
        using i Some \<open>refcnt x = 0\<close> by (simp add: ls_add_obj_def ls_evict_now)
    qed (use i in \<open>simp add: ls_add_obj_def ls_evict_None\<close>)
  qed
  show "mset (obj_hash (ls_add_obj ls od) i) =
      add_mset od (case find (by_name_conflict obj_desc od) (obj_hash ls i) of
        None \<Rightarrow> mset (obj_hash ls i) | Some x \<Rightarrow> mset (obj_hash ls i) - {#x#})"
    if "i = unat (od_version (obj_desc od)) mod size_hash ls"
  proof -
    have i: "i = ls_index ls (obj_desc od)" using that by (simp add: ls_index_def)
    show ?thesis
      unfolding i find_conflict_no_version using ls_evict_bin [OF inv rc, of "obj_desc od" i] i
      by (simp add: ls_add_obj_def split: option.splits)
  qed
qed simp

subsection \<open>Searches\<close>

text \<open>A new object is first in its bin, hence the answer to every query that touches it.\<close>

lemma ls_find_after_add:
  assumes "obj_desc_equals_intersect q (obj_desc od)"
  shows "ls_find (ls_add_obj ls od) q = Some od"
proof -
  have "ls_index ls q = ls_index ls (obj_desc od)"
    using assms by (simp add: ls_index_def obj_desc_equals_intersect_def)
  then have "ls_index (ls_add_obj ls od) q = ls_index ls (obj_desc od)"
    by (simp add: ls_add_obj_def)
  then show ?thesis using assms by (simp add: ls_find_def ls_add_obj_def)
qed

lemma ls_find_sound:
  assumes "ls_inv ls" "ls_find ls q = Some od"
  shows "od \<in> set (ls_objs ls)" "obj_desc_equals_intersect q (obj_desc od)"
proof -
  have "od \<in> set (obj_hash ls (ls_index ls q))" "obj_desc_equals_intersect q (obj_desc od)"
    using assms(2) by (auto simp: ls_find_def find_Some_iff)
  then show "od \<in> set (ls_objs ls)" "obj_desc_equals_intersect q (obj_desc od)"
    using ls_inv_obj(3) [OF assms(1)] by auto
qed

lemma ls_find_None:
  assumes "ls_inv ls"
  shows "ls_find ls q = None \<longleftrightarrow>
    (\<forall>od\<in>set (ls_objs ls). \<not> obj_desc_equals_intersect q (obj_desc od))"
proof -
  have "ls_index ls q = ls_index ls (obj_desc od)" if "obj_desc_equals_intersect q (obj_desc od)" for od
    using that by (simp add: ls_index_def obj_desc_equals_intersect_def)
  then show ?thesis
    using ls_objs_iff [OF assms] ls_inv_obj(3) [OF assms]
    unfolding ls_find_def find_None_iff by metis
qed

lemma ls_lookup_iff:
  "(\<exists>od. ls_lookup ls name = Some od) \<longleftrightarrow> (\<exists>od\<in>set (ls_objs ls). od_name (obj_desc od) = name)"
  unfolding ls_lookup_def not_None_eq [symmetric] find_None_iff by blast

lemma ls_lookupD:
  "ls_lookup ls name = Some od \<Longrightarrow> od \<in> set (ls_objs ls) \<and> od_name (obj_desc od) = name"
  by (auto simp: ls_lookup_def find_Some_iff)

subsection \<open>Releasing the storage\<close>

lemma fold_remove_free:
  assumes "ls_inv ls" "distinct (map od_addr ods)" "set ods \<subseteq> set (ls_objs ls)"
    and "l' = fold (\<lambda>od ls. obj_data_free (ls_remove ls od) od) ods ls"
  shows "ls_inv l' \<and> size_hash l' = size_hash ls \<and>
    freed l' = rev (map od_addr ods) @ freed ls \<and>
    (\<forall>i. obj_hash l' i = filter (\<lambda>o'. od_addr o' \<notin> od_addr ` set ods) (obj_hash ls i))"
  using assms
proof (induction ods arbitrary: ls)
  case (Cons od ods)
  let ?l = "obj_data_free (ls_remove ls od) od"
  have inv: "ls_inv ?l" using Cons.prems by (simp add: ls_remove_free_inv)
  have d: "distinct (map od_addr ods)" using Cons.prems by simp
  have "od_addr od \<notin> od_addr ` set ods" using Cons.prems(2) by simp
  then have "od_addr o' \<noteq> od_addr od" if "o' \<in> set ods" for o' using that by (metis imageI)
  then have sub: "set ods \<subseteq> set (ls_objs ?l)" using Cons.prems(3) by auto
  have l': "l' = fold (\<lambda>od ls. obj_data_free (ls_remove ls od) od) ods ?l"
    using Cons.prems by simp
  show ?case using Cons.IH [OF inv d sub l'] by (auto intro: filter_cong)
qed auto

lemma ls_free_bin_props:
  assumes "ls_inv ls" "i < size_hash ls"
  shows "ls_inv (ls_free_bin i ls)" "size_hash (ls_free_bin i ls) = size_hash ls"
    "obj_hash (ls_free_bin i ls) i = []"
    "set (obj_hash (ls_free_bin i ls) j) \<subseteq> set (obj_hash ls j)"
    "ls_addrs (ls_free_bin i ls) = ls_addrs ls"
proof -
  have d: "distinct (map od_addr (obj_hash ls i))" by (rule ls_bin_distinct [OF assms(1)])
  have sub: "set (obj_hash ls i) \<subseteq> set (ls_objs ls)" by (rule ls_objs_bin [OF assms(2)])
  note F = fold_remove_free [OF assms(1) d sub, OF ls_free_bin_def]
  show "ls_inv (ls_free_bin i ls)" "size_hash (ls_free_bin i ls) = size_hash ls"
    "obj_hash (ls_free_bin i ls) i = []"
    "set (obj_hash (ls_free_bin i ls) j) \<subseteq> set (obj_hash ls j)"
    using F by (auto simp: filter_empty_conv)
  have "set (ls_objs (ls_free_bin i ls)) =
      {o' \<in> set (ls_objs ls). od_addr o' \<notin> od_addr ` set (obj_hash ls i)}"
    using F by (auto simp: ls_objs_def)
  moreover have "freed (ls_free_bin i ls) = rev (map od_addr (obj_hash ls i)) @ freed ls"
    using F by blast
  ultimately show "ls_addrs (ls_free_bin i ls) = ls_addrs ls"
    unfolding ls_addrs_def using sub by auto
qed

lemma ls_free_loop:
  assumes "ls_inv ls" "n \<le> size_hash ls"
  shows "ls_inv (fold ls_free_bin [0..<n] ls) \<and>
    size_hash (fold ls_free_bin [0..<n] ls) = size_hash ls \<and>
    ls_addrs (fold ls_free_bin [0..<n] ls) = ls_addrs ls \<and>
    (\<forall>j<n. obj_hash (fold ls_free_bin [0..<n] ls) j = [])"
  using assms(2)
proof (induction n)
  case (Suc n)
  let ?l = "fold ls_free_bin [0..<n] ls"
  have IH: "ls_inv ?l" "size_hash ?l = size_hash ls" "ls_addrs ?l = ls_addrs ls"
    "\<forall>j<n. obj_hash ?l j = []"
    using Suc by auto
  then have n: "n < size_hash ?l" using Suc.prems by simp
  note P = ls_free_bin_props [OF IH(1) n]
  have "obj_hash (ls_free_bin n ?l) j = []" if "j < Suc n" for j
    using that P(3) P(4) [of j] IH(4) by (cases "j = n") auto
  then show ?case using P IH by simp
qed (use assms in simp)

lemma ls_free_releases:
  assumes "ls_inv ls"
  shows "ls_objs (ls_free ls) = []" "num_obj (ls_free ls) = 0" "distinct (freed (ls_free ls))"
    "set (freed (ls_free ls)) = ls_addrs ls"
proof -
  have L: "ls_inv (ls_free ls)" "size_hash (ls_free ls) = size_hash ls"
    "ls_addrs (ls_free ls) = ls_addrs ls" "\<forall>j < size_hash ls. obj_hash (ls_free ls) j = []"
    using ls_free_loop [OF assms order_refl] unfolding ls_free_def by blast+
  then show e: "ls_objs (ls_free ls) = []" by (simp add: ls_objs_def)
  show "num_obj (ls_free ls) = 0" "distinct (freed (ls_free ls))"
    using ls_invD(3,4) [OF L(1)] e by auto
  show "set (freed (ls_free ls)) = ls_addrs ls" using L(3) e by (simp add: ls_addrs_def)
qed

subsection \<open>The next version\<close>

definition next_cand :: "obj_descriptor \<Rightarrow> obj_data \<Rightarrow> bool" where
  "next_cand odsc od \<longleftrightarrow> obj_desc_by_name_only_intersect odsc (obj_desc od) \<and>
     od_version odsc + 1 \<le> od_version (obj_desc od)"

text \<open>What the local variables of \<open>ls_find_next\<close> say about the objects \<open>S\<close> seen so far.\<close>

definition next_state ::
  "obj_descriptor \<Rightarrow> nat \<Rightarrow> obj_data set \<Rightarrow> obj_data option \<times> u32 \<Rightarrow> bool" where
  "next_state odsc n S st \<longleftrightarrow>
     (\<forall>x\<in>S. next_cand odsc x \<longrightarrow> snd st \<le> od_version (obj_desc x) \<and>
        od_version odsc + of_nat n < od_version (obj_desc x)) \<and>
     (case fst st of
        None \<Rightarrow> snd st = INT_MAX \<and> (\<forall>x\<in>S. \<not> next_cand odsc x)
      | Some o' \<Rightarrow> o' \<in> S \<and> next_cand odsc o' \<and> snd st = od_version (obj_desc o'))"

lemma ls_find_next_bin_state:
  assumes "next_state odsc n S st" "\<forall>x\<in>set ods. od_version (obj_desc x) < INT_MAX"
  shows "case ls_find_next_bin odsc n ods st of
      Inl od \<Rightarrow> od \<in> set ods \<and> next_cand odsc od \<and>
        od_version (obj_desc od) \<le> od_version odsc + of_nat n
    | Inr st' \<Rightarrow> next_state odsc n (S \<union> set ods) st'"
  using assms
proof (induction ods arbitrary: S st)
  case (Cons od ods)
  obtain on nv where st: "st = (on, nv)" by (cases st)
  let ?v = "od_version (obj_desc od)"
  have lt: "\<forall>x\<in>set ods. od_version (obj_desc x) < INT_MAX" "?v < INT_MAX"
    using Cons.prems(2) by auto
  consider (ret) "next_cand odsc od" "?v < nv" "?v \<le> od_version odsc + of_nat n"
    | (upd) "next_cand odsc od" "?v < nv" "\<not> ?v \<le> od_version odsc + of_nat n"
    | (skip) "\<not> (next_cand odsc od \<and> ?v < nv)" by blast
  then show ?case
  proof cases
    case ret
    then show ?thesis by (simp add: st next_cand_def)
  next
    case upd
    have "next_state odsc n (insert od S) (Some od, ?v)"
      using Cons.prems(1) upd by (fastforce simp: next_state_def st)
    from Cons.IH [OF this lt(1)] show ?thesis
      using upd by (auto simp: st next_cand_def split: sum.splits)
  next
    case skip
    have "next_state odsc n (insert od S) (on, nv)"
    proof (cases "next_cand odsc od")
      case True
      then have nv: "nv \<le> ?v" using skip by simp
      then obtain o' where "on = Some o'"
        using Cons.prems(1) lt(2) by (auto simp: next_state_def st split: option.splits)
      then show ?thesis
        using Cons.prems(1) nv unfolding next_state_def st
        by (auto intro: less_le_trans)
    qed (use Cons.prems(1) in \<open>auto simp: next_state_def st split: option.splits\<close>)
    from Cons.IH [OF this lt(1)] show ?thesis
      using skip by (auto simp: st next_cand_def split: sum.splits)
  qed
qed simp


definition next_bin :: "ss_storage \<Rightarrow> obj_descriptor \<Rightarrow> nat \<Rightarrow> obj_data list" where
  "next_bin ls odsc k = obj_hash ls (unat (od_version odsc + of_nat k) mod size_hash ls)"

lemma ls_find_next_bins_state:
  assumes "next_state odsc (size_hash ls) S st"
    and "\<forall>k\<in>set ks. \<forall>x\<in>set (next_bin ls odsc k). od_version (obj_desc x) < INT_MAX"
  shows "case ls_find_next_bins ls odsc ks st of
      Inl od \<Rightarrow> \<exists>us k vs. ks = us @ k # vs \<and> od \<in> set (next_bin ls odsc k) \<and> next_cand odsc od \<and>
        od_version (obj_desc od) \<le> od_version odsc + of_nat (size_hash ls) \<and>
        (\<forall>j\<in>set us. \<forall>x\<in>set (next_bin ls odsc j). next_cand odsc x \<longrightarrow>
          od_version odsc + of_nat (size_hash ls) < od_version (obj_desc x))
    | Inr st' \<Rightarrow> next_state odsc (size_hash ls) (S \<union> (\<Union>k\<in>set ks. set (next_bin ls odsc k))) st'"
  using assms
proof (induction ks arbitrary: S st)
  case (Cons k ks)
  note B = ls_find_next_bin_state [OF Cons.prems(1), of "next_bin ls odsc k"]
  show ?case
  proof (cases "ls_find_next_bin odsc (size_hash ls) (next_bin ls odsc k) st")
    case (Inl od)
    then have "ls_find_next_bins ls odsc (k # ks) st = Inl od" by (simp add: next_bin_def)
    moreover have "od \<in> set (next_bin ls odsc k) \<and> next_cand odsc od \<and>
        od_version (obj_desc od) \<le> od_version odsc + of_nat (size_hash ls)"
      using B Cons.prems(2) Inl by simp
    ultimately show ?thesis by (force intro: exI [of _ "[]"])
  next
    case (Inr st')
    have e: "ls_find_next_bins ls odsc (k # ks) st = ls_find_next_bins ls odsc ks st'"
      using Inr by (simp add: next_bin_def)
    have J: "next_state odsc (size_hash ls) (S \<union> set (next_bin ls odsc k)) st'"
      using B Cons.prems(2) Inr by simp
    have big: "\<forall>x\<in>set (next_bin ls odsc k). next_cand odsc x \<longrightarrow>
        od_version odsc + of_nat (size_hash ls) < od_version (obj_desc x)"
      using J by (auto simp: next_state_def)
    show ?thesis
    proof (cases "ls_find_next_bins ls odsc ks st'")
      case (Inl od)
      have "case ls_find_next_bins ls odsc ks st' of Inl od \<Rightarrow> \<exists>us k' vs. ks = us @ k' # vs \<and>
          od \<in> set (next_bin ls odsc k') \<and> next_cand odsc od \<and>
          od_version (obj_desc od) \<le> od_version odsc + of_nat (size_hash ls) \<and>
          (\<forall>j\<in>set us. \<forall>x\<in>set (next_bin ls odsc j). next_cand odsc x \<longrightarrow>
            od_version odsc + of_nat (size_hash ls) < od_version (obj_desc x)) | Inr _ \<Rightarrow> True"
        using Cons.IH [OF J] Cons.prems(2) by (auto split: sum.splits)
      then obtain us k' vs where "ks = us @ k' # vs" "od \<in> set (next_bin ls odsc k')"
        "next_cand odsc od" "od_version (obj_desc od) \<le> od_version odsc + of_nat (size_hash ls)"
        "\<forall>j\<in>set us. \<forall>x\<in>set (next_bin ls odsc j). next_cand odsc x \<longrightarrow>
            od_version odsc + of_nat (size_hash ls) < od_version (obj_desc x)"
        using Inl by auto
      then show ?thesis unfolding e Inl using big
        by (auto intro!: exI [of _ "k # us"])
    next
      case (Inr st'')
      then show ?thesis using Cons.IH [OF J] Cons.prems(2) unfolding e by (simp add: Un_assoc)
    qed
  qed
qed simp

lemma next_bin_iff:
  assumes "ls_inv ls" "unat (od_version odsc) + k < 2 ^ 32"
  shows "x \<in> set (next_bin ls odsc k) \<longleftrightarrow> x \<in> set (ls_objs ls) \<and>
    unat (od_version (obj_desc x)) mod size_hash ls = (unat (od_version odsc) + k) mod size_hash ls"
proof -
  have "unat (od_version odsc + of_nat k) = unat (od_version odsc) + k"
    using assms(2) by (simp add: unat_word_ariths unat_of_nat)
  then show ?thesis
    unfolding next_bin_def using ls_objs_iff [OF assms(1)] ls_inv_obj [OF assms(1)]
    by (metis ls_index_def)
qed

text \<open>A version at most \<open>n\<close> ahead is met at exactly its own offset.\<close>

lemma offset_unique:
  assumes "w mod n = (v + k) mod n" "v < w" "w \<le> v + n" "0 < k" "k \<le> n"
  shows "w = v + (k::nat)"
proof -
  define j where "j = w - v"
  have w: "w = v + j" "0 < j" "j \<le> n" using assms(2,3) by (auto simp: j_def)
  have "(v + j) mod n = (v + k) mod n" using assms(1) w(1) by simp
  then have "int n dvd int (v + j) - int (v + k)"
    by (metis mod_eq_dvd_iff of_nat_mod)
  then have d: "int n dvd int j - int k" by simp
  have "int j - int k = 0"
  proof (rule ccontr)
    assume "int j - int k \<noteq> 0"
    then have "int n \<le> \<bar>int j - int k\<bar>" using d by (metis dvd_imp_le_int abs_of_nat)
    moreover have "\<bar>int j - int k\<bar> < int n" using w assms(4,5) by linarith
    ultimately show False by simp
  qed
  then show ?thesis using w(1) by simp
qed

lemma next_cand_nat:
  assumes "unat (od_version odsc) + 1 < 2 ^ 32"
  shows "next_cand odsc x \<longleftrightarrow> od_name odsc = od_name (obj_desc x) \<and>
    unat (od_version odsc) < unat (od_version (obj_desc x))"
proof -
  have "unat (od_version odsc + 1) = unat (od_version odsc) + 1"
    using assms by (simp add: unat_word_ariths)
  then show ?thesis
    by (auto simp: next_cand_def obj_desc_by_name_only_intersect_def word_le_nat_alt)
qed

lemma next_bins_cover:
  assumes "ls_inv ls" "unat (od_version odsc) + size_hash ls < 2 ^ 32" "x \<in> set (ls_objs ls)"
    "unat (od_version odsc) < unat (od_version (obj_desc x))"
  obtains k where "0 < k" "k \<le> size_hash ls" "x \<in> set (next_bin ls odsc k)"
    "unat (od_version (obj_desc x)) \<le> unat (od_version odsc) + size_hash ls \<longrightarrow>
       unat (od_version (obj_desc x)) = unat (od_version odsc) + k"
proof -
  let ?v = "unat (od_version odsc)" and ?w = "unat (od_version (obj_desc x))" and ?n = "size_hash ls"
  have n: "0 < ?n" by (rule ls_invD(1) [OF assms(1)])
  define k where "k = (?w - ?v - 1) mod ?n + 1"
  have k: "0 < k" "k \<le> ?n" using n by (auto simp: k_def Suc_le_eq)
  have "(?v + k) mod ?n = (?v + 1 + (?w - ?v - 1) mod ?n) mod ?n" by (simp add: k_def)
  also have "\<dots> = (?v + 1 + (?w - ?v - 1)) mod ?n" by (rule mod_add_right_eq)
  finally have "(?v + k) mod ?n = (?v + 1 + (?w - ?v - 1)) mod ?n" .
  then have m: "?w mod ?n = (?v + k) mod ?n" using assms(4) by simp
  have "x \<in> set (next_bin ls odsc k)" using next_bin_iff [OF assms(1), of odsc k] assms k m by simp
  moreover have "?w \<le> ?v + ?n \<longrightarrow> ?w = ?v + k" using offset_unique [OF m] assms(4) k by blast
  ultimately show ?thesis using that k by blast
qed

lemma upt_split:
  assumes "[1..<Suc n] = us @ k # vs"
  shows "us = [1..<k]" "0 < k" "k \<le> n"
proof -
  have "k \<in> set [1..<Suc n]" unfolding assms by simp
  then show k: "0 < k" "k \<le> n" by (auto simp del: upt_Suc)
  have l: "length us < length [1..<Suc n]" unfolding assms by simp
  have "k = [1..<Suc n] ! length us" unfolding assms by simp
  then have "k = Suc (length us)" using l by (simp del: upt_Suc)
  moreover have "us = take (length us) [1..<Suc n]" unfolding assms by simp
  moreover have "take (length us) [1..<Suc n] = [1..<1 + length us]"
    by (rule take_upt) (use k calculation in simp)
  ultimately show "us = [1..<k]" by simp
qed

lemma ls_find_next_spec:
  assumes inv: "ls_inv ls" and nv: "unat (od_version odsc) + size_hash ls < 2 ^ 32"
    and small: "\<forall>x\<in>set (ls_objs ls). od_version (obj_desc x) < INT_MAX"
  shows "case ls_find_next ls odsc of
      None \<Rightarrow> \<forall>x\<in>set (ls_objs ls). \<not> next_cand odsc x
    | Some od \<Rightarrow> od \<in> set (ls_objs ls) \<and> next_cand odsc od \<and>
        (\<forall>x\<in>set (ls_objs ls). next_cand odsc x \<longrightarrow> od_version (obj_desc od) \<le> od_version (obj_desc x))"
proof -
  let ?v = "unat (od_version odsc)" and ?n = "size_hash ls"
  have n: "0 < ?n" by (rule ls_invD(1) [OF inv])
  have vn: "unat (od_version odsc + of_nat ?n) = ?v + ?n"
    using nv by (simp add: unat_word_ariths unat_of_nat)
  have nx: "next_cand odsc x \<longleftrightarrow> od_name odsc = od_name (obj_desc x) \<and>
      ?v < unat (od_version (obj_desc x))" for x
    by (rule next_cand_nat) (use nv n in simp)
  have mem: "x \<in> set (ls_objs ls)" if "x \<in> set (next_bin ls odsc k)" for x k
    using that ls_inv_obj(3) [OF inv] unfolding next_bin_def by blast
  have J: "next_state odsc ?n {} (None, INT_MAX)" by (simp add: next_state_def)
  have sm: "\<forall>k\<in>set [1..<Suc ?n]. \<forall>x\<in>set (next_bin ls odsc k). od_version (obj_desc x) < INT_MAX"
    using small mem by blast
  note R = ls_find_next_bins_state [OF J sm]
  show ?thesis
  proof (cases "ls_find_next_bins ls odsc [1..<Suc ?n] (None, INT_MAX)")
    case (Inr st')
    have all: "(\<Union>k\<in>set [1..<Suc ?n]. set (next_bin ls odsc k)) \<supseteq>
        {x\<in>set (ls_objs ls). next_cand odsc x}"
    proof
      fix x assume "x \<in> {x\<in>set (ls_objs ls). next_cand odsc x}"
      then have "x \<in> set (ls_objs ls)" "?v < unat (od_version (obj_desc x))" by (auto simp: nx)
      then obtain k where "0 < k" "k \<le> ?n" "x \<in> set (next_bin ls odsc k)"
        using next_bins_cover [OF inv nv] by blast
      moreover have "k \<in> set [1..<Suc ?n]" using calculation by (simp del: upt_Suc)
      ultimately show "x \<in> (\<Union>k\<in>set [1..<Suc ?n]. set (next_bin ls odsc k))" by blast
    qed
    have S: "next_state odsc ?n (\<Union>k\<in>set [1..<Suc ?n]. set (next_bin ls odsc k)) st'"
      using R Inr by simp
    have e: "ls_find_next ls odsc = fst st'"
      unfolding ls_find_next_def Inr by (simp add: case_prod_beta)
    show ?thesis
    proof (cases "fst st'")
      case None
      then have "\<forall>x\<in>(\<Union>k\<in>set [1..<Suc ?n]. set (next_bin ls odsc k)). \<not> next_cand odsc x"
        using S unfolding next_state_def None option.case by blast
      then show ?thesis unfolding e None option.case using all by blast
    next
      case (Some od)
      then have "od \<in> (\<Union>k\<in>set [1..<Suc ?n]. set (next_bin ls odsc k))" "next_cand odsc od"
        "snd st' = od_version (obj_desc od)"
        "\<forall>x\<in>(\<Union>k\<in>set [1..<Suc ?n]. set (next_bin ls odsc k)). next_cand odsc x \<longrightarrow>
           snd st' \<le> od_version (obj_desc x)"
        using S unfolding next_state_def Some option.case by blast+
      then show ?thesis unfolding e Some option.case using all mem by (metis (no_types, lifting) UN_E mem_Collect_eq subsetD)
    qed
  next
    case (Inl od)
    then obtain us k vs where r: "[1..<Suc ?n] = us @ k # vs" "od \<in> set (next_bin ls odsc k)"
      "next_cand odsc od" "od_version (obj_desc od) \<le> od_version odsc + of_nat ?n"
      "\<forall>j\<in>set us. \<forall>x\<in>set (next_bin ls odsc j). next_cand odsc x \<longrightarrow>
         od_version odsc + of_nat ?n < od_version (obj_desc x)"
      using R unfolding Inl sum.case by blast
    have us: "us = [1..<k]" and k: "0 < k" "k \<le> ?n" using upt_split [OF r(1)] by auto
    have "unat (od_version (obj_desc od)) mod ?n = (?v + k) mod ?n"
      using next_bin_iff [OF inv, of odsc k] r(2) nv k(2) by simp
    moreover have "unat (od_version (obj_desc od)) \<le> ?v + ?n" using r(4) vn by (simp add: word_le_nat_alt)
    ultimately have od: "unat (od_version (obj_desc od)) = ?v + k"
      using offset_unique [of _ ?n ?v k] r(3) nx k by blast
    have "od_version (obj_desc od) \<le> od_version (obj_desc x)"
      if x: "x \<in> set (ls_objs ls)" "next_cand odsc x" for x
    proof (rule ccontr)
      assume "\<not> od_version (obj_desc od) \<le> od_version (obj_desc x)"
      then have lt: "unat (od_version (obj_desc x)) < ?v + k" using od by (simp add: word_le_nat_alt)
      obtain j where j: "0 < j" "x \<in> set (next_bin ls odsc j)"
        "unat (od_version (obj_desc x)) \<le> ?v + ?n \<longrightarrow> unat (od_version (obj_desc x)) = ?v + j"
        using next_bins_cover [OF inv nv x(1)] x(2) nx by blast
      then have "j \<in> set us" using lt k us by auto
      then have "?v + ?n < unat (od_version (obj_desc x))"
        using r(5) j(2) x(2) vn by (simp add: word_less_nat_alt)
      then show False using lt k(2) by simp
    qed
    then show ?thesis using Inl r mem by (simp add: ls_find_next_def)
  qed
qed

subsection \<open>The latest version\<close>

text \<open>\<open>ls_find_latest\<close> reads through \<open>od_next\<close> while it is still NULL at the first match.\<close>

lemma ls_find_latest_bin_None:
  "ls_find_latest_bin odsc ods None = (if \<exists>x\<in>set ods. next_cand odsc x then None else Some None)"
  by (induction ods) (auto simp: next_cand_def)

lemma ls_find_latest_crash:
  "ls_find_latest stray ls odsc =
     (if \<exists>x\<in>set (ls_objs ls @ stray). next_cand odsc x then None else Some None)"
  unfolding ls_find_latest_def by (rule ls_find_latest_bin_None)

subsection \<open>Reachable storages\<close>

text \<open>
  What the server does with its storage: objects are added with fresh addresses, removed when
  no transfer refers to them, and their reference counts change while transfers are running.
\<close>

inductive ls_reach :: "ss_storage \<Rightarrow> bool" where
  alloc: "0 < n \<Longrightarrow> ls_alloc True n = Some ls \<Longrightarrow> ls_reach ls"
| add: "ls_reach ls \<Longrightarrow> od_addr od \<notin> ls_addrs ls \<Longrightarrow> ls_reach (ls_add_obj ls od)"
| remove: "ls_reach ls \<Longrightarrow> od \<in> set (ls_objs ls) \<Longrightarrow> ls_reach (ls_try_remove_free ls od)"
| refcount: "ls_reach ls \<Longrightarrow> ls_reach (ls_update a (\<lambda>od. od\<lparr>refcnt := r\<rparr>) ls)"

lemma ls_reach_inv: "ls_reach ls \<Longrightarrow> ls_inv ls"
  by (induction rule: ls_reach.induct)
    (simp_all add: ls_alloc_inv ls_add_obj_inv ls_try_remove_free_inv ls_update_inv)

lemma ls_puts_ok:
  assumes "ls_inv ls" "distinct (map od_addr es)" "od_addr ` set es \<inter> ls_addrs ls = {}"
    and "\<forall>x\<in>set es \<union> set (ls_objs ls). refcnt x = 0"
  shows "puts_ok ls_can_add (\<lambda>od ls. ls_add_obj ls od) es ls"
  using assms
proof (induction es arbitrary: ls)
  case (Cons e es)
  let ?l = "ls_add_obj ls e"
  have can: "ls_can_add e ls" using Cons.prems by (auto simp: ls_can_add_def)
  have inv: "ls_inv ?l" using Cons.prems by (auto intro: ls_add_obj_inv)
  have mem: "x = e \<or> x \<in> set (obj_hash ls i)" if "x \<in> set (obj_hash ?l i)" for x i
  proof -
    have "x = e \<or> x \<in> set (obj_hash (ls_evict ls (obj_desc e)) i)"
      using that by (auto simp: ls_add_obj_def split: if_splits)
    moreover have "set (obj_hash (ls_evict ls (obj_desc e)) i) \<subseteq> set (obj_hash ls i)"
      using ls_evict_bin [OF Cons.prems(1), of "obj_desc e" i] Cons.prems(4)
      by (auto simp flip: set_mset_mset split: option.splits if_splits dest: in_diffD)
    ultimately show ?thesis by blast
  qed
  then have objs: "set (ls_objs ?l) \<subseteq> insert e (set (ls_objs ls))" by (auto simp: ls_objs_def)
  have "ls_addrs ?l = insert (od_addr e) (ls_addrs ls)" by (rule ls_addrs_add [OF Cons.prems(1)])
  then have "puts_ok ls_can_add (\<lambda>od ls. ls_add_obj ls od) es ?l"
    using Cons.prems(2-4) objs by (intro Cons.IH inv) auto
  then show ?case using can by simp
qed simp

subsection \<open>Properties\<close>

text \<open>C18: in every state the server can bring its storage into, \<open>ls_free\<close> unlinks every object,
  brings \<open>num_obj\<close> back to zero (so that it prints no error) and has released every object ever
  added exactly once.\<close>

theorem ls_free_releases_once:
  assumes "ls_reach ls"
  shows "ls_objs (ls_free ls) = [] \<and> num_obj (ls_free ls) = 0 \<and> distinct (freed (ls_free ls)) \<and>
    set (freed (ls_free ls)) = ls_addrs ls"
  using ls_free_releases [OF ls_reach_inv [OF assms]] by simp

abbreviation cell_desc :: "string \<Rightarrow> u32 \<Rightarrow> u64 \<Rightarrow> u64 \<Rightarrow> obj_descriptor" where
  "cell_desc name v l u \<equiv> \<lparr>od_name = name, od_st = column_major, od_owner = 0, od_version = v,
     od_bb = \<lparr>num_dims = 1, lb = vec [l], ub = vec [u]\<rparr>, od_size = 8\<rparr>"

abbreviation cell_obj :: "nat \<Rightarrow> string \<Rightarrow> u32 \<Rightarrow> u64 \<Rightarrow> u64 \<Rightarrow> obj_data" where
  "cell_obj a name v l u \<equiv> \<lparr>od_addr = a, obj_desc = cell_desc name v l u, od_gdim = gdim_zero,
     data = (\<lambda>_. 0), own_data = True, obj_ref = None, refcnt = 0, f_free = False\<rparr>"

abbreviation ls_fresh :: "nat \<Rightarrow> ss_storage" where
  "ls_fresh n \<equiv> \<lparr>num_obj = 0, size_hash = n, obj_hash = (\<lambda>_. []), freed = []\<rparr>"

theorem ls_free_releases_once_witness:
  "ls_reach (ls_add_obj (ls_fresh 2) (cell_obj 1 ''v'' 0 0 9)) \<and>
   num_obj (ls_free (ls_add_obj (ls_fresh 2) (cell_obj 1 ''v'' 0 0 9))) = 0"
proof -
  have "ls_reach (ls_fresh 2)" by (rule ls_reach.alloc [of 2]) (auto simp: ls_alloc_def)
  then have "ls_reach (ls_add_obj (ls_fresh 2) (cell_obj 1 ''v'' 0 0 9))"
    by (rule ls_reach.add) (simp add: ls_addrs_def ls_objs_def)
  then show ?thesis using ls_free_releases_once by blast
qed

text \<open>C19: newest first: after an object is added, \<open>ls_find\<close> answers every query with the same
  name and version whose box meets the box of the object with that very object, whatever was
  stored before.\<close>

theorem ls_find_newest:
  assumes "od_name q = od_name (obj_desc od)" "od_version q = od_version (obj_desc od)"
    and "num_dims (od_bb q) = num_dims (od_bb (obj_desc od))"
    and "in_bbox (od_bb q) x" "in_bbox (od_bb (obj_desc od)) x"
  shows "ls_find (ls_add_obj ls od) q = Some od"
  using assms by (intro ls_find_after_add) (auto simp: obj_desc_equals_intersect_def bbox_does_intersectI)

theorem ls_find_newest_witness:
  "ls_find (ls_add_obj (ls_fresh 2) (cell_obj 1 ''v'' 4 0 9)) (cell_desc ''v'' 4 9 20) =
     Some (cell_obj 1 ''v'' 4 0 9)"
  by (rule ls_find_newest [of _ _ "vec [9]"]) (auto simp: in_bbox_def all_less_numeral)

text \<open>C6: the server keeps the last \<open>max_versions\<close> versions of a variable and no others: when the
  versions \<open>0 .. k-1\<close> of one box have been added in order, the objects of the storage are
  exactly those of the versions \<open>v\<close> with \<open>k - max_versions \<le> v\<close>.\<close>

theorem ls_keeps_last_versions:
  assumes "0 < n" "ls_alloc True n = Some ls" "k \<le> 2 ^ 32" "bbox_wf (od_bb d)"
    and "\<forall>v<k. obj_desc (e v) = d\<lparr>od_version := of_nat v\<rparr> \<and> refcnt (e v) = 0"
    and "inj_on (\<lambda>v. od_addr (e v)) {..<k}"
  shows "x \<in> set (ls_objs (fold (\<lambda>od ls. ls_add_obj ls od) (map e [0..<k]) ls)) \<longleftrightarrow>
    (\<exists>v<k. k \<le> v + n \<and> x = e v)"
proof -
  have ls: "ls_inv ls" "size_hash ls = n" "obj_hash ls = (\<lambda>_. [])" "ls_addrs ls = {}" "ls_objs ls = []"
    using assms(1,2) ls_alloc_inv by (auto simp: ls_alloc_def ls_addrs_def ls_objs_def)
  have d: "distinct (map od_addr (map e [0..<k]))"
    using assms(6) by (simp add: distinct_map comp_def lessThan_atLeast0 inj_on_def)
  have ok: "puts_ok ls_can_add (\<lambda>od ls. ls_add_obj ls od) (map e [0..<k]) ls"
    using ls assms(5) by (intro ls_puts_ok d) auto
  let ?f = "fold (\<lambda>od ls. ls_add_obj ls od) (map e [0..<k]) ls"
  have inv: "ls_inv ?f" by (rule ls.puts_inv [OF ls(1) ok])
  have size: "size_hash (fold (\<lambda>od ls. ls_add_obj ls od) es l) = size_hash l" for es l
    by (induction es arbitrary: l) auto
  have K: "x \<in> set (obj_hash ?f i) \<longleftrightarrow> (\<exists>v<k. k \<le> v + n \<and> v mod n = i \<and> x = e v)" for i
    using ls.keeps_last_versions [OF ls(1) ok, of d x i] ls assms by auto
  show ?thesis
  proof
    assume "x \<in> set (ls_objs ?f)"
    then show "\<exists>v<k. k \<le> v + n \<and> x = e v" unfolding ls_objs_iff [OF inv] K by blast
  next
    assume "\<exists>v<k. k \<le> v + n \<and> x = e v"
    then obtain v where "x \<in> set (obj_hash ?f (v mod n))" using K by blast
    then show "x \<in> set (ls_objs ?f)" by (rule ls_inv_obj(3) [OF inv])
  qed
qed

theorem ls_keeps_last_versions_witness:
  "cell_obj 2 ''v'' 2 0 9 \<in> set (ls_objs (fold (\<lambda>od ls. ls_add_obj ls od)
      (map (\<lambda>v. cell_obj v ''v'' (of_nat v) 0 9) [0..<3]) (ls_fresh 2)))"
proof -
  have "\<exists>v<3. 3 \<le> v + 2 \<and> cell_obj 2 ''v'' 2 0 9 = cell_obj v ''v'' (of_nat v) 0 9"
    by (intro exI [of _ 2]) simp
  then show ?thesis
    by (subst ls_keeps_last_versions [of 2 _ 3 "cell_desc ''v'' 0 0 9"])
      (auto simp: ls_alloc_def bbox_wf_def all_less_numeral inj_on_def)
qed

text \<open>C17: \<open>ls_find_next\<close> returns an object of the same name with the least stored version above the
  given one, and NULL exactly when there is none, provided versions stay below \<open>INT_MAX\<close>.\<close>

theorem ls_find_next_least:
  assumes "ls_reach ls" "unat (od_version q) + size_hash ls < 2 ^ 32"
    and "\<forall>x\<in>set (ls_objs ls). od_version (obj_desc x) < INT_MAX"
  shows "case ls_find_next ls q of
      None \<Rightarrow> \<forall>x\<in>set (ls_objs ls). od_name (obj_desc x) = od_name q \<longrightarrow>
        od_version (obj_desc x) \<le> od_version q
    | Some od \<Rightarrow> od \<in> set (ls_objs ls) \<and> od_name (obj_desc od) = od_name q \<and>
        od_version q < od_version (obj_desc od) \<and>
        (\<forall>x\<in>set (ls_objs ls). od_name (obj_desc x) = od_name q \<and>
           od_version q < od_version (obj_desc x) \<longrightarrow>
           od_version (obj_desc od) \<le> od_version (obj_desc x))"
proof -
  have inv: "ls_inv ls" by (rule ls_reach_inv [OF assms(1)])
  have "unat (od_version q) + 1 < 2 ^ 32" using assms(2) ls_invD(1) [OF inv] by simp
  then have "next_cand q x \<longleftrightarrow> od_name (obj_desc x) = od_name q \<and>
      od_version q < od_version (obj_desc x)" for x
    by (auto simp: next_cand_nat word_less_nat_alt)
  then show ?thesis
    using ls_find_next_spec [OF inv assms(2,3)] by (auto split: option.splits simp: not_less)
qed

theorem ls_find_next_least_witness:
  "case ls_find_next (ls_add_obj (ls_fresh 2) (cell_obj 1 ''v'' 7 0 9)) (cell_desc ''v'' 3 0 0) of
     None \<Rightarrow> False | Some od \<Rightarrow> od_version (obj_desc od) = 7"
proof -
  let ?ls = "ls_add_obj (ls_fresh 2) (cell_obj 1 ''v'' 7 0 9)"
  have objs: "ls_objs ?ls = [cell_obj 1 ''v'' 7 0 9]"
    by (simp add: ls_objs_def ls_add_obj_def ls_evict_def ls_find_no_version_def ls_link_def
        ls_index_def upt_rec)
  have "ls_reach (ls_fresh 2)" by (rule ls_reach.alloc [of 2]) (auto simp: ls_alloc_def)
  then have "ls_reach ?ls" by (rule ls_reach.add) (simp add: ls_addrs_def ls_objs_def)
  then show ?thesis
    using ls_find_next_least [of ?ls "cell_desc ''v'' 3 0 0"] objs
    by (auto simp: INT_MAX_def split: option.splits)
qed

text \<open>C32: \<open>ls_find_latest\<close> never finds anything: as soon as the storage (or the stray list head one
  bin past its end) holds an object of the queried name with a later version, the first such
  object makes it dereference the NULL pointer \<open>od_next\<close>.\<close>

theorem ls_find_latest_null_dereference:
  "ls_find_latest stray ls q =
     (if \<exists>x\<in>set (ls_objs ls @ stray). od_name q = od_name (obj_desc x) \<and>
          od_version q + 1 \<le> od_version (obj_desc x)
      then None else Some None)"
  using ls_find_latest_crash [of stray ls q]
  by (simp add: next_cand_def obj_desc_by_name_only_intersect_def)

end
