(* ===== verification/DS_Matrix.thy ===== *)
theory DS_Matrix
  imports DS_Objects
begin

text \<open>
  Copying the common part of two data objects (\<open>matrix_init\<close>, \<open>matrix_copy\<close>, \<open>ssd_copy\<close>,
  \<open>ssd_copy_list\<close> in src/src/ss_data.c). A matrix is an array of elements of \<open>size_elem\<close> bytes,
  dimension 0 varying fastest; \<open>matrix_copy\<close> runs one loop per dimension and copies rows with
  memcpy. The nest of loops entered by goto is the recursion \<open>matrix_copy_level\<close>: level \<open>k\<close> is
  the loop labelled \<open>dim(k+1)\<close>, which runs over index \<open>k\<close>. All index arithmetic is on 64-bit
  words; an endless loop is the result \<open>None\<close>.
\<close>

record matrix_desc =
  dist :: coord
  m_num_dims :: nat
  size_elem :: u64
  mat_storage :: storage_type
  mv_lb :: coord
  mv_ub :: coord

definition matrix_init :: "storage_type \<Rightarrow> bbox \<Rightarrow> bbox \<Rightarrow> u64 \<Rightarrow> matrix_desc" where
  "matrix_init st bb_glb bb_loc se =
     (let n = num_dims bb_glb in
      \<lparr>dist = (\<lambda>i. if i < n then bbox_dist bb_glb i else 0),
       m_num_dims = n, size_elem = se, mat_storage = st,
       mv_lb = (\<lambda>i. if i < n then lb bb_loc i - lb bb_glb i else 0),
       mv_ub = (\<lambda>i. if i < n then ub bb_loc i - lb bb_glb i else 0)\<rparr>)"

text \<open>\<open>for (a = la, b = lb; a <= ua; a++, b++)\<close>; the state of the loop is \<open>b\<close> and the array \<open>A\<close>.\<close>

definition for2 ::
  "u64 \<Rightarrow> u64 \<Rightarrow> u64 \<Rightarrow> (u64 \<Rightarrow> u64 \<Rightarrow> 's \<Rightarrow> 's option) \<Rightarrow> 's \<Rightarrow> 's option" where
  "for2 la lb0 ua f s =
     map_option snd
       (for_u64 la ua (\<lambda>a (b, s). map_option (\<lambda>s'. (b + 1, s')) (f a b s)) (lb0, s))"

fun matrix_copy_level ::
  "matrix_desc \<Rightarrow> matrix_desc \<Rightarrow> (nat \<Rightarrow> byte) \<Rightarrow> nat \<Rightarrow> u64 \<Rightarrow> u64 \<Rightarrow> (nat \<Rightarrow> byte) \<Rightarrow> (nat \<Rightarrow> byte) option"
where
  "matrix_copy_level a b B 0 aloc1 bloc1 A =
     (let numelem = mv_ub a 0 - mv_lb a 0 + 1;
          aloc = aloc1 + mv_lb a 0;
          bloc = bloc1 + mv_lb b 0
      in Some (memcpy A (unat (aloc * size_elem a)) B (unat (bloc * size_elem a))
                 (unat (size_elem a * numelem))))"
| "matrix_copy_level a b B (Suc k) aloc' bloc' A =
     for2 (mv_lb a (Suc k)) (mv_lb b (Suc k)) (mv_ub a (Suc k))
       (\<lambda>ak bk. matrix_copy_level a b B k ((aloc' + ak) * dist a k) ((bloc' + bk) * dist b k)) A"

text \<open>
  One to nine dimensions enter the nest at their own label; ten dimensions, and every other
  value, start at \<open>dim10\<close>, whose body computes \<open>bloc9\<close> from \<open>a9\<close>.
\<close>

definition matrix_copy ::
  "matrix_desc \<Rightarrow> (nat \<Rightarrow> byte) \<Rightarrow> matrix_desc \<Rightarrow> (nat \<Rightarrow> byte) \<Rightarrow> (nat \<Rightarrow> byte) option" where
  "matrix_copy a A b B =
     (if 1 \<le> m_num_dims a \<and> m_num_dims a \<le> 9
      then matrix_copy_level a b B (m_num_dims a - 1) 0 0 A
      else for2 (mv_lb a 9) (mv_lb b 9) (mv_ub a 9)
             (\<lambda>a9 b9. matrix_copy_level a b B 8 (a9 * dist a 8) (a9 * dist b 8)) A)"

text \<open>\<open>bbcom\<close> is an uninitialised local before \<open>bbox_intersect\<close> fills it.\<close>

definition ssd_copy :: "bbox \<Rightarrow> obj_data \<Rightarrow> obj_data \<Rightarrow> obj_data option" where
  "ssd_copy bbcom0 to_obj from_obj =
     (let to_d = obj_desc to_obj; from_d = obj_desc from_obj;
          bbcom = bbox_intersect (od_bb to_d) (od_bb from_d) bbcom0;
          from_mat = matrix_init (od_st from_d) (od_bb from_d) bbcom (od_size from_d);
          to_mat = matrix_init (od_st to_d) (od_bb to_d) bbcom (od_size to_d)
      in map_option (\<lambda>A. to_obj\<lparr>data := A\<rparr>)
           (matrix_copy to_mat (data to_obj) from_mat (data from_obj)))"

definition ssd_copy_list :: "bbox \<Rightarrow> obj_data \<Rightarrow> obj_data list \<Rightarrow> obj_data option" where
  "ssd_copy_list bbcom0 to_obj od_list = foldM (\<lambda>from_obj t. ssd_copy bbcom0 t from_obj) od_list to_obj"

text \<open>The shared-memory variant copies the second half of every group of \<open>2 * nums\<close> objects.\<close>

definition ssd_copy_list_shmem :: "bbox \<Rightarrow> obj_data \<Rightarrow> obj_data list \<Rightarrow> nat \<Rightarrow> obj_data option" where
  "ssd_copy_list_shmem bbcom0 to_obj od_list nums =
     foldM (\<lambda>(i, from_obj) t. if i mod (nums * 2) \<ge> nums then ssd_copy bbcom0 t from_obj else Some t)
       (enumerate 0 od_list) to_obj"

text \<open>
  \<open>obj_data_alloc_with_data_split\<close>: allocate and copy the part of \<open>src\<close>, which is laid out as
  \<open>odsc_big\<close>, that falls into the new object.
\<close>

definition obj_data_alloc_with_data_split ::
  "bbox \<Rightarrow> nat option \<Rightarrow> (nat \<Rightarrow> byte) option \<Rightarrow> obj_descriptor \<Rightarrow> (nat \<Rightarrow> byte) \<Rightarrow> obj_descriptor \<Rightarrow>
     obj_data option option" where
  "obj_data_alloc_with_data_split bbcom0 p buf odsc src odsc_big =
     (case obj_data_alloc p buf odsc of
        None \<Rightarrow> Some None
      | Some od \<Rightarrow>
          let bbcom = bbox_intersect (od_bb (obj_desc od)) (od_bb odsc_big) bbcom0;
              from_mat = matrix_init (od_st odsc) (od_bb odsc_big) bbcom (od_size odsc);
              to_mat = matrix_init (od_st odsc) (od_bb (obj_desc od)) bbcom (od_size odsc)
          in map_option (\<lambda>A. Some (od\<lparr>data := A\<rparr>)) (matrix_copy to_mat (data od) from_mat src))"

subsection \<open>Loops\<close>

lemma for_u64_inv:
  assumes "unat hi < 2 ^ 64 - 1" "I (unat lo) s" "unat lo \<le> Suc (unat hi)"
    and "\<And>i s. lo \<le> i \<Longrightarrow> i \<le> hi \<Longrightarrow> I (unat i) s \<Longrightarrow> \<exists>s'. f i s = Some s' \<and> I (Suc (unat i)) s'"
  shows "\<exists>s'. for_u64 lo hi f s = Some s' \<and> I (Suc (unat hi)) s'"
  using assms(2-4)
proof (induction "Suc (unat hi) - unat lo" arbitrary: lo s)
  case 0
  then have "\<not> lo \<le> hi" "unat lo = Suc (unat hi)" by (auto simp: u64_le_nat)
  then show ?case using 0 by (subst for_u64.simps) simp
next
  case (Suc d)
  then have le: "lo \<le> hi" by (simp add: u64_le_nat)
  then obtain s1 where s1: "f lo s = Some s1" "I (Suc (unat lo)) s1" using Suc.prems(1,3) by blast
  have u: "unat (lo + 1) = Suc (unat lo)"
    using le assms(1) by (subst unat_add_u64) (auto simp: u64_le_nat)
  have "\<exists>s'. for_u64 (lo + 1) hi f s1 = Some s' \<and> I (Suc (unat hi)) s'"
  proof (rule Suc.hyps(1))
    show "d = Suc (unat hi) - unat (lo + 1)" using Suc.hyps(2) u by simp
    show "I (unat (lo + 1)) s1" using s1 u by simp
    show "unat (lo + 1) \<le> Suc (unat hi)" using le u by (simp add: u64_le_nat)
    show "\<exists>s'. f i s = Some s' \<and> I (Suc (unat i)) s'" if "lo + 1 \<le> i" "i \<le> hi" "I (unat i) s" for i s
      using Suc.prems(3) [of i s] that u by (simp add: u64_le_nat)
  qed
  then show ?case using le s1 by (subst for_u64.simps) simp
qed

lemma for2_inv:
  assumes "unat ua < 2 ^ 64 - 1" "I (unat la) s" "unat la \<le> Suc (unat ua)"
    and "unat lb0 + (unat ua - unat la) < 2 ^ 64 - 1"
    and "\<And>i (b :: u64) s. la \<le> i \<Longrightarrow> i \<le> ua \<Longrightarrow> unat b = unat lb0 + (unat i - unat la) \<Longrightarrow> I (unat i) s \<Longrightarrow>
      \<exists>s'. f i b s = Some s' \<and> I (Suc (unat i)) s'"
  shows "\<exists>s'. for2 la lb0 ua f s = Some s' \<and> I (Suc (unat ua)) s'"
proof -
  let ?I = "\<lambda>n (b :: u64, s). (n \<le> Suc (unat ua) \<longrightarrow> unat b = unat lb0 + (n - unat la)) \<and> I n s"
  have "\<exists>bs'. for_u64 la ua (\<lambda>a (b, s). map_option (\<lambda>s'. (b + 1, s')) (f a b s)) (lb0, s) = Some bs' \<and>
      ?I (Suc (unat ua)) bs'"
  proof (rule for_u64_inv [where I = ?I])
    fix i bs assume i: "la \<le> i" "i \<le> ua" "?I (unat i) bs"
    obtain b s where bs: "bs = (b, s)" by (cases bs)
    have b: "unat b = unat lb0 + (unat i - unat la)" "I (unat i) s"
      using i bs by (auto simp: u64_le_nat)
    obtain s' where s': "f i b s = Some s'" "I (Suc (unat i)) s'" using assms(5) i b by blast
    have "unat (b + 1) = unat b + 1"
      using b assms(4) i by (subst unat_add_u64) (auto simp: u64_le_nat)
    then show "\<exists>s'. (case bs of (b, s) \<Rightarrow> map_option (\<lambda>s'. (b + 1, s')) (f i b s)) = Some s' \<and>
        ?I (Suc (unat i)) s'"
      using s' b i by (auto simp: bs u64_le_nat)
  qed (use assms in auto)
  then show ?thesis by (auto simp: for2_def)
qed

subsection \<open>Index arithmetic\<close>

text \<open>Weight of an index and position of an element, dimension 0 fastest.\<close>

definition mweight :: "(nat \<Rightarrow> nat) \<Rightarrow> nat \<Rightarrow> nat" where
  "mweight d k = (\<Prod>i<k. d i)"

definition mindex :: "(nat \<Rightarrow> nat) \<Rightarrow> nat \<Rightarrow> (nat \<Rightarrow> nat) \<Rightarrow> nat" where
  "mindex d k x = (\<Sum>i<k. x i * mweight d i)"

lemma mweight_Suc [simp]: "mweight d (Suc k) = d k * mweight d k"
  by (simp add: mweight_def mult.commute)

lemma mweight_0 [simp]: "mweight d 0 = 1"
  by (simp add: mweight_def)

lemma mindex_Suc [simp]: "mindex d (Suc k) x = mindex d k x + x k * mweight d k"
  by (simp add: mindex_def)

lemma mindex_0 [simp]: "mindex d 0 x = 0"
  by (simp add: mindex_def)

lemma mindex_cong: "(\<And>i. i < k \<Longrightarrow> x i = y i) \<Longrightarrow> mindex d k x = mindex d k y"
  by (simp add: mindex_def)

lemma mindex_less: "\<forall>i<k. x i < d i \<Longrightarrow> mindex d k x < mweight d k"
proof (induction k)
  case (Suc k)
  then have "mindex d (Suc k) x < mweight d k + x k * mweight d k" by simp
  also have "\<dots> = (x k + 1) * mweight d k" by simp
  also have "\<dots> \<le> d k * mweight d k" using Suc.prems by (intro mult_right_mono) auto
  finally show ?case by simp
qed simp

lemma mindex_inj:
  assumes "\<forall>i<k. x i < d i" "\<forall>i<k. y i < d i" "mindex d k x = mindex d k y" "i < k"
  shows "x i = y i"
  using assms
proof (induction k arbitrary: i)
  case (Suc k)
  have x: "mindex d k x < mweight d k" and y: "mindex d k y < mweight d k"
    using Suc.prems by (auto intro: mindex_less)
  have "x k = mindex d (Suc k) x div mweight d k" "y k = mindex d (Suc k) y div mweight d k"
    using x y by auto
  then have k: "x k = y k" using Suc.prems(3) by simp
  then have "mindex d k x = mindex d k y" using Suc.prems(3) by simp
  then show ?case using Suc k by (auto simp: less_Suc_eq)
qed simp

subsection \<open>What a copy does\<close>

text \<open>
  \<open>copied V ia ib\<close>: the elements at positions \<open>ia x\<close>, for \<open>x\<close> in \<open>V\<close>, hold the source elements
  \<open>ib x\<close>; every other byte is unchanged.
\<close>

definition copied ::
  "nat \<Rightarrow> 'x set \<Rightarrow> ('x \<Rightarrow> nat) \<Rightarrow> ('x \<Rightarrow> nat) \<Rightarrow> (nat \<Rightarrow> byte) \<Rightarrow> (nat \<Rightarrow> byte) \<Rightarrow> (nat \<Rightarrow> byte) \<Rightarrow> bool" where
  "copied se V ia ib B A A' \<longleftrightarrow>
     (\<forall>x\<in>V. \<forall>t < se. A' (se * ia x + t) = B (se * ib x + t)) \<and>
     (\<forall>p. (\<forall>x\<in>V. \<forall>t < se. p \<noteq> se * ia x + t) \<longrightarrow> A' p = A p)"

lemma elem_pos_inj: "t < se \<Longrightarrow> u < se \<Longrightarrow> se * i + t = se * j + u \<Longrightarrow> i = (j :: nat)"
proof -
  assume a: "t < se" "u < se" "se * i + t = se * j + u"
  have "(se * i + t) div se = i" "(se * j + u) div se = j" using a(1,2) by auto
  then show ?thesis using a(3) by simp
qed

lemma copied_empty: "copied se {} ia ib B A A"
  by (simp add: copied_def)

lemma copied_Un:
  assumes "copied se V ia ib B A A1" "copied se W ia ib B A1 A2"
    and "\<And>x y. x \<in> V \<Longrightarrow> y \<in> W \<Longrightarrow> ia x \<noteq> ia y"
  shows "copied se (V \<union> W) ia ib B A A2"
proof -
  have "A2 (se * ia x + t) = B (se * ib x + t)" if "x \<in> V" "t < se" for x t
  proof -
    have "\<forall>y\<in>W. \<forall>u < se. se * ia x + t \<noteq> se * ia y + u"
      using assms(3) that elem_pos_inj by blast
    then have "A2 (se * ia x + t) = A1 (se * ia x + t)" using assms(2) by (simp add: copied_def)
    then show ?thesis using assms(1) that by (simp add: copied_def)
  qed
  then show ?thesis using assms(1,2) by (auto simp: copied_def)
qed

lemma copied_reindex:
  assumes "copied se V ia ib B A A'" "\<And>x. x \<in> W \<Longrightarrow> g x \<in> V \<and> ia (g x) = ja x \<and> ib (g x) = jb x"
    and "\<And>y. y \<in> V \<Longrightarrow> \<exists>x\<in>W. ja x = ia y"
  shows "copied se W ja jb B A A'"
  using assms unfolding copied_def by metis

subsection \<open>The nest of loops\<close>

definition mview :: "matrix_desc \<Rightarrow> nat \<Rightarrow> (nat \<Rightarrow> nat) set" where
  "mview a k = {x. \<forall>i\<le>k. unat (mv_lb a i) \<le> x i \<and> x i \<le> unat (mv_ub a i)}"

definition mshift :: "matrix_desc \<Rightarrow> matrix_desc \<Rightarrow> (nat \<Rightarrow> nat) \<Rightarrow> (nat \<Rightarrow> nat)" where
  "mshift a b x = (\<lambda>i. x i - unat (mv_lb a i) + unat (mv_lb b i))"

definition mpos :: "matrix_desc \<Rightarrow> nat \<Rightarrow> nat \<Rightarrow> (nat \<Rightarrow> nat) \<Rightarrow> nat" where
  "mpos a k off x = off * mweight (\<lambda>i. unat (dist a i)) k + mindex (\<lambda>i. unat (dist a i)) (Suc k) x"

text \<open>The view of \<open>a\<close>, shifted to \<open>b\<close>, stays inside both matrices.\<close>

definition mfits :: "matrix_desc \<Rightarrow> matrix_desc \<Rightarrow> nat \<Rightarrow> bool" where
  "mfits a b k \<longleftrightarrow> (\<forall>i\<le>k. unat (mv_lb a i) \<le> unat (mv_ub a i) \<and>
     unat (mv_ub a i) < unat (dist a i) \<and>
     unat (mv_lb b i) + (unat (mv_ub a i) - unat (mv_lb a i)) < unat (dist b i))"

text \<open>With offset \<open>off\<close>, level \<open>k\<close> stays below the number of elements \<open>T\<close>, and that in bytes below \<open>2 ^ 64\<close>.\<close>

definition mroom :: "matrix_desc \<Rightarrow> nat \<Rightarrow> nat \<Rightarrow> nat \<Rightarrow> bool" where
  "mroom a se k off \<longleftrightarrow> (off + unat (dist a k)) * mweight (\<lambda>i. unat (dist a i)) k * se < 2 ^ 64"

lemma mfits_Suc: "mfits a b (Suc k) \<Longrightarrow> mfits a b k"
  unfolding mfits_def by (meson le_SucI)

lemma mweight_pos: "\<forall>i<k. 0 < d i \<Longrightarrow> 0 < mweight d k"
  by (simp add: mweight_def)

lemma mroom_elem:
  assumes "mroom a se k off" "0 < se" "\<forall>i<k. 0 < unat (dist a i)"
  shows "(off + unat (dist a k)) * mweight (\<lambda>i. unat (dist a i)) k < 2 ^ 64"
    "off + unat (dist a k) < 2 ^ 64"
proof -
  let ?w = "mweight (\<lambda>i. unat (dist a i)) k"
  have "(off + unat (dist a k)) * ?w * 1 \<le> (off + unat (dist a k)) * ?w * se"
    using assms(2) by (intro mult_le_mono) auto
  from le_less_trans [OF this [unfolded mult_1_right] assms(1) [unfolded mroom_def]]
  show 1: "(off + unat (dist a k)) * ?w < 2 ^ 64" .
  have "0 < ?w" using assms(3) by (rule mweight_pos)
  then have "(off + unat (dist a k)) * 1 \<le> (off + unat (dist a k)) * ?w"
    by (intro mult_le_mono) auto
  from le_less_trans [OF this [unfolded mult_1_right] 1]
  show "off + unat (dist a k) < 2 ^ 64" .
qed

lemma mroom_step:
  assumes "mroom a se (Suc k) (unat off)" "0 < se" "\<forall>i\<le>k. 0 < unat (dist a i)"
    and "unat i < unat (dist a (Suc k))"
  shows "unat ((off + i) * dist a k) = (unat off + unat i) * unat (dist a k)"
    "mroom a se k (unat ((off + i) * dist a k))"
proof -
  let ?d = "\<lambda>i. unat (dist a i)"
  have pos: "\<forall>i<Suc k. 0 < ?d i" using assms(3) by auto
  note E = mroom_elem [OF assms(1,2) pos]
  have w: "0 < mweight ?d k" using assms(3) by (intro mweight_pos) auto
  have s: "unat (off + i) = unat off + unat i"
    using E(2) assms(4) by (intro unat_add_u64) simp
  have le: "(unat off + unat i + 1) * mweight ?d (Suc k) \<le> (unat off + ?d (Suc k)) * mweight ?d (Suc k)"
    using assms(4) by (intro mult_le_mono1) auto
  have "(unat off + unat i) * ?d k * 1 \<le> (unat off + unat i) * ?d k * mweight ?d k"
    using w by (intro mult_le_mono) auto
  also have "\<dots> \<le> (unat off + unat i + 1) * mweight ?d (Suc k)" by (simp add: algebra_simps)
  finally have "(unat off + unat i) * ?d k \<le> (unat off + ?d (Suc k)) * mweight ?d (Suc k)"
    using le by (simp only: mult_1_right)
  then have "(unat off + unat i) * ?d k < 2 ^ 64" using E(1) by (rule le_less_trans)
  then show u: "unat ((off + i) * dist a k) = (unat off + unat i) * unat (dist a k)"
    by (subst unat_mult_u64) (simp_all add: s)
  have "((unat off + unat i) * ?d k + ?d k) * mweight ?d k = (unat off + unat i + 1) * mweight ?d (Suc k)"
    by (simp add: algebra_simps)
  then have "((unat off + unat i) * ?d k + ?d k) * mweight ?d k * se \<le>
      (unat off + ?d (Suc k)) * mweight ?d (Suc k) * se"
    using le by (intro mult_le_mono1) simp
  then show "mroom a se k (unat ((off + i) * dist a k))"
    using assms(1) unfolding mroom_def u by (rule le_less_trans)
qed

lemma mpos_less_inj:
  assumes "mpos a k off x = mpos a k off y" "\<forall>i\<le>k. x i < unat (dist a i)" "\<forall>i\<le>k. y i < unat (dist a i)"
    and "i \<le> k"
  shows "x i = y i"
  using mindex_inj [of "Suc k" x "\<lambda>i. unat (dist a i)" y i] assms by (simp add: mpos_def less_Suc_eq_le)

text \<open>The words a row is addressed with do not wrap around.\<close>

lemma row_words:
  assumes "mfits a b 0" "0 < unat s"
    and "mroom a (unat s) 0 (unat al)" "mroom b (unat s) 0 (unat bl)"
  shows "unat ((al + mv_lb a 0) * s) = (unat al + unat (mv_lb a 0)) * unat s"
    "unat ((bl + mv_lb b 0) * s) = (unat bl + unat (mv_lb b 0)) * unat s"
    "unat (s * (mv_ub a 0 - mv_lb a 0 + 1)) = unat s * (unat (mv_ub a 0) - unat (mv_lb a 0) + 1)"
proof -
  let ?la = "unat (mv_lb a 0)" and ?ua = "unat (mv_ub a 0)" and ?lb = "unat (mv_lb b 0)"
  let ?se = "unat s"
  have f: "?la \<le> ?ua" "?ua < unat (dist a 0)" "?lb + (?ua - ?la) < unat (dist b 0)"
    using assms(1) by (auto simp: mfits_def)
  have ra: "(unat al + unat (dist a 0)) * ?se < 2 ^ 64" and rb: "(unat bl + unat (dist b 0)) * ?se < 2 ^ 64"
    using assms(3,4) by (auto simp: mroom_def)
  have Ea: "unat al + unat (dist a 0) < 2 ^ 64" and Eb: "unat bl + unat (dist b 0) < 2 ^ 64"
    using mroom_elem(2) [OF assms(3,2)] mroom_elem(2) [OF assms(4,2)] by auto
  have le: "mv_lb a 0 \<le> mv_ub a 0" using f by (simp add: u64_le_nat)
  have aloc: "unat (al + mv_lb a 0) = unat al + ?la" using Ea f by (intro unat_add_u64) simp
  have bloc: "unat (bl + mv_lb b 0) = unat bl + ?lb" using Eb f by (intro unat_add_u64) simp
  have mono: "m * ?se < 2 ^ 64" if "n * ?se < 2 ^ 64" "m \<le> n" for m n
    using that by (meson le_less_trans mult_le_mono1)
  have "(unat al + ?la) * ?se < 2 ^ 64" by (rule mono [OF ra]) (use f in simp)
  then show "unat ((al + mv_lb a 0) * s) = (unat al + ?la) * ?se"
    by (subst unat_mult_u64) (simp_all add: aloc)
  have "(unat bl + ?lb) * ?se < 2 ^ 64" by (rule mono [OF rb]) (use f in simp)
  then show "unat ((bl + mv_lb b 0) * s) = (unat bl + ?lb) * ?se"
    by (subst unat_mult_u64) (simp_all add: bloc)
  have ne: "unat (mv_ub a 0 - mv_lb a 0 + 1) = ?ua - ?la + 1"
    using f le Ea by (subst unat_add_u64) (auto simp: unat_diff_u64)
  have "(?ua - ?la + 1) * ?se < 2 ^ 64" by (rule mono [OF ra]) (use f in simp)
  then show "unat (s * (mv_ub a 0 - mv_lb a 0 + 1)) = ?se * (?ua - ?la + 1)"
    using ne by (subst unat_mult_u64) (simp_all only: mult.commute)
qed

text \<open>The bytes of a row are those of the elements of its view.\<close>

lemma row_byte:
  assumes "x \<in> mview a 0" "t < se"
  obtains j where "x 0 = unat (mv_lb a 0) + j" "se * j + t < se * (unat (mv_ub a 0) - unat (mv_lb a 0) + 1)"
proof -
  let ?la = "unat (mv_lb a 0)" and ?ua = "unat (mv_ub a 0)"
  have xr: "?la \<le> x 0" "x 0 \<le> ?ua" using assms(1) by (auto simp: mview_def)
  obtain j where j: "x 0 = ?la + j" "j \<le> ?ua - ?la" using xr by (metis add_diff_cancel_left' diff_le_mono le_Suc_ex)
  have "se * j + t < se * (j + 1)" using assms(2) by simp
  also have "\<dots> \<le> se * (?ua - ?la + 1)" using j by (intro mult_le_mono2) simp
  finally show ?thesis using that j(1) by blast
qed

lemma row_element:
  assumes "unat (mv_lb a 0) \<le> unat (mv_ub a 0)" "0 < se" "q < se * (unat (mv_ub a 0) - unat (mv_lb a 0) + 1)"
  shows "(\<lambda>_. unat (mv_lb a 0) + q div se) \<in> mview a 0"
    "(off + unat (mv_lb a 0)) * se + q = se * mpos a 0 off (\<lambda>_. unat (mv_lb a 0) + q div se) + q mod se" "q mod se < se"
proof -
  have "q div se < unat (mv_ub a 0) - unat (mv_lb a 0) + 1" using assms(3) by (simp add: less_mult_imp_div_less mult.commute)
  then show "(\<lambda>_. unat (mv_lb a 0) + q div se) \<in> mview a 0" using assms(1) by (auto simp: mview_def)
  have "se * mpos a 0 off (\<lambda>_. unat (mv_lb a 0) + q div se) + q mod se =
      (off + unat (mv_lb a 0)) * se + (se * (q div se) + q mod se)"
    by (simp add: mpos_def algebra_simps)
  then show "(off + unat (mv_lb a 0)) * se + q = se * mpos a 0 off (\<lambda>_. unat (mv_lb a 0) + q div se) + q mod se" by simp
  show "q mod se < se" using assms(2) by simp
qed

lemma copy_row:
  assumes "mfits a b 0" "size_elem a = s" "0 < unat s"
    and "mroom a (unat s) 0 (unat al)" "mroom b (unat s) 0 (unat bl)"
  shows "\<exists>A'. matrix_copy_level a b B 0 al bl A = Some A' \<and>
    copied (unat s) (mview a 0) (mpos a 0 (unat al)) (\<lambda>x. mpos b 0 (unat bl) (mshift a b x)) B A A'"
proof -
  let ?la = "unat (mv_lb a 0)" and ?ua = "unat (mv_ub a 0)" and ?lb = "unat (mv_lb b 0)"
  let ?se = "unat s"
  have f: "?la \<le> ?ua" using assms(1) by (auto simp: mfits_def)
  note w = row_words [OF assms(1,3,4,5)]
  let ?A = "memcpy A ((unat al + ?la) * ?se) B ((unat bl + ?lb) * ?se) (?se * (?ua - ?la + 1))"
  have run: "matrix_copy_level a b B 0 al bl A = Some ?A"
    by (simp add: Let_def assms(2) w)
  have "copied ?se (mview a 0) (mpos a 0 (unat al)) (\<lambda>x. mpos b 0 (unat bl) (mshift a b x)) B A ?A"
    unfolding copied_def
  proof (intro conjI ballI allI impI)
    fix x t assume x: "x \<in> mview a 0" and t: "t < ?se"
    obtain j where j: "x 0 = ?la + j" "?se * j + t < ?se * (?ua - ?la + 1)" by (rule row_byte [OF x t])
    then show "?A (?se * mpos a 0 (unat al) x + t) = B (?se * mpos b 0 (unat bl) (mshift a b x) + t)"
      by (simp add: memcpy_def mpos_def mshift_def j(1) algebra_simps)
  next
    fix p assume p: "\<forall>x\<in>mview a 0. \<forall>t < ?se. p \<noteq> ?se * mpos a 0 (unat al) x + t"
    show "?A p = A p"
    proof (rule ccontr)
      assume "?A p \<noteq> A p"
      then have r: "(unat al + ?la) * ?se \<le> p" "p < (unat al + ?la) * ?se + ?se * (?ua - ?la + 1)"
        by (auto simp: memcpy_def split: if_splits)
      define q where "q = p - (unat al + ?la) * ?se"
      have q: "p = (unat al + ?la) * ?se + q" "q < ?se * (?ua - ?la + 1)" using r by (auto simp: q_def)
      show False using p row_element [OF f assms(3) q(2)] q(1) by metis
    qed
  qed
  then show ?thesis using run by blast
qed

lemma mfitsD:
  assumes "mfits a b k" "i \<le> k"
  shows "unat (mv_lb a i) \<le> unat (mv_ub a i)" "unat (mv_ub a i) < unat (dist a i)"
    "unat (mv_lb b i) + (unat (mv_ub a i) - unat (mv_lb a i)) < unat (dist b i)"
    "0 < unat (dist a i)" "0 < unat (dist b i)"
  using assms unfolding mfits_def by (blast intro: le_less_trans [OF le0])+

lemma mview_less:
  assumes "mfits a b k" "x \<in> mview a k"
  shows "\<forall>i\<le>k. x i < unat (dist a i)"
  using assms mfitsD(2) [OF assms(1)] unfolding mview_def by (blast intro: le_less_trans)

text \<open>One iteration of the loop over index \<open>k + 1\<close> copies one slab of the view.\<close>

lemma copy_slab:
  assumes i: "unat (mv_lb a (Suc k)) \<le> i" "i \<le> unat (mv_ub a (Suc k))"
    and j: "j = unat (mv_lb b (Suc k)) + (i - unat (mv_lb a (Suc k)))"
    and c: "copied se (mview a k) (mpos a k ((al + i) * unat (dist a k)))
      (\<lambda>x. mpos b k ((bl + j) * unat (dist b k)) (mshift a b x)) B A A'"
  shows "copied se {x \<in> mview a (Suc k). x (Suc k) = i} (mpos a (Suc k) al)
    (\<lambda>x. mpos b (Suc k) bl (mshift a b x)) B A A'"
    (is "copied se ?W ?ia ?ib B A A'")
proof (rule copied_reindex [OF c, where g = "\<lambda>x. x"])
  have pa: "mpos a k ((al + i) * unat (dist a k)) x = ?ia (x(Suc k := i))" for x
    unfolding mpos_def using mindex_cong [of "Suc k" "x(Suc k := i)" x] by (simp add: algebra_simps)
  have pb: "mpos b k ((bl + j) * unat (dist b k)) (mshift a b x) = ?ib x" if "x (Suc k) = i" for x
    unfolding mpos_def using that j by (simp add: mshift_def algebra_simps)
  show "x \<in> mview a k \<and> mpos a k ((al + i) * unat (dist a k)) x = ?ia x \<and>
      mpos b k ((bl + j) * unat (dist b k)) (mshift a b x) = ?ib x" if x: "x \<in> ?W" for x
  proof -
    have "x(Suc k := i) = x" using x by (auto simp: fun_eq_iff)
    moreover have "x \<in> mview a k" using x unfolding mview_def by (blast intro: le_SucI)
    ultimately show ?thesis using pa [of x] pb [of x] x by simp
  qed
  show "\<exists>x\<in>?W. ?ia x = mpos a k ((al + i) * unat (dist a k)) y" if y: "y \<in> mview a k" for y
  proof -
    have "unat (mv_lb a l) \<le> (y(Suc k := i)) l \<and> (y(Suc k := i)) l \<le> unat (mv_ub a l)"
      if "l \<le> Suc k" for l
    proof (cases "l = Suc k")
      case False
      then show ?thesis using y that by (simp add: mview_def)
    qed (use i in simp)
    then have "y(Suc k := i) \<in> ?W" by (simp add: mview_def)
    then show ?thesis using pa [of y] by (intro bexI [of _ "y(Suc k := i)"]) simp_all
  qed
qed

lemma copy_level:
  assumes "mfits a b k" "size_elem a = s" "0 < unat s"
    and "mroom a (unat s) k (unat al)" "mroom b (unat s) k (unat bl)"
  shows "\<exists>A'. matrix_copy_level a b B k al bl A = Some A' \<and>
    copied (unat s) (mview a k) (mpos a k (unat al)) (\<lambda>x. mpos b k (unat bl) (mshift a b x)) B A A'"
  using assms(1,4,5)
proof (induction k arbitrary: al bl A)
  case 0
  then show ?case using assms(2,3) by (intro copy_row) auto
next
  case (Suc k)
  let ?la = "unat (mv_lb a (Suc k))" and ?ua = "unat (mv_ub a (Suc k))" and ?lb = "unat (mv_lb b (Suc k))"
  let ?ia = "mpos a (Suc k) (unat al)" and ?ib = "\<lambda>x. mpos b (Suc k) (unat bl) (mshift a b x)"
  let ?V = "\<lambda>n. {x \<in> mview a (Suc k). x (Suc k) < n}"
  note f = mfitsD [OF Suc.prems(1) order_refl]
  have posa: "\<forall>i\<le>k. 0 < unat (dist a i)" and posb: "\<forall>i\<le>k. 0 < unat (dist b i)"
    using mfitsD(4,5) [OF Suc.prems(1)] by auto
  have "\<exists>A'. for2 (mv_lb a (Suc k)) (mv_lb b (Suc k)) (mv_ub a (Suc k))
      (\<lambda>ak bk. matrix_copy_level a b B k ((al + ak) * dist a k) ((bl + bk) * dist b k)) A = Some A' \<and>
      copied (unat s) (?V (Suc ?ua)) ?ia ?ib B A A'"
  proof (rule for2_inv [where I = "\<lambda>n. copied (unat s) (?V n) ?ia ?ib B A"])
    show "?ua < 2 ^ 64 - 1" using f(2) u64_less_max [of "dist a (Suc k)"] by simp
    show "?lb + (?ua - ?la) < 2 ^ 64 - 1" using f(3) u64_less_max [of "dist b (Suc k)"] by simp
    show "?la \<le> Suc ?ua" using f(1) by simp
    have e: "?V ?la = {}" by (auto simp: mview_def)
    show "copied (unat s) (?V ?la) ?ia ?ib B A A" unfolding e by (rule copied_empty)
    fix i b' :: u64 and A1
    assume i: "mv_lb a (Suc k) \<le> i" "i \<le> mv_ub a (Suc k)" and b': "unat b' = ?lb + (unat i - ?la)"
      and I: "copied (unat s) (?V (unat i)) ?ia ?ib B A A1"
    have ia: "?la \<le> unat i" "unat i \<le> ?ua" using i by (auto simp: u64_le_nat)
    then have "unat i < unat (dist a (Suc k))" using f(2) by simp
    note Ra = mroom_step [OF Suc.prems(2) assms(3) posa this]
    have "unat b' < unat (dist b (Suc k))" using f(3) b' ia by simp
    note Rb = mroom_step [OF Suc.prems(3) assms(3) posb this]
    obtain A2 where A2: "matrix_copy_level a b B k ((al + i) * dist a k) ((bl + b') * dist b k) A1 = Some A2"
      "copied (unat s) (mview a k) (mpos a k (unat ((al + i) * dist a k)))
         (\<lambda>x. mpos b k (unat ((bl + b') * dist b k)) (mshift a b x)) B A1 A2"
      using Suc.IH [OF mfits_Suc [OF Suc.prems(1)] Ra(2) Rb(2)] by blast
    let ?W = "{x \<in> mview a (Suc k). x (Suc k) = unat i}"
    have "copied (unat s) ?W ?ia ?ib B A1 A2"
      by (rule copy_slab [OF ia b' A2(2) [unfolded Ra(1) Rb(1)]])
    then have C: "copied (unat s) (?V (unat i) \<union> ?W) ?ia ?ib B A A2"
    proof (rule copied_Un [OF I])
      fix x y assume x: "x \<in> ?V (unat i)" and y: "y \<in> ?W"
      have "\<forall>i\<le>Suc k. x i < unat (dist a i)" "\<forall>i\<le>Suc k. y i < unat (dist a i)"
        using mview_less [OF Suc.prems(1)] x y by blast+
      note d = mpos_less_inj [of a "Suc k" "unat al" x y "Suc k", OF _ this order_refl]
      have "x (Suc k) \<noteq> y (Suc k)" using x y by simp
      then show "?ia x \<noteq> ?ia y" using d by blast
    qed
    have U: "?V (unat i) \<union> ?W = ?V (Suc (unat i))" by (rule set_eqI) (auto simp: less_Suc_eq)
    show "\<exists>A'. matrix_copy_level a b B k ((al + i) * dist a k) ((bl + b') * dist b k) A1 = Some A' \<and>
        copied (unat s) (?V (Suc (unat i))) ?ia ?ib B A A'"
      using A2(1) C [unfolded U] by blast
  qed
  moreover have "?V (Suc ?ua) = mview a (Suc k)"
    by (rule set_eqI) (auto simp: mview_def less_Suc_eq_le)
  ultimately show ?case unfolding matrix_copy_level.simps by metis
qed


subsection \<open>Copying between objects\<close>

text \<open>Position of cell \<open>x\<close> in the data of an object with box \<open>bb\<close>.\<close>

definition cell_index :: "bbox \<Rightarrow> coord \<Rightarrow> nat" where
  "cell_index bb x = mindex (\<lambda>i. unat (bbox_dist bb i)) (num_dims bb) (\<lambda>i. unat (x i) - unat (lb bb i))"

text \<open>The data of the object fits the address space.\<close>

definition obj_fits :: "bbox \<Rightarrow> nat \<Rightarrow> bool" where
  "obj_fits bb se \<longleftrightarrow> bbox_wf bb \<and> 0 < se \<and> bbox_vol bb * se < 2 ^ 64"

lemma obj_fits_dist:
  assumes "obj_fits bb se" "i < num_dims bb"
  shows "unat (bbox_dist bb i) = unat (ub bb i) - unat (lb bb i) + 1"
proof (rule unat_coord_dist)
  let ?d = "\<lambda>i. unat (ub bb i) - unat (lb bb i) + 1"
  show "lb bb i \<le> ub bb i" using assms by (simp add: obj_fits_def bbox_wf_def)
  have "?d i dvd bbox_vol bb" unfolding bbox_vol_def using assms(2) by (intro dvd_prodI) auto
  moreover have "0 < bbox_vol bb" by (simp add: bbox_vol_def)
  ultimately have "?d i \<le> bbox_vol bb" by (rule dvd_imp_le)
  also have "\<dots> * 1 \<le> bbox_vol bb * se" using assms(1) by (intro mult_le_mono) (auto simp: obj_fits_def)
  finally show "?d i < 2 ^ 64" using assms(1) by (simp add: obj_fits_def)
qed

lemma obj_fits_weight:
  assumes "obj_fits bb se"
  shows "mweight (\<lambda>i. unat (bbox_dist bb i)) (num_dims bb) = bbox_vol bb"
  unfolding mweight_def bbox_vol_def by (rule prod.cong) (simp_all add: obj_fits_dist [OF assms])

lemma cell_index_less:
  assumes "obj_fits bb se" "in_bbox bb x"
  shows "cell_index bb x < bbox_vol bb"
  unfolding cell_index_def obj_fits_weight [OF assms(1), symmetric]
proof (rule mindex_less, intro allI impI)
  fix i assume "i < num_dims bb"
  then show "unat (x i) - unat (lb bb i) < unat (bbox_dist bb i)"
    using obj_fits_dist [OF assms(1)] assms(2) by (auto simp: in_bbox_def u64_le_nat)
qed

lemma cell_index_inj:
  assumes "obj_fits bb se" "in_bbox bb x" "in_bbox bb y" "cell_index bb x = cell_index bb y" "i < num_dims bb"
  shows "x i = y i"
proof -
  let ?r = "\<lambda>x i. unat (x i) - unat (lb bb i)"
  have r: "\<forall>i<num_dims bb. ?r x i < unat (bbox_dist bb i)" if "in_bbox bb x" for x
    using that obj_fits_dist [OF assms(1)] by (auto simp: in_bbox_def u64_le_nat)
  have "?r x i = ?r y i"
    using mindex_inj [OF r [OF assms(2)] r [OF assms(3)] _ assms(5)] assms(4) by (simp add: cell_index_def)
  moreover have "unat (lb bb i) \<le> unat (x i)" "unat (lb bb i) \<le> unat (y i)"
    using assms(2,3,5) by (auto simp: in_bbox_def u64_le_nat)
  ultimately have "unat (x i) = unat (y i)" by simp
  then show ?thesis by (simp add: word_unat_eq_iff)
qed


text \<open>The two matrix descriptors of a copy, for boxes that share a cell.\<close>

lemma matrix_init_sel [simp]:
  "size_elem (matrix_init st g l se) = se"
  "m_num_dims (matrix_init st g l se) = num_dims g"
  "i < num_dims g \<Longrightarrow> dist (matrix_init st g l se) i = bbox_dist g i"
  "i < num_dims g \<Longrightarrow> mv_lb (matrix_init st g l se) i = lb l i - lb g i"
  "i < num_dims g \<Longrightarrow> mv_ub (matrix_init st g l se) i = ub l i - lb g i"
  by (simp_all add: matrix_init_def Let_def)

lemma matrix_init_view:
  assumes "num_dims g = num_dims f" "bbox_wf g" "bbox_wf f" "bbox_does_intersect g f" "i < num_dims g"
    and "c = bbox_intersect g f c0 \<or> c = bbox_intersect f g c0" and "a = matrix_init st g c se"
  shows "unat (mv_lb a i) = unat (max (lb g i) (lb f i)) - unat (lb g i)"
    "unat (mv_ub a i) = unat (min (ub g i) (ub f i)) - unat (lb g i)"
    "lb g i \<le> max (lb g i) (lb f i)" "max (lb g i) (lb f i) \<le> min (ub g i) (ub f i)"
proof -
  have c: "lb c i = max (lb g i) (lb f i)" "ub c i = min (ub g i) (ub f i)"
    using assms(1,5,6) by (auto simp: max.commute min.commute)
  show m: "max (lb g i) (lb f i) \<le> min (ub g i) (ub f i)"
    using assms by (simp add: bbox_does_intersect_def bbox_wf_def bbox_intersect_ondim_iff
        del: max.bounded_iff min.bounded_iff)
  show l: "lb g i \<le> max (lb g i) (lb f i)" by simp
  show "unat (mv_lb a i) = unat (max (lb g i) (lb f i)) - unat (lb g i)"
    unfolding assms(7) matrix_init_sel(4) [OF assms(5)] c by (rule unat_diff_u64 [OF l])
  show "unat (mv_ub a i) = unat (min (ub g i) (ub f i)) - unat (lb g i)"
    unfolding assms(7) matrix_init_sel(5) [OF assms(5)] c by (rule unat_diff_u64 [OF order_trans [OF l m]])
qed


lemma mweight_cong: "(\<And>i. i < k \<Longrightarrow> d i = d' i) \<Longrightarrow> mweight d k = mweight d' k"
  by (simp add: mweight_def)

lemma mindex_dist_cong:
  "(\<And>i. i < k \<Longrightarrow> d i = d' i) \<Longrightarrow> mindex d k x = mindex d' k x"
  unfolding mindex_def by (rule sum.cong) (auto intro: mweight_cong)

lemma mroom_init:
  assumes "obj_fits g se" "num_dims g = Suc k" "a = matrix_init st g c s"
  shows "mroom a se k 0"
proof -
  have "mweight (\<lambda>i. unat (dist a i)) (Suc k) = mweight (\<lambda>i. unat (bbox_dist g i)) (Suc k)"
    by (rule mweight_cong) (simp add: assms(2,3))
  then show ?thesis
    using obj_fits_weight [OF assms(1)] assms(1,2) by (simp add: mroom_def obj_fits_def)
qed

lemma mpos_init:
  assumes "num_dims g = Suc k" "a = matrix_init st g c s"
  shows "mpos a k 0 y = mindex (\<lambda>i. unat (bbox_dist g i)) (num_dims g) y"
  unfolding mpos_def assms(1)
  using mindex_dist_cong [of "Suc k" "\<lambda>i. unat (dist a i)" "\<lambda>i. unat (bbox_dist g i)" y]
  by (simp add: assms)

lemma mfits_init:
  assumes fg: "obj_fits g se" "obj_fits f se" "num_dims g = Suc k" "num_dims f = Suc k"
    and i: "bbox_does_intersect g f" and c: "c = bbox_intersect g f c0"
    and a: "a = matrix_init st g c s" and b: "b = matrix_init st' f c s"
  shows "mfits a b k"
  unfolding mfits_def
proof (intro allI impI)
  fix i assume ik: "i \<le> k"
  have wf: "bbox_wf g" "bbox_wf f" using fg by (auto simp: obj_fits_def)
  have if': "bbox_does_intersect f g" using bbox_does_intersect_sym [of g f] i fg by simp
  note A = matrix_init_view [OF _ wf i, of i c c0 a st s]
  note B = matrix_init_view [OF _ wf(2,1) if', of i c c0 b st' s]
  have A': "unat (mv_lb a i) = unat (max (lb g i) (lb f i)) - unat (lb g i)"
    "unat (mv_ub a i) = unat (min (ub g i) (ub f i)) - unat (lb g i)"
    and le: "lb g i \<le> max (lb g i) (lb f i)" "max (lb g i) (lb f i) \<le> min (ub g i) (ub f i)"
    using A fg(3,4) ik a c by simp_all
  have B': "unat (mv_lb b i) = unat (max (lb g i) (lb f i)) - unat (lb f i)"
    using B(1) fg(3,4) ik b c by (simp add: max.commute)
  have d: "unat (dist a i) = unat (ub g i) - unat (lb g i) + 1" "unat (dist b i) = unat (ub f i) - unat (lb f i) + 1"
    using obj_fits_dist [OF fg(1), of i] obj_fits_dist [OF fg(2), of i] fg(3,4) ik by (simp_all add: a b)
  define L U where "L = max (lb g i) (lb f i)" and "U = min (ub g i) (ub f i)"
  have "unat (lb g i) \<le> unat L" "unat (lb f i) \<le> unat L" "unat L \<le> unat U" "unat U \<le> unat (ub g i)"
    "unat U \<le> unat (ub f i)"
    using le unfolding L_def U_def by (simp_all add: u64_le_nat [symmetric])
  then show "unat (mv_lb a i) \<le> unat (mv_ub a i) \<and> unat (mv_ub a i) < unat (dist a i) \<and>
      unat (mv_lb b i) + (unat (mv_ub a i) - unat (mv_lb a i)) < unat (dist b i)"
    unfolding A' B' d L_def [symmetric] U_def [symmetric] by linarith
qed

text \<open>The view of the target matrix enumerates the common cells.\<close>

lemma view_cells:
  assumes fg: "obj_fits g se" "obj_fits f se" "num_dims g = Suc k" "num_dims f = Suc k"
    and i: "bbox_does_intersect g f" and c: "c = bbox_intersect g f c0"
    and a: "a = matrix_init st g c s" and b: "b = matrix_init st' f c s"
  shows "in_bbox g x \<and> in_bbox f x \<Longrightarrow>
      (\<lambda>i. unat (x i) - unat (lb g i)) \<in> mview a k \<and>
      (\<forall>j\<le>k. mshift a b (\<lambda>i. unat (x i) - unat (lb g i)) j = unat (x j) - unat (lb f j))"
    and "y \<in> mview a k \<Longrightarrow>
      in_bbox g (\<lambda>i. lb g i + of_nat (y i)) \<and> in_bbox f (\<lambda>i. lb g i + of_nat (y i)) \<and>
      (\<forall>j\<le>k. unat (lb g j + of_nat (y j)) = unat (lb g j) + y j)"
proof -
  define lo hi where "lo j = unat (max (lb g j) (lb f j))" and "hi j = unat (min (ub g j) (ub f j))" for j
  have wf: "bbox_wf g" "bbox_wf f" using fg by (auto simp: obj_fits_def)
  have if': "bbox_does_intersect f g" using bbox_does_intersect_sym [of g f] i fg by simp
  have va: "unat (mv_lb a j) = lo j - unat (lb g j)" "unat (mv_ub a j) = hi j - unat (lb g j)"
    "unat (mv_lb b j) = lo j - unat (lb f j)" if "j \<le> k" for j
    using matrix_init_view [OF _ wf i, of j c c0 a] matrix_init_view [OF _ wf(2,1) if', of j c c0 b] that fg
    by (auto simp: a b c max.commute lo_def hi_def)
  have lu: "unat (lb g j) \<le> lo j" "unat (lb f j) \<le> lo j" "lo j \<le> hi j" if "j \<le> k" for j
    using matrix_init_view(4) [OF _ wf i, of j c c0 a] that fg
    by (auto simp: a c lo_def hi_def simp flip: u64_le_nat)
  have cell: "in_bbox g x \<and> in_bbox f x \<longleftrightarrow> (\<forall>j\<le>k. lo j \<le> unat (x j) \<and> unat (x j) \<le> hi j)" for x
    unfolding in_bbox_def fg(3,4) less_Suc_eq_le lo_def hi_def u64_le_nat [symmetric] by auto
  have view: "y \<in> mview a k \<longleftrightarrow> (\<forall>j\<le>k. lo j - unat (lb g j) \<le> y j \<and> y j \<le> hi j - unat (lb g j))" for y
    unfolding mview_def using va by auto
  show "(\<lambda>i. unat (x i) - unat (lb g i)) \<in> mview a k \<and>
      (\<forall>j\<le>k. mshift a b (\<lambda>i. unat (x i) - unat (lb g i)) j = unat (x j) - unat (lb f j))"
    if "in_bbox g x \<and> in_bbox f x"
  proof -
    have x: "lo j \<le> unat (x j)" "unat (x j) \<le> hi j" if "j \<le> k" for j
      using that \<open>in_bbox g x \<and> in_bbox f x\<close> cell by blast+
    have "mshift a b (\<lambda>i. unat (x i) - unat (lb g i)) j = unat (x j) - unat (lb f j)" if "j \<le> k" for j
      unfolding mshift_def va(1,3) [OF that] using x(1) [OF that] lu(1,2) [OF that] by linarith
    then show ?thesis unfolding view using x by (simp add: diff_le_mono)
  qed
  show "in_bbox g (\<lambda>i. lb g i + of_nat (y i)) \<and> in_bbox f (\<lambda>i. lb g i + of_nat (y i)) \<and>
      (\<forall>j\<le>k. unat (lb g j + of_nat (y j)) = unat (lb g j) + y j)" if "y \<in> mview a k"
  proof -
    have y: "lo j \<le> unat (lb g j) + y j" "unat (lb g j) + y j \<le> hi j" if "j \<le> k" for j
      using that \<open>y \<in> mview a k\<close> [unfolded view] lu [OF that] by (auto simp: le_diff_conv2)
    have "unat (lb g j + of_nat (y j)) = unat (lb g j) + y j" if "j \<le> k" for j
    proof -
      have "unat (lb g j) + y j < 2 ^ 64"
        using y(2) [OF that] u64_less_max [of "min (ub g j) (ub f j)"] by (simp add: hi_def)
      then show ?thesis by (simp add: unat_word_ariths unat_of_nat)
    qed
    then show ?thesis using cell [of "\<lambda>i. lb g i + of_nat (y i)"] y by simp
  qed
qed

lemma ssd_copy_copied:
  assumes t: "obj_fits g se" "g = od_bb (obj_desc to)" "num_dims g = Suc k" "k < 9"
    and f: "obj_fits f se" "f = od_bb (obj_desc from)" "num_dims f = Suc k"
    and s: "unat (od_size (obj_desc to)) = se" "od_size (obj_desc from) = od_size (obj_desc to)"
    and i: "bbox_does_intersect g f"
  shows "\<exists>A'. ssd_copy c0 to from = Some (to\<lparr>data := A'\<rparr>) \<and>
    copied se {x. in_bbox g x \<and> in_bbox f x} (cell_index g) (cell_index f) (data from) (data to) A'"
proof -
  define c where "c = bbox_intersect g f c0"
  define a where "a = matrix_init (od_st (obj_desc to)) g c (od_size (obj_desc to))"
  define b where "b = matrix_init (od_st (obj_desc from)) f c (od_size (obj_desc to))"
  have fits: "mfits a b k" by (rule mfits_init [OF t(1) f(1) t(3) f(3) i c_def a_def b_def])
  have se: "0 < unat (od_size (obj_desc to))" using t(1) s by (simp add: obj_fits_def)
  have room: "mroom a se k (unat 0)" "mroom b se k (unat 0)"
    using mroom_init [OF t(1,3) a_def] mroom_init [OF f(1,3) b_def] by auto
  obtain A' where A': "matrix_copy_level a b (data from) k 0 0 (data to) = Some A'"
    "copied se (mview a k) (mpos a k 0) (\<lambda>x. mpos b k 0 (mshift a b x)) (data from) (data to) A'"
    using copy_level [OF fits _ se, of 0 0 "data from" "data to"] room s(1) by (auto simp: a_def)
  have run: "ssd_copy c0 to from = Some (to\<lparr>data := A'\<rparr>)"
    using A'(1) t f s by (simp add: ssd_copy_def Let_def matrix_copy_def c_def a_def b_def)
  note C = view_cells [OF t(1) f(1) t(3) f(3) i c_def a_def b_def]
  have "copied se {x. in_bbox g x \<and> in_bbox f x} (cell_index g) (cell_index f) (data from) (data to) A'"
  proof (rule copied_reindex [OF A'(2), where g = "\<lambda>x i. unat (x i) - unat (lb g i)"])
    fix x assume "x \<in> {x. in_bbox g x \<and> in_bbox f x}"
    then have V: "(\<lambda>i. unat (x i) - unat (lb g i)) \<in> mview a k"
      "\<forall>j\<le>k. mshift a b (\<lambda>i. unat (x i) - unat (lb g i)) j = unat (x j) - unat (lb f j)"
      using C(1) by blast+
    have "mpos b k 0 (mshift a b (\<lambda>i. unat (x i) - unat (lb g i))) = cell_index f x"
      unfolding mpos_init [OF f(3) b_def] cell_index_def
      using V(2) by (intro mindex_cong) (simp add: f(3))
    then show "(\<lambda>i. unat (x i) - unat (lb g i)) \<in> mview a k \<and>
        mpos a k 0 (\<lambda>i. unat (x i) - unat (lb g i)) = cell_index g x \<and>
        mpos b k 0 (mshift a b (\<lambda>i. unat (x i) - unat (lb g i))) = cell_index f x"
      using V(1) by (simp add: mpos_init [OF t(3) a_def] cell_index_def)
  next
    fix y assume "y \<in> mview a k"
    note V = C(2) [OF this]
    have "cell_index g (\<lambda>i. lb g i + of_nat (y i)) = mpos a k 0 y"
      unfolding mpos_init [OF t(3) a_def] cell_index_def
      using V by (intro mindex_cong) (simp add: t(3))
    then show "\<exists>x\<in>{x. in_bbox g x \<and> in_bbox f x}. cell_index g x = mpos a k 0 y" using V by blast
  qed
  then show ?thesis using run by blast
qed


text \<open>Objects of one variable: same element size, same dimension, at most nine dimensions.\<close>

definition copy_compat :: "obj_data \<Rightarrow> obj_data \<Rightarrow> bool" where
  "copy_compat to from \<longleftrightarrow>
     (let g = od_bb (obj_desc to); f = od_bb (obj_desc from); s = od_size (obj_desc to) in
      1 \<le> num_dims g \<and> num_dims g \<le> 9 \<and> num_dims f = num_dims g \<and>
      od_size (obj_desc from) = s \<and> obj_fits g (unat s) \<and> obj_fits f (unat s) \<and>
      bbox_does_intersect g f)"

text \<open>Byte \<open>t\<close> of the element that object \<open>od\<close> stores for cell \<open>x\<close>.\<close>

definition cell_byte :: "obj_data \<Rightarrow> coord \<Rightarrow> nat \<Rightarrow> byte" where
  "cell_byte od x t =
     data od (unat (od_size (obj_desc od)) * cell_index (od_bb (obj_desc od)) x + t)"

lemma ssd_copy_cells:
  assumes "copy_compat to from"
  shows "\<exists>A'. ssd_copy c0 to from = Some (to\<lparr>data := A'\<rparr>) \<and>
    (\<forall>x t. in_bbox (od_bb (obj_desc to)) x \<and> t < unat (od_size (obj_desc to)) \<longrightarrow>
       cell_byte (to\<lparr>data := A'\<rparr>) x t =
         (if in_bbox (od_bb (obj_desc from)) x then cell_byte from x t else cell_byte to x t)) \<and>
    (\<forall>p. unat (od_size (obj_desc to)) * bbox_vol (od_bb (obj_desc to)) \<le> p \<longrightarrow> A' p = data to p)"
proof -
  define g f se where "g = od_bb (obj_desc to)" and "f = od_bb (obj_desc from)"
    and "se = unat (od_size (obj_desc to))"
  have C: "1 \<le> num_dims g" "num_dims g \<le> 9" "num_dims f = num_dims g"
    "od_size (obj_desc from) = od_size (obj_desc to)" "obj_fits g se" "obj_fits f se" "bbox_does_intersect g f"
    using assms by (auto simp: copy_compat_def Let_def g_def f_def se_def)
  obtain k where k: "num_dims g = Suc k" "k < 9" using C(1,2) by (cases "num_dims g") auto
  obtain A' where A': "ssd_copy c0 to from = Some (to\<lparr>data := A'\<rparr>)"
    "copied se {x. in_bbox g x \<and> in_bbox f x} (cell_index g) (cell_index f) (data from) (data to) A'"
    using ssd_copy_copied [OF C(5) g_def k C(6) f_def _ se_def [symmetric] C(4,7), of c0] C(3) k by auto
  have same: "A' (se * cell_index g x + t) = data to (se * cell_index g x + t)"
    if x: "in_bbox g x" "\<not> in_bbox f x" and t: "t < se" for x t
  proof -
    have "se * cell_index g x + t \<noteq> se * cell_index g y + u" if y: "in_bbox g y" "in_bbox f y" "u < se" for y u
    proof
      assume "se * cell_index g x + t = se * cell_index g y + u"
      then have "cell_index g x = cell_index g y" using elem_pos_inj t y(3) by blast
      then have "\<forall>i<num_dims g. x i = y i" using cell_index_inj [OF C(5) x(1) y(1)] by blast
      then show False using x(2) y(2) C(3) by (auto simp: in_bbox_def)
    qed
    then show ?thesis using A'(2) by (auto simp: copied_def)
  qed
  have beyond: "A' p = data to p" if p: "se * bbox_vol g \<le> p" for p
  proof -
    have "p \<noteq> se * cell_index g y + u" if y: "in_bbox g y" "u < se" for y u
    proof -
      have "se * cell_index g y + u < se * (cell_index g y + 1)" using y(2) by simp
      also have "\<dots> \<le> se * bbox_vol g" using cell_index_less [OF C(5) y(1)] by (intro mult_le_mono2) simp
      finally show ?thesis using p by simp
    qed
    then show ?thesis using A'(2) by (auto simp: copied_def)
  qed
  have "cell_byte (to\<lparr>data := A'\<rparr>) x t = (if in_bbox f x then cell_byte from x t else cell_byte to x t)"
    if "in_bbox g x" "t < se" for x t
    using A'(2) same that C(4) unfolding cell_byte_def copied_def
    by (simp add: g_def [symmetric] f_def [symmetric] se_def [symmetric])
  then show ?thesis
    using A'(1) beyond unfolding g_def [symmetric] f_def [symmetric] se_def [symmetric] by blast
qed

lemma ssd_copy_list_cells:
  assumes "\<forall>from\<in>set ods. copy_compat to from"
    and "\<forall>from\<in>set ods. \<forall>x t. in_bbox (od_bb (obj_desc from)) x \<and>
      t < unat (od_size (obj_desc to)) \<longrightarrow> cell_byte from x t = F x t"
  shows "\<exists>A'. ssd_copy_list c0 to ods = Some (to\<lparr>data := A'\<rparr>) \<and>
    (\<forall>x t. in_bbox (od_bb (obj_desc to)) x \<and> t < unat (od_size (obj_desc to)) \<longrightarrow>
       cell_byte (to\<lparr>data := A'\<rparr>) x t =
         (if \<exists>from\<in>set ods. in_bbox (od_bb (obj_desc from)) x then F x t else cell_byte to x t))"
  using assms
proof (induction ods arbitrary: to)
  case Nil
  have "ssd_copy_list c0 to [] = Some (to\<lparr>data := data to\<rparr>)" by (simp add: ssd_copy_list_def)
  then show ?case by (intro exI [of _ "data to"]) simp
next
  case (Cons fr ods)
  have "copy_compat to fr" using Cons.prems(1) by simp
  from ssd_copy_cells [OF this, of c0] obtain A1 where A1:
    "ssd_copy c0 to fr = Some (to\<lparr>data := A1\<rparr>)"
    "\<forall>x t. in_bbox (od_bb (obj_desc to)) x \<and> t < unat (od_size (obj_desc to)) \<longrightarrow>
       cell_byte (to\<lparr>data := A1\<rparr>) x t =
         (if in_bbox (od_bb (obj_desc fr)) x then cell_byte fr x t else cell_byte to x t)" by blast
  have "\<forall>from\<in>set ods. copy_compat (to\<lparr>data := A1\<rparr>) from"
    using Cons.prems(1) by (simp add: copy_compat_def)
  from Cons.IH [OF this] Cons.prems(2) obtain A2 where A2:
    "ssd_copy_list c0 (to\<lparr>data := A1\<rparr>) ods = Some (to\<lparr>data := A2\<rparr>)"
    "\<forall>x t. in_bbox (od_bb (obj_desc to)) x \<and> t < unat (od_size (obj_desc to)) \<longrightarrow>
       cell_byte (to\<lparr>data := A2\<rparr>) x t = (if \<exists>from\<in>set ods. in_bbox (od_bb (obj_desc from)) x then F x t
         else cell_byte (to\<lparr>data := A1\<rparr>) x t)"
    by auto
  show ?case
    using A1 A2 Cons.prems(2) by (intro exI [of _ A2]) (auto simp: ssd_copy_list_def)
qed


subsection \<open>Properties\<close>

text \<open>C7: \<open>ssd_copy\<close> copies exactly the common cells: for objects of one to nine dimensions with
  intersecting boxes and data that fits the address space, it returns; afterwards every cell of
  the target that the source covers has the element of the source, every other cell and every
  byte past the end of the target keeps its value.\<close>

theorem ssd_copy_copies_common_cells:
  assumes "copy_compat to fr"
  shows "\<exists>A'. ssd_copy c0 to fr = Some (to\<lparr>data := A'\<rparr>) \<and>
    (\<forall>x t. in_bbox (od_bb (obj_desc to)) x \<and> t < unat (od_size (obj_desc to)) \<longrightarrow>
       cell_byte (to\<lparr>data := A'\<rparr>) x t =
         (if in_bbox (od_bb (obj_desc fr)) x then cell_byte fr x t else cell_byte to x t)) \<and>
    (\<forall>p. unat (od_size (obj_desc to)) * bbox_vol (od_bb (obj_desc to)) \<le> p \<longrightarrow> A' p = data to p)"
  using ssd_copy_cells [OF assms] .

abbreviation grid_obj :: "coord \<Rightarrow> coord \<Rightarrow> (nat \<Rightarrow> byte) \<Rightarrow> nat \<Rightarrow> obj_data" where
  "grid_obj l u d n \<equiv> \<lparr>od_addr = 0, obj_desc = \<lparr>od_name = ''m'', od_st = column_major, od_owner = 0,
     od_version = 0, od_bb = \<lparr>num_dims = n, lb = l, ub = u\<rparr>, od_size = 2\<rparr>, od_gdim = gdim_zero,
     data = d, own_data = True, obj_ref = None, refcnt = 0, f_free = False\<rparr>"

lemma grid_compat:
  "copy_compat (grid_obj (vec [1, 1]) (vec [3, 2]) (\<lambda>_. 0) 2) (grid_obj (vec [0, 0]) (vec [2, 2]) of_nat 2)"
  by (simp add: copy_compat_def obj_fits_def bbox_wf_def bbox_does_intersect_def all_less_numeral
      bbox_intersect_ondim_def bbox_vol_def lessThan_nat_numeral lessThan_Suc)

theorem ssd_copy_copies_common_cells_witness:
  "\<exists>A'. ssd_copy \<lparr>num_dims = 0, lb = vec [], ub = vec []\<rparr>
       (grid_obj (vec [1, 1]) (vec [3, 2]) (\<lambda>_. 0) 2) (grid_obj (vec [0, 0]) (vec [2, 2]) of_nat 2) =
       Some (grid_obj (vec [1, 1]) (vec [3, 2]) A' 2) \<and>
     cell_byte (grid_obj (vec [1, 1]) (vec [3, 2]) A' 2) (vec [2, 1]) 1 = 11"
proof -
  have "cell_byte (grid_obj (vec [0, 0]) (vec [2, 2]) of_nat 2) (vec [2, 1]) 1 = 11"
    by (simp add: cell_byte_def cell_index_def mindex_def mweight_def bbox_dist_def coord_dist_def
        lessThan_nat_numeral lessThan_Suc)
  then show ?thesis
    using ssd_copy_copies_common_cells [OF grid_compat, of "\<lparr>num_dims = 0, lb = vec [], ub = vec []\<rparr>"]
    by (auto simp: in_bbox_def all_less_numeral)
qed

text \<open>C8: a get assembles the field: when all pieces hold the values of one field \<open>F\<close> on their
  boxes, \<open>ssd_copy_list\<close> returns an object that holds \<open>F\<close> on every cell some piece covers and its
  old content elsewhere, whatever the order of the pieces and their overlaps.\<close>

theorem ssd_copy_list_assembles_field:
  assumes "\<forall>fr\<in>set ods. copy_compat to fr"
    and "\<forall>fr\<in>set ods. \<forall>x t. in_bbox (od_bb (obj_desc fr)) x \<and>
      t < unat (od_size (obj_desc to)) \<longrightarrow> cell_byte fr x t = F x t"
  shows "\<exists>A'. ssd_copy_list c0 to ods = Some (to\<lparr>data := A'\<rparr>) \<and>
    (\<forall>x t. in_bbox (od_bb (obj_desc to)) x \<and> t < unat (od_size (obj_desc to)) \<longrightarrow>
       cell_byte (to\<lparr>data := A'\<rparr>) x t =
         (if \<exists>fr\<in>set ods. in_bbox (od_bb (obj_desc fr)) x then F x t else cell_byte to x t))"
  using ssd_copy_list_cells [OF assms] .

theorem ssd_copy_list_assembles_field_witness:
  "\<exists>A'. ssd_copy_list \<lparr>num_dims = 0, lb = vec [], ub = vec []\<rparr>
       (grid_obj (vec [1, 1]) (vec [3, 2]) (\<lambda>_. 0) 2) [grid_obj (vec [0, 0]) (vec [2, 2]) (\<lambda>_. 5) 2] =
       Some (grid_obj (vec [1, 1]) (vec [3, 2]) A' 2) \<and>
     cell_byte (grid_obj (vec [1, 1]) (vec [3, 2]) A' 2) (vec [2, 2]) 0 = 5"
proof -
  have "copy_compat (grid_obj (vec [1, 1]) (vec [3, 2]) (\<lambda>_. 0) 2) (grid_obj (vec [0, 0]) (vec [2, 2]) (\<lambda>_. 5) 2)"
    using grid_compat by (simp add: copy_compat_def)
  then obtain A' where A': "ssd_copy_list \<lparr>num_dims = 0, lb = vec [], ub = vec []\<rparr>
       (grid_obj (vec [1, 1]) (vec [3, 2]) (\<lambda>_. 0) 2) [grid_obj (vec [0, 0]) (vec [2, 2]) (\<lambda>_. 5) 2] =
       Some (grid_obj (vec [1, 1]) (vec [3, 2]) A' 2)"
    "\<forall>x t. in_bbox \<lparr>num_dims = 2, lb = vec [1, 1], ub = vec [3, 2]\<rparr> x \<and> t < 2 \<longrightarrow>
       cell_byte (grid_obj (vec [1, 1]) (vec [3, 2]) A' 2) x t =
         (if in_bbox \<lparr>num_dims = 2, lb = vec [0, 0], ub = vec [2, 2]\<rparr> x then 5
          else cell_byte (grid_obj (vec [1, 1]) (vec [3, 2]) (\<lambda>_. 0) 2) x t)"
    using ssd_copy_list_assembles_field [of "[grid_obj (vec [0, 0]) (vec [2, 2]) (\<lambda>_. 5) 2]"
        "grid_obj (vec [1, 1]) (vec [3, 2]) (\<lambda>_. 0) 2" "\<lambda>_ _. 5" "\<lparr>num_dims = 0, lb = vec [], ub = vec []\<rparr>"]
    by (auto simp: cell_byte_def)
  from A'(2) [rule_format, of "vec [2, 2]" 0] show ?thesis
    using A'(1) by (auto simp: in_bbox_def all_less_numeral)
qed

lemma matrix_copy_level_numeral:
  "matrix_copy_level a b B (numeral n) al bl A =
     for2 (mv_lb a (numeral n)) (mv_lb b (numeral n)) (mv_ub a (numeral n))
       (\<lambda>ak bk. matrix_copy_level a b B (pred_numeral n)
          ((al + ak) * dist a (pred_numeral n)) ((bl + bk) * dist b (pred_numeral n))) A"
  by (simp add: numeral_eq_Suc)

lemma for2_once: "unat hi < 2 ^ 64 - 1 \<Longrightarrow> for2 hi b hi f s = f hi b s"
proof -
  assume "unat hi < 2 ^ 64 - 1"
  then have "\<not> hi + 1 \<le> hi" by (simp add: u64_le_nat unat_add_u64)
  then show ?thesis
    by (simp add: for2_def for_u64.simps [of hi hi] for_u64.simps [of "hi + 1" hi] option.map_comp
        comp_def option.map_ident split: bind_splits)
qed


end
