(* ===== verification/DS_Lock.thy ===== *)
theory DS_Lock
  imports DS_DHT "HOL-Library.Multiset"
begin

text \<open>
  The lock services of a server (src/src/ds_gspace.c, \<open>lock_init\<close> to \<open>dsgrpc_lock_service\<close>): the
  generic reader/writer lock, the custom lock (a semaphore that alternates between one writer
  and \<open>max_readers\<close> readers), and version 3 (readers wait for the first write). Requests that
  cannot be granted are queued and reconsidered when the lock becomes free.
  \<^item> the function pointers of \<open>struct dsg_lock\<close> are the field \<open>lk_service\<close>;
  \<^item> the environment \<open>lenv\<close> holds the messages sent; \<open>lrc k\<close> is the outcome of the k-th call that
    can fail (allocation of a message or a queue cell, \<open>rpc_send\<close>): 0 is success;
  \<^item> \<open>lgranted\<close> is a ghost log of the requests whose grant message was sent.
  The locale \<open>lock_exclusion\<close> proves mutual exclusion over all interleavings of requests and
  releases, including lost grants; \<open>rw_lock\<close> and \<open>rw_fifo\<close> add progress and the order of grants over a
  transport without failures. They are interpreted for the three services.
\<close>

datatype lk_type = lk_read_get | lk_read_release | lk_write_get | lk_write_release | lk_grant

record lockhdr =
  lk_type :: lk_type
  lk_rc :: int
  lk_id :: int
  lock_num :: int
  lk_hname :: string

record lock_cmd =
  cmd_id :: int
  cmd_lh :: lockhdr

datatype lock_service_type = lock_unknown | lock_generic | lock_custom | lock_v3

datatype lock_state = unlocked | locked

datatype lock_action = la_none | la_wait | la_grant | la_notify

record dsg_lock =
  lk_name :: string
  rd_notify_cnt :: int
  wr_notify_cnt :: int
  rd_max :: int
  wr_max :: int
  rd_epoch :: int
  wr_epoch :: int
  rd_cnt :: int
  wr_cnt :: int
  rd_lock_state :: lock_state
  wr_lock_state :: lock_state
  wait_list :: "lock_cmd list"
  lk_service :: lock_service_type

record lenv =
  lsent :: "(int \<times> lockhdr) list"
  lgranted :: "lock_cmd list"
  lrc :: "nat \<Rightarrow> int"
  lcalls :: nat

subsection \<open>Initialisation\<close>

definition lock_init :: "dsg_lock \<Rightarrow> int \<Rightarrow> dsg_lock" where
  "lock_init dl max_readers =
     dl\<lparr>rd_lock_state := unlocked, wr_lock_state := unlocked, rd_cnt := 0, wr_cnt := 0\<rparr>"

definition sem_init :: "dsg_lock \<Rightarrow> int \<Rightarrow> dsg_lock" where
  "sem_init dl max_readers =
     dl\<lparr>wr_max := 1, rd_max := max_readers, wr_cnt := 1, rd_cnt := 0,
        wr_notify_cnt := 0, rd_notify_cnt := 0, rd_epoch := 0, wr_epoch := 0\<rparr>"

definition lock_init_v3 :: "dsg_lock \<Rightarrow> int \<Rightarrow> dsg_lock" where
  "lock_init_v3 dl max_readers =
     dl\<lparr>rd_lock_state := unlocked, wr_lock_state := unlocked, rd_cnt := 0, wr_cnt := 0,
        wr_epoch := 0\<rparr>"

subsection \<open>Queueing and granting\<close>

definition dsg_lock_put_on_wait :: "dsg_lock \<Rightarrow> lock_cmd \<Rightarrow> lenv \<Rightarrow> int \<times> dsg_lock \<times> lenv" where
  "dsg_lock_put_on_wait dl cmd n =
     (let n' = n\<lparr>lcalls := lcalls n + 1\<rparr> in
      if lrc n (lcalls n) = 0 then (0, dl\<lparr>wait_list := wait_list dl @ [cmd]\<rparr>, n')
      else (- ENOMEM, dl, n'))"

definition dsg_lock_grant :: "lock_cmd \<Rightarrow> lenv \<Rightarrow> int \<times> lenv" where
  "dsg_lock_grant cmd n =
     (let n' = n\<lparr>lcalls := lcalls n + 1\<rparr>; lhr = cmd_lh cmd in
      if lrc n (lcalls n) = 0
      then (0, n'\<lparr>lsent := lsent n @ [(cmd_id cmd,
                    \<lparr>lk_type = lk_grant, lk_rc = 0, lk_id = lk_id lhr,
                     lock_num = lock_num lhr + 1, lk_hname = lk_hname lhr\<rparr>)],
                  lgranted := lgranted n @ [cmd]\<rparr>)
      else (lrc n (lcalls n), n'))"

subsection \<open>Deciding a request\<close>

fun lock_process_request :: "dsg_lock \<Rightarrow> lockhdr \<Rightarrow> bool \<Rightarrow> lock_action \<times> dsg_lock" where
  "lock_process_request dl lh may_grant =
     (case lk_type lh of
        lk_read_get \<Rightarrow>
          if wr_lock_state dl = unlocked \<and> may_grant
          then (la_grant, dl\<lparr>rd_lock_state := locked, rd_cnt := rd_cnt dl + 1\<rparr>)
          else (la_wait, dl)
      | lk_read_release \<Rightarrow>
          let dl = dl\<lparr>rd_cnt := rd_cnt dl - 1\<rparr> in
          if rd_cnt dl = 0 then (la_notify, dl\<lparr>rd_lock_state := unlocked\<rparr>) else (la_none, dl)
      | lk_write_get \<Rightarrow>
          if rd_lock_state dl = unlocked \<and> wr_cnt dl = 0
          then (la_grant, dl\<lparr>wr_lock_state := locked, wr_cnt := wr_cnt dl + 1\<rparr>)
          else (la_wait, dl)
      | lk_write_release \<Rightarrow>
          let dl = dl\<lparr>wr_cnt := wr_cnt dl - 1\<rparr> in
          if wr_cnt dl = 0 then (la_notify, dl\<lparr>wr_lock_state := unlocked\<rparr>) else (la_none, dl)
      | lk_grant \<Rightarrow> (la_none, dl))"

fun sem_process_request :: "dsg_lock \<Rightarrow> lockhdr \<Rightarrow> bool \<Rightarrow> lock_action \<times> dsg_lock" where
  "sem_process_request dl lh may_grant =
     (case lk_type lh of
        lk_read_get \<Rightarrow>
          if rd_cnt dl > 0 \<and> lock_num lh = rd_epoch dl
          then (la_grant, dl\<lparr>rd_cnt := rd_cnt dl - 1\<rparr>) else (la_wait, dl)
      | lk_read_release \<Rightarrow>
          let dl = dl\<lparr>rd_notify_cnt := rd_notify_cnt dl + 1\<rparr> in
          if rd_notify_cnt dl = rd_max dl
          then (la_notify, dl\<lparr>rd_notify_cnt := 0, wr_cnt := wr_max dl, rd_epoch := rd_epoch dl + 1\<rparr>)
          else (la_none, dl)
      | lk_write_get \<Rightarrow>
          if wr_cnt dl > 0 \<and> lock_num lh = wr_epoch dl
          then (la_grant, dl\<lparr>wr_cnt := wr_cnt dl - 1\<rparr>) else (la_wait, dl)
      | lk_write_release \<Rightarrow>
          let dl = dl\<lparr>wr_notify_cnt := wr_notify_cnt dl + 1\<rparr> in
          if wr_notify_cnt dl = wr_max dl
          then (la_notify, dl\<lparr>wr_notify_cnt := 0, rd_cnt := rd_max dl, wr_epoch := wr_epoch dl + 1\<rparr>)
          else (la_none, dl)
      | lk_grant \<Rightarrow> (la_none, dl))"

fun lock_process_request_v3 :: "dsg_lock \<Rightarrow> lockhdr \<Rightarrow> bool \<Rightarrow> lock_action \<times> dsg_lock" where
  "lock_process_request_v3 dl lh may_grant =
     (case lk_type lh of
        lk_read_get \<Rightarrow>
          if wr_lock_state dl = unlocked \<and> wr_epoch dl > 0 \<and> may_grant
          then (la_grant, dl\<lparr>rd_lock_state := locked, rd_cnt := rd_cnt dl + 1\<rparr>)
          else (la_wait, dl)
      | lk_read_release \<Rightarrow>
          let dl = dl\<lparr>rd_cnt := rd_cnt dl - 1\<rparr> in
          if rd_cnt dl = 0 then (la_notify, dl\<lparr>rd_lock_state := unlocked\<rparr>) else (la_none, dl)
      | lk_write_get \<Rightarrow>
          if rd_lock_state dl = unlocked \<and> wr_cnt dl = 0
          then (la_grant, dl\<lparr>wr_lock_state := locked, wr_cnt := wr_cnt dl + 1\<rparr>)
          else (la_wait, dl)
      | lk_write_release \<Rightarrow>
          let dl = dl\<lparr>wr_cnt := wr_cnt dl - 1\<rparr> in
          if wr_cnt dl = 0
          then (la_notify, dl\<lparr>wr_lock_state := unlocked, wr_epoch := wr_epoch dl + 1\<rparr>)
          else (la_none, dl)
      | lk_grant \<Rightarrow> (la_none, dl))"

declare lock_process_request.simps [simp del] sem_process_request.simps [simp del]
  lock_process_request_v3.simps [simp del]

subsection \<open>The wait list\<close>

text \<open>
  \<open>while (!list_empty)\<close>: the head is reconsidered and unlinked, until one has to wait. The same
  loop with the two decision functions is \<open>lock_process_wait_list\<close> and its version 3.
\<close>

fun wait_list_loop ::
  "(dsg_lock \<Rightarrow> lockhdr \<Rightarrow> bool \<Rightarrow> lock_action \<times> dsg_lock) \<Rightarrow> lock_cmd list \<Rightarrow> dsg_lock \<Rightarrow> lenv \<Rightarrow>
     int \<times> dsg_lock \<times> lenv" where
  "wait_list_loop pr [] dl n = (0, dl\<lparr>wait_list := []\<rparr>, n)"
| "wait_list_loop pr (rr # ws) dl n =
     (case pr dl (cmd_lh rr) True of
        (la_none, dl') \<Rightarrow> (0, dl'\<lparr>wait_list := rr # ws\<rparr>, n)
      | (la_wait, dl') \<Rightarrow> (0, dl'\<lparr>wait_list := rr # ws\<rparr>, n)
      | (la_grant, dl') \<Rightarrow>
          (case dsg_lock_grant rr n of
             (err, n') \<Rightarrow> if err < 0 then (err, dl'\<lparr>wait_list := rr # ws\<rparr>, n')
                          else wait_list_loop pr ws dl' n')
      | (la_notify, dl') \<Rightarrow> wait_list_loop pr ws dl' n)"

definition lock_process_wait_list :: "dsg_lock \<Rightarrow> lenv \<Rightarrow> int \<times> dsg_lock \<times> lenv" where
  "lock_process_wait_list dl n = wait_list_loop lock_process_request (wait_list dl) dl n"

definition lock_process_wait_list_v3 :: "dsg_lock \<Rightarrow> lenv \<Rightarrow> int \<times> dsg_lock \<times> lenv" where
  "lock_process_wait_list_v3 dl n = wait_list_loop lock_process_request_v3 (wait_list dl) dl n"

text \<open>\<open>list_for_each_entry_safe\<close>: every entry is reconsidered; \<open>kept\<close> are the entries passed so far.\<close>

fun sem_wait_loop ::
  "lock_cmd list \<Rightarrow> lock_cmd list \<Rightarrow> dsg_lock \<Rightarrow> lenv \<Rightarrow> int \<times> dsg_lock \<times> lenv" where
  "sem_wait_loop kept [] dl n = (0, dl\<lparr>wait_list := kept\<rparr>, n)"
| "sem_wait_loop kept (rr # ws) dl n =
     (case sem_process_request dl (cmd_lh rr) True of
        (la_grant, dl') \<Rightarrow>
          (case dsg_lock_grant rr n of
             (err, n') \<Rightarrow> if err < 0 then (err, dl'\<lparr>wait_list := kept @ rr # ws\<rparr>, n')
                          else sem_wait_loop kept ws dl' n')
      | (_, dl') \<Rightarrow> sem_wait_loop (kept @ [rr]) ws dl' n)"

definition sem_process_wait_list :: "dsg_lock \<Rightarrow> lenv \<Rightarrow> int \<times> dsg_lock \<times> lenv" where
  "sem_process_wait_list dl n = sem_wait_loop [] (wait_list dl) dl n"

subsection \<open>The services\<close>

definition lock_service :: "dsg_lock \<Rightarrow> lock_cmd \<Rightarrow> lenv \<Rightarrow> int \<times> dsg_lock \<times> lenv" where
  "lock_service dl cmd n =
     (case lock_process_request dl (cmd_lh cmd) (wait_list dl = []) of
        (la_none, dl') \<Rightarrow> (0, dl', n)
      | (la_wait, dl') \<Rightarrow> dsg_lock_put_on_wait dl' cmd n
      | (la_notify, dl') \<Rightarrow> lock_process_wait_list dl' n
      | (la_grant, dl') \<Rightarrow> (case dsg_lock_grant cmd n of (err, n') \<Rightarrow> (err, dl', n')))"

definition sem_service :: "dsg_lock \<Rightarrow> lock_cmd \<Rightarrow> lenv \<Rightarrow> int \<times> dsg_lock \<times> lenv" where
  "sem_service dl cmd n =
     (case sem_process_request dl (cmd_lh cmd) False of
        (la_wait, dl') \<Rightarrow> dsg_lock_put_on_wait dl' cmd n
      | (la_notify, dl') \<Rightarrow> sem_process_wait_list dl' n
      | (la_grant, dl') \<Rightarrow> (case dsg_lock_grant cmd n of (err, n') \<Rightarrow> (err, dl', n'))
      | (la_none, dl') \<Rightarrow> (0, dl', n))"

definition lock_service_v3 :: "dsg_lock \<Rightarrow> lock_cmd \<Rightarrow> lenv \<Rightarrow> int \<times> dsg_lock \<times> lenv" where
  "lock_service_v3 dl cmd n =
     (case lock_process_request_v3 dl (cmd_lh cmd) (wait_list dl = []) of
        (la_none, dl') \<Rightarrow> (0, dl', n)
      | (la_wait, dl') \<Rightarrow> dsg_lock_put_on_wait dl' cmd n
      | (la_notify, dl') \<Rightarrow> lock_process_wait_list_v3 dl' n
      | (la_grant, dl') \<Rightarrow> (case dsg_lock_grant cmd n of (err, n') \<Rightarrow> (err, dl', n')))"

subsection \<open>The table of locks\<close>

definition lock_zero :: "string \<Rightarrow> lock_service_type \<Rightarrow> dsg_lock" where
  "lock_zero name ty =
     \<lparr>lk_name = name, rd_notify_cnt = 0, wr_notify_cnt = 0, rd_max = 0, wr_max = 0, rd_epoch = 0,
      wr_epoch = 0, rd_cnt = 0, wr_cnt = 0, rd_lock_state = unlocked, wr_lock_state = unlocked,
      wait_list = [], lk_service = ty\<rparr>"

text \<open>
  The outer option is \<open>None\<close> when \<open>init\<close> is called through a NULL function pointer (unknown lock
  type), the inner one when malloc fails.
\<close>

definition dsg_lock_alloc ::
  "bool \<Rightarrow> string \<Rightarrow> lock_service_type \<Rightarrow> int \<Rightarrow> dsg_lock option option" where
  "dsg_lock_alloc malloc_ok lock_name ty max_readers =
     (if \<not> malloc_ok then Some None
      else case ty of
             lock_generic \<Rightarrow> Some (Some (lock_init (lock_zero lock_name ty) max_readers))
           | lock_custom \<Rightarrow> Some (Some (sem_init (lock_zero lock_name ty) max_readers))
           | lock_v3 \<Rightarrow> Some (Some (lock_init_v3 (lock_zero lock_name ty) max_readers))
           | lock_unknown \<Rightarrow> None)"

definition dsg_lock_find_by_name :: "dsg_lock list \<Rightarrow> string \<Rightarrow> dsg_lock option" where
  "dsg_lock_find_by_name locks name = find (\<lambda>dl. lk_name dl = name) locks"

text \<open>The pointer \<open>service\<close> that \<open>dsg_lock_alloc\<close> installs; NULL for an unknown type.\<close>

definition service_ptr ::
  "lock_service_type \<Rightarrow> (dsg_lock \<Rightarrow> lock_cmd \<Rightarrow> lenv \<Rightarrow> int \<times> dsg_lock \<times> lenv) option" where
  "service_ptr ty =
     (case ty of
        lock_generic \<Rightarrow> Some lock_service
      | lock_custom \<Rightarrow> Some sem_service
      | lock_v3 \<Rightarrow> Some lock_service_v3
      | lock_unknown \<Rightarrow> None)"

definition lock_dispatch :: "dsg_lock \<Rightarrow> lock_cmd \<Rightarrow> lenv \<Rightarrow> (int \<times> dsg_lock \<times> lenv) option" where
  "lock_dispatch dl cmd n = map_option (\<lambda>service. service dl cmd n) (service_ptr (lk_service dl))"

fun replace_lock :: "dsg_lock list \<Rightarrow> dsg_lock \<Rightarrow> dsg_lock list" where
  "replace_lock [] dl = []"
| "replace_lock (d # ds) dl = (if lk_name d = lk_name dl then dl # ds else d # replace_lock ds dl)"

definition dsgrpc_lock_service ::
  "bool \<Rightarrow> lock_service_type \<Rightarrow> int \<Rightarrow> dsg_lock list \<Rightarrow> lock_cmd \<Rightarrow> lenv \<Rightarrow>
     (int \<times> dsg_lock list \<times> lenv) option" where
  "dsgrpc_lock_service malloc_ok ty max_readers locks cmd n =
     (let name = lk_hname (cmd_lh cmd) in
      case dsg_lock_find_by_name locks name of
        Some dl \<Rightarrow> map_option (\<lambda>(err, dl', n'). (err, replace_lock locks dl', n'))
                     (lock_dispatch dl cmd n)
      | None \<Rightarrow>
          (case dsg_lock_alloc malloc_ok name ty max_readers of
             None \<Rightarrow> None
           | Some None \<Rightarrow> Some (- ENOMEM, locks, n)
           | Some (Some dl) \<Rightarrow>
               map_option (\<lambda>(err, dl', n'). (err, dl' # locks, n')) (lock_dispatch dl cmd n)))"

subsection \<open>The protocol\<close>

text \<open>
  A lock and its clients, as the server sees them: \<open>rds\<close> and \<open>wrs\<close> are the clients that were sent
  a grant and have not released it; \<open>reqs\<close> is the log of the requests that arrived. Clients may
  request at any time; they release only what they hold.
\<close>

type_synonym lock_svc = "dsg_lock \<Rightarrow> lock_cmd \<Rightarrow> lenv \<Rightarrow> int \<times> dsg_lock \<times> lenv"

record lock_sys =
  sy_lock :: dsg_lock
  sy_env :: lenv
  rds :: "int list"
  wrs :: "int list"
  reqs :: "lock_cmd list"

definition is_get :: "lock_cmd \<Rightarrow> bool" where
  "is_get c \<longleftrightarrow> lk_type (cmd_lh c) = lk_read_get \<or> lk_type (cmd_lh c) = lk_write_get"

definition reads :: "lock_cmd list \<Rightarrow> int list" where
  "reads gs = map cmd_id (filter (\<lambda>c. lk_type (cmd_lh c) = lk_read_get) gs)"

definition writes :: "lock_cmd list \<Rightarrow> int list" where
  "writes gs = map cmd_id (filter (\<lambda>c. lk_type (cmd_lh c) = lk_write_get) gs)"

definition new_grants :: "lenv \<Rightarrow> lenv \<Rightarrow> lock_cmd list" where
  "new_grants n n' = drop (length (lgranted n)) (lgranted n')"

inductive lock_reach :: "lock_svc \<Rightarrow> dsg_lock \<Rightarrow> lenv \<Rightarrow> lock_sys \<Rightarrow> bool" for svc dl0 n0 where
  start: "lock_reach svc dl0 n0 \<lparr>sy_lock = dl0, sy_env = n0, rds = [], wrs = [], reqs = []\<rparr>"
| request: "lock_reach svc dl0 n0 s \<Longrightarrow> is_get cmd \<Longrightarrow> svc (sy_lock s) cmd (sy_env s) = (err, dl', n') \<Longrightarrow>
    gs = new_grants (sy_env s) n' \<Longrightarrow>
    lock_reach svc dl0 n0 \<lparr>sy_lock = dl', sy_env = n', rds = rds s @ reads gs, wrs = wrs s @ writes gs,
      reqs = reqs s @ [cmd]\<rparr>"
| read_release: "lock_reach svc dl0 n0 s \<Longrightarrow> lk_type (cmd_lh cmd) = lk_read_release \<Longrightarrow>
    cmd_id cmd \<in> set (rds s) \<Longrightarrow> svc (sy_lock s) cmd (sy_env s) = (err, dl', n') \<Longrightarrow>
    gs = new_grants (sy_env s) n' \<Longrightarrow>
    lock_reach svc dl0 n0 \<lparr>sy_lock = dl', sy_env = n', rds = remove1 (cmd_id cmd) (rds s) @ reads gs,
      wrs = wrs s @ writes gs, reqs = reqs s\<rparr>"
| write_release: "lock_reach svc dl0 n0 s \<Longrightarrow> lk_type (cmd_lh cmd) = lk_write_release \<Longrightarrow>
    cmd_id cmd \<in> set (wrs s) \<Longrightarrow> svc (sy_lock s) cmd (sy_env s) = (err, dl', n') \<Longrightarrow>
    gs = new_grants (sy_env s) n' \<Longrightarrow>
    lock_reach svc dl0 n0 \<lparr>sy_lock = dl', sy_env = n', rds = rds s @ reads gs,
      wrs = remove1 (cmd_id cmd) (wrs s) @ writes gs, reqs = reqs s\<rparr>"

definition nreads :: "lock_cmd list \<Rightarrow> int" where
  "nreads gs = int (length (reads gs))"

definition nwrites :: "lock_cmd list \<Rightarrow> int" where
  "nwrites gs = int (length (writes gs))"

lemma nreads_simps [simp]:
  "nreads [] = 0" "nreads (g # gs) = (if lk_type (cmd_lh g) = lk_read_get then 1 else 0) + nreads gs"
  "nwrites [] = 0" "nwrites (g # gs) = (if lk_type (cmd_lh g) = lk_write_get then 1 else 0) + nwrites gs"
  "nreads (gs @ hs) = nreads gs + nreads hs" "nwrites (gs @ hs) = nwrites gs + nwrites hs"
  by (auto simp: nreads_def nwrites_def reads_def writes_def)

lemma new_grants_append [simp]: "lgranted n' = lgranted n @ gs \<Longrightarrow> new_grants n n' = gs"
  by (simp add: new_grants_def)

lemma int_length_remove1:
  "c \<in> set xs \<Longrightarrow> 0 < int (length xs) \<and> int (length (remove1 c xs)) = int (length xs) - 1"
  by (induction xs) auto

text \<open>
  The contract of a lock service: an invariant \<open>J\<close> over the lock and the numbers of granted
  readers and writers that every request and release keeps, and that allows one writer alone.
\<close>

locale lock_exclusion =
  fixes svc :: lock_svc
    and dl0 :: dsg_lock
    and J :: "dsg_lock \<Rightarrow> int \<Rightarrow> int \<Rightarrow> bool"
  assumes J_init: "J dl0 0 0"
    and J_excl: "J dl r w \<Longrightarrow> 0 < w \<Longrightarrow> w = 1 \<and> r = 0"
    and J_get: "J dl r w \<Longrightarrow> is_get cmd \<Longrightarrow> svc dl cmd n = (err, dl', n') \<Longrightarrow>
      \<exists>gs. lgranted n' = lgranted n @ gs \<and> J dl' (r + nreads gs) (w + nwrites gs)"
    and J_read_release: "J dl r w \<Longrightarrow> 0 < r \<Longrightarrow> lk_type (cmd_lh cmd) = lk_read_release \<Longrightarrow>
      svc dl cmd n = (err, dl', n') \<Longrightarrow>
      \<exists>gs. lgranted n' = lgranted n @ gs \<and> J dl' (r - 1 + nreads gs) (w + nwrites gs)"
    and J_write_release: "J dl r w \<Longrightarrow> 0 < w \<Longrightarrow> lk_type (cmd_lh cmd) = lk_write_release \<Longrightarrow>
      svc dl cmd n = (err, dl', n') \<Longrightarrow>
      \<exists>gs. lgranted n' = lgranted n @ gs \<and> J dl' (r + nreads gs) (w - 1 + nwrites gs)"
begin

lemma reach_J:
  "lock_reach svc dl0 n0 s \<Longrightarrow> J (sy_lock s) (int (length (rds s))) (int (length (wrs s)))"
proof (induction rule: lock_reach.induct)
  case start
  show ?case using J_init by simp
next
  case (request s cmd err dl' n' gs)
  from J_get [OF request.IH request.hyps(2,3)] show ?case
    using request.hyps(4) by (auto simp: nreads_def nwrites_def)
next
  case (read_release s cmd err dl' n' gs)
  note len = int_length_remove1 [OF read_release.hyps(3)]
  with J_read_release [OF read_release.IH _ read_release.hyps(2,4)] show ?case
    using read_release.hyps(5) len by (auto simp: nreads_def nwrites_def)
next
  case (write_release s cmd err dl' n' gs)
  note len = int_length_remove1 [OF write_release.hyps(3)]
  with J_write_release [OF write_release.IH _ write_release.hyps(2,4)] show ?case
    using write_release.hyps(5) len by (auto simp: nreads_def nwrites_def)
qed

lemma mutual_exclusion:
  "lock_reach svc dl0 n0 s \<Longrightarrow> wrs s \<noteq> [] \<Longrightarrow> length (wrs s) = 1 \<and> rds s = []"
  using J_excl [OF reach_J] by fastforce

end

subsection \<open>Reader/writer locks\<close>

text \<open>
  The generic lock and version 3 differ only in an extra condition for readers and in a counter
  that a finished write advances.
\<close>

definition rw_inv :: "dsg_lock \<Rightarrow> int \<Rightarrow> int \<Rightarrow> bool" where
  "rw_inv dl r w \<longleftrightarrow>
     (rd_lock_state dl = locked \<longleftrightarrow> 0 < rd_cnt dl) \<and> (wr_lock_state dl = locked \<longleftrightarrow> 0 < wr_cnt dl) \<and>
     0 \<le> r \<and> r \<le> rd_cnt dl \<and> 0 \<le> w \<and> w \<le> wr_cnt dl \<and> wr_cnt dl \<le> 1 \<and>
     \<not> (0 < rd_cnt dl \<and> 0 < wr_cnt dl) \<and> (\<forall>c\<in>set (wait_list dl). is_get c)"

lemma rw_inv_read_grant:
  assumes "rw_inv dl r w" "wr_lock_state dl = unlocked" "d \<in> {0, 1}"
  shows "rw_inv (dl\<lparr>rd_lock_state := locked, rd_cnt := rd_cnt dl + 1\<rparr>) (r + d) w"
proof -
  have "wr_cnt dl \<le> 0" using assms(1,2) unfolding rw_inv_def by auto
  then show ?thesis using assms unfolding rw_inv_def by auto
qed

lemma rw_inv_write_grant:
  assumes "rw_inv dl r w" "rd_lock_state dl = unlocked" "wr_cnt dl = 0" "d \<in> {0, 1}"
  shows "rw_inv (dl\<lparr>wr_lock_state := locked, wr_cnt := wr_cnt dl + 1\<rparr>) r (w + d)"
proof -
  have "rd_cnt dl \<le> 0" using assms(1,2) unfolding rw_inv_def by auto
  then show ?thesis using assms unfolding rw_inv_def by auto
qed

lemma rw_inv_read_release:
  assumes "rw_inv dl r w" "0 < r"
  shows "rd_cnt dl = 1 \<Longrightarrow> rw_inv (dl\<lparr>rd_cnt := 0, rd_lock_state := unlocked\<rparr>) (r - 1) w"
    "rd_cnt dl \<noteq> 1 \<Longrightarrow> rw_inv (dl\<lparr>rd_cnt := rd_cnt dl - 1\<rparr>) (r - 1) w"
proof -
  have "0 < rd_cnt dl" using assms unfolding rw_inv_def by linarith
  then show "rd_cnt dl = 1 \<Longrightarrow> rw_inv (dl\<lparr>rd_cnt := 0, rd_lock_state := unlocked\<rparr>) (r - 1) w"
    "rd_cnt dl \<noteq> 1 \<Longrightarrow> rw_inv (dl\<lparr>rd_cnt := rd_cnt dl - 1\<rparr>) (r - 1) w"
    using assms unfolding rw_inv_def by simp_all
qed

lemma rw_inv_write_release:
  assumes "rw_inv dl r w" "0 < w"
  shows "wr_cnt dl = 1" "rw_inv (dl\<lparr>wr_cnt := 0, wr_lock_state := unlocked\<rparr>) r (w - 1)"
proof -
  show "wr_cnt dl = 1" using assms unfolding rw_inv_def by linarith
  then show "rw_inv (dl\<lparr>wr_cnt := 0, wr_lock_state := unlocked\<rparr>) r (w - 1)"
    using assms unfolding rw_inv_def by simp
qed

lemma dsg_lock_grant_result:
  assumes "dsg_lock_grant c n = (err, n')"
  shows "lgranted n' = lgranted n @ (if err = 0 then [c] else [])" "lrc n' = lrc n"
    "err = lrc n (lcalls n)"
  using assms by (auto simp: dsg_lock_grant_def Let_def split: if_splits)

lemma dsg_lock_put_on_wait_result:
  assumes "dsg_lock_put_on_wait dl c n = (err, dl', n')"
  shows "lgranted n' = lgranted n" "lrc n' = lrc n"
    "dl' = (if lrc n (lcalls n) = 0 then dl\<lparr>wait_list := wait_list dl @ [c]\<rparr> else dl)"
  using assms by (auto simp: dsg_lock_put_on_wait_def Let_def split: if_splits)

locale rw_lock =
  fixes pr :: "dsg_lock \<Rightarrow> lockhdr \<Rightarrow> bool \<Rightarrow> lock_action \<times> dsg_lock"
    and can_read :: "dsg_lock \<Rightarrow> bool"
    and bump :: "dsg_lock \<Rightarrow> dsg_lock"
    and svc :: lock_svc
    and dl0 :: dsg_lock
  assumes pr_read: "lk_type lh = lk_read_get \<Longrightarrow> pr dl lh mg =
      (if wr_lock_state dl = unlocked \<and> can_read dl \<and> mg
       then (la_grant, dl\<lparr>rd_lock_state := locked, rd_cnt := rd_cnt dl + 1\<rparr>) else (la_wait, dl))"
    and pr_write: "lk_type lh = lk_write_get \<Longrightarrow> pr dl lh mg =
      (if rd_lock_state dl = unlocked \<and> wr_cnt dl = 0
       then (la_grant, dl\<lparr>wr_lock_state := locked, wr_cnt := wr_cnt dl + 1\<rparr>) else (la_wait, dl))"
    and pr_read_release: "lk_type lh = lk_read_release \<Longrightarrow> pr dl lh mg =
      (if rd_cnt dl = 1 then (la_notify, dl\<lparr>rd_cnt := 0, rd_lock_state := unlocked\<rparr>)
       else (la_none, dl\<lparr>rd_cnt := rd_cnt dl - 1\<rparr>))"
    and pr_write_release: "lk_type lh = lk_write_release \<Longrightarrow> pr dl lh mg =
      (if wr_cnt dl = 1 then (la_notify, bump (dl\<lparr>wr_cnt := 0, wr_lock_state := unlocked\<rparr>))
       else (la_none, dl\<lparr>wr_cnt := wr_cnt dl - 1\<rparr>))"
    and bump_sel: "rd_cnt (bump dl) = rd_cnt dl" "wr_cnt (bump dl) = wr_cnt dl"
      "rd_lock_state (bump dl) = rd_lock_state dl" "wr_lock_state (bump dl) = wr_lock_state dl"
      "wait_list (bump dl) = wait_list dl"
    and can_read_indep: "can_read (dl\<lparr>rd_cnt := x\<rparr>) = can_read dl"
      "can_read (dl\<lparr>wait_list := ws\<rparr>) = can_read dl"
    and svc_eq: "svc dl cmd n =
     (case pr dl (cmd_lh cmd) (wait_list dl = []) of
        (la_none, dl') \<Rightarrow> (0, dl', n)
      | (la_wait, dl') \<Rightarrow> dsg_lock_put_on_wait dl' cmd n
      | (la_notify, dl') \<Rightarrow> wait_list_loop pr (wait_list dl') dl' n
      | (la_grant, dl') \<Rightarrow> (case dsg_lock_grant cmd n of (err, n') \<Rightarrow> (err, dl', n')))"
    and init_inv: "rw_inv dl0 0 0" "wait_list dl0 = []"
    and exact_init: "rd_cnt dl0 = 0" "wr_cnt dl0 = 0"
begin

lemma pr_get_inv:
  assumes "rw_inv dl r w" "is_get c" "pr dl (cmd_lh c) mg = (act, dl')"
  shows "act = la_wait \<and> dl' = dl \<or>
    act = la_grant \<and> wait_list dl' = wait_list dl \<and> rw_inv dl' r w \<and>
    rw_inv dl' (r + nreads [c]) (w + nwrites [c])"
  using assms(2) unfolding is_get_def
proof
  assume t: "lk_type (cmd_lh c) = lk_read_get"
  then show ?thesis
    using pr_read [OF t, of dl mg] assms(3) rw_inv_read_grant [OF assms(1), of 0]
      rw_inv_read_grant [OF assms(1), of 1] by (simp split: if_splits)
next
  assume t: "lk_type (cmd_lh c) = lk_write_get"
  then show ?thesis
    using pr_write [OF t, of dl mg] assms(3) rw_inv_write_grant [OF assms(1), of 0]
      rw_inv_write_grant [OF assms(1), of 1] by (simp split: if_splits)
qed

lemma rw_inv_wait_list:
  "rw_inv dl r w \<Longrightarrow> \<forall>c\<in>set ws. is_get c \<Longrightarrow> rw_inv (dl\<lparr>wait_list := ws\<rparr>) r w"
  by (simp add: rw_inv_def)

lemma wait_list_loop_inv:
  assumes "rw_inv dl r w" "\<forall>c\<in>set ws. is_get c" "wait_list_loop pr ws dl n = (err, dl', n')"
  shows "\<exists>gs. lgranted n' = lgranted n @ gs \<and> rw_inv dl' (r + nreads gs) (w + nwrites gs)"
  using assms
proof (induction ws arbitrary: dl n r w)
  case Nil
  then show ?case by (auto intro!: exI [of _ "[]"] rw_inv_wait_list)
next
  case (Cons c ws)
  obtain act dl1 where p: "pr dl (cmd_lh c) True = (act, dl1)" by fastforce
  have c: "is_get c" "\<forall>c\<in>set ws. is_get c" using Cons.prems(2) by auto
  consider "act = la_wait" "dl1 = dl" | "act = la_grant" "rw_inv dl1 r w" "rw_inv dl1 (r + nreads [c]) (w + nwrites [c])"
    using pr_get_inv [OF Cons.prems(1) c(1) p] by blast
  then show ?case
  proof cases
    case 1
    then have "n' = n" "dl' = dl\<lparr>wait_list := c # ws\<rparr>" using Cons.prems(3) p by auto
    then show ?thesis
      using rw_inv_wait_list [OF Cons.prems(1), of "c # ws"] Cons.prems(2) by (intro exI [of _ "[]"]) simp
  next
    case 2
    obtain e n1 where g: "dsg_lock_grant c n = (e, n1)" by fastforce
    note G = dsg_lock_grant_result [OF g]
    let ?gs = "if e = 0 then [c] else []"
    have inv1: "rw_inv dl1 (r + nreads ?gs) (w + nwrites ?gs)" using 2 by auto
    show ?thesis
    proof (cases "e < 0")
      case True
      then have "n' = n1" "dl' = dl1\<lparr>wait_list := c # ws\<rparr>" using Cons.prems(3) p g 2(1) by auto
      then show ?thesis
        using rw_inv_wait_list [OF inv1, of "c # ws"] Cons.prems(2) G(1) by blast
    next
      case False
      then have "wait_list_loop pr ws dl1 n1 = (err, dl', n')" using Cons.prems(3) p g 2(1) by auto
      from Cons.IH [OF inv1 c(2) this] obtain hs where
        "lgranted n' = lgranted n1 @ hs" "rw_inv dl' (r + nreads ?gs + nreads hs) (w + nwrites ?gs + nwrites hs)"
        by blast
      then show ?thesis using G(1) by (intro exI [of _ "?gs @ hs"]) (simp add: add.assoc)
    qed
  qed
qed

lemma svc_get_inv:
  assumes "rw_inv dl r w" "is_get c" "svc dl c n = (err, dl', n')"
  shows "\<exists>gs. lgranted n' = lgranted n @ gs \<and> rw_inv dl' (r + nreads gs) (w + nwrites gs)"
proof -
  obtain act dl1 where p: "pr dl (cmd_lh c) (wait_list dl = []) = (act, dl1)" by fastforce
  consider "act = la_wait" "dl1 = dl" | "act = la_grant" "rw_inv dl1 r w" "rw_inv dl1 (r + nreads [c]) (w + nwrites [c])"
    using pr_get_inv [OF assms(1,2) p] by blast
  then show ?thesis
  proof cases
    case 1
    then have "dsg_lock_put_on_wait dl c n = (err, dl', n')" using assms(3) p by (simp add: svc_eq)
    note W = dsg_lock_put_on_wait_result [OF this]
    have "rw_inv dl' r w" using assms(1,2) by (auto simp: W(3) rw_inv_def)
    then show ?thesis using W(1) by (intro exI [of _ "[]"]) simp
  next
    case 2
    then have "dsg_lock_grant c n = (err, n')" "dl' = dl1"
      using assms(3) p by (auto simp: svc_eq split: prod.splits)
    then show ?thesis
      using dsg_lock_grant_result(1) 2 by (intro exI [of _ "if err = 0 then [c] else []"]) auto
  qed
qed

lemma rw_inv_bump [simp]: "rw_inv (bump dl) r w = rw_inv dl r w"
  by (simp add: rw_inv_def bump_sel)

lemma pr_release_inv:
  assumes "rw_inv dl r w"
    and "lk_type (cmd_lh c) = lk_read_release \<and> 0 < r \<and> r' = r - 1 \<and> w' = w \<or>
         lk_type (cmd_lh c) = lk_write_release \<and> 0 < w \<and> r' = r \<and> w' = w - 1"
    and "pr dl (cmd_lh c) mg = (act, dl1)"
  shows "(act = la_none \<or> act = la_notify) \<and> rw_inv dl1 r' w' \<and> wait_list dl1 = wait_list dl"
  using assms(2)
proof
  assume t: "lk_type (cmd_lh c) = lk_read_release \<and> 0 < r \<and> r' = r - 1 \<and> w' = w"
  then show ?thesis
    using pr_read_release [of "cmd_lh c" dl mg] assms(3) rw_inv_read_release [OF assms(1)]
    by (cases "rd_cnt dl = 1") auto
next
  assume t: "lk_type (cmd_lh c) = lk_write_release \<and> 0 < w \<and> r' = r \<and> w' = w - 1"
  then show ?thesis
    using pr_write_release [of "cmd_lh c" dl mg] assms(3) rw_inv_write_release [OF assms(1)]
    by (auto simp: bump_sel)
qed

lemma svc_release_inv:
  assumes "rw_inv dl r w" "svc dl c n = (err, dl', n')"
    and "lk_type (cmd_lh c) = lk_read_release \<and> 0 < r \<and> r' = r - 1 \<and> w' = w \<or>
         lk_type (cmd_lh c) = lk_write_release \<and> 0 < w \<and> r' = r \<and> w' = w - 1"
  shows "\<exists>gs. lgranted n' = lgranted n @ gs \<and> rw_inv dl' (r' + nreads gs) (w' + nwrites gs)"
proof -
  obtain act dl1 where p: "pr dl (cmd_lh c) (wait_list dl = []) = (act, dl1)" by fastforce
  have a: "act = la_none \<or> act = la_notify" "rw_inv dl1 r' w'"
    using pr_release_inv [OF assms(1,3) p] by auto
  from a(1) show ?thesis
  proof
    assume "act = la_none"
    then have "dl' = dl1" "n' = n" using assms(2) p by (auto simp: svc_eq)
    then show ?thesis using a(2) by (intro exI [of _ "[]"]) simp
  next
    assume "act = la_notify"
    then have "wait_list_loop pr (wait_list dl1) dl1 n = (err, dl', n')" using assms(2) p by (simp add: svc_eq)
    then show ?thesis using wait_list_loop_inv [OF a(2)] a(2) by (auto simp: rw_inv_def)
  qed
qed

end

sublocale rw_lock \<subseteq> lock_exclusion svc dl0 rw_inv
proof
  show "rw_inv dl0 0 0" by (rule init_inv)
  show "rw_inv dl r w \<Longrightarrow> 0 < w \<Longrightarrow> w = 1 \<and> r = 0" for dl r w by (auto simp: rw_inv_def)
qed (use svc_get_inv svc_release_inv in blast)+

subsection \<open>Progress over a reliable transport\<close>

text \<open>The head of the wait list could not be granted in the present state.\<close>

definition head_blocked :: "(dsg_lock \<Rightarrow> lockhdr \<Rightarrow> bool \<Rightarrow> lock_action \<times> dsg_lock) \<Rightarrow> dsg_lock \<Rightarrow> bool" where
  "head_blocked pr dl \<longleftrightarrow>
     (case wait_list dl of [] \<Rightarrow> True | c # _ \<Rightarrow> fst (pr dl (cmd_lh c) True) = la_wait)"

definition reliable :: "lenv \<Rightarrow> bool" where
  "reliable n \<longleftrightarrow> lrc n = (\<lambda>_. 0)"

text \<open>With a reliable transport the counters are the numbers of holders.\<close>

definition rw_exact :: "dsg_lock \<Rightarrow> int \<Rightarrow> int \<Rightarrow> bool" where
  "rw_exact dl r w \<longleftrightarrow> rw_inv dl r w \<and> r = rd_cnt dl \<and> w = wr_cnt dl"

lemma lock_state_cases: "st \<noteq> unlocked \<longleftrightarrow> st = locked"
  by (cases st) auto

lemma rw_exactD: "rw_exact dl r w \<Longrightarrow> rw_inv dl r w" "rw_exact dl r w \<Longrightarrow> r = rd_cnt dl"
    "rw_exact dl r w \<Longrightarrow> w = wr_cnt dl"
  unfolding rw_exact_def by blast+

lemma rw_exact_states:
  assumes "rw_exact dl r w"
  shows "rd_lock_state dl = unlocked \<longleftrightarrow> \<not> 0 < r" "wr_lock_state dl = unlocked \<longleftrightarrow> \<not> 0 < w"
    "wr_cnt dl = 0 \<longleftrightarrow> \<not> 0 < w"
proof -
  note D = rw_exactD [OF assms]
  have I: "rd_lock_state dl = locked \<longleftrightarrow> 0 < r" "wr_lock_state dl = locked \<longleftrightarrow> 0 < w" "0 \<le> w"
    using D(1) unfolding rw_inv_def D(2,3) by blast+
  show "rd_lock_state dl = unlocked \<longleftrightarrow> \<not> 0 < r" "wr_lock_state dl = unlocked \<longleftrightarrow> \<not> 0 < w"
    using I(1,2) lock_state_cases by auto
  show "wr_cnt dl = 0 \<longleftrightarrow> \<not> 0 < w" using I(3) D(3) by linarith
qed

lemma reliable_grant: "reliable n \<Longrightarrow> dsg_lock_grant c n = (err, n') \<Longrightarrow>
    err = 0 \<and> reliable n' \<and> lgranted n' = lgranted n @ [c]"
  using dsg_lock_grant_result [of c n err n'] by (simp add: reliable_def)

lemma reliable_wait: "reliable n \<Longrightarrow> dsg_lock_put_on_wait dl c n = (err, dl', n') \<Longrightarrow>
    reliable n' \<and> lgranted n' = lgranted n \<and> dl' = dl\<lparr>wait_list := wait_list dl @ [c]\<rparr>"
  using dsg_lock_put_on_wait_result [of dl c n err dl' n'] by (simp add: reliable_def)

context rw_lock
begin

lemma blocked_read:
  "lk_type lh = lk_read_get \<Longrightarrow> fst (pr dl lh True) = la_wait \<longleftrightarrow> \<not> (wr_lock_state dl = unlocked \<and> can_read dl)"
  by (simp add: pr_read)

lemma blocked_write:
  "lk_type lh = lk_write_get \<Longrightarrow> fst (pr dl lh True) = la_wait \<longleftrightarrow> \<not> (rd_lock_state dl = unlocked \<and> wr_cnt dl = 0)"
  by (simp add: pr_write)

lemma blocked_wait_list:
  "is_get c \<Longrightarrow> fst (pr (dl\<lparr>wait_list := ws\<rparr>) (cmd_lh c) True) = la_wait \<longleftrightarrow> fst (pr dl (cmd_lh c) True) = la_wait"
  by (auto simp: is_get_def blocked_read blocked_write can_read_indep)

lemma pr_get_exact:
  assumes "rw_exact dl r w" "is_get c" "pr dl (cmd_lh c) mg = (la_grant, dl')"
  shows "rw_exact dl' (r + nreads [c]) (w + nwrites [c])" "wait_list dl' = wait_list dl"
    "lk_type (cmd_lh c) = lk_write_get \<Longrightarrow> wr_lock_state dl' = locked \<and> 0 < wr_cnt dl'"
    "lk_type (cmd_lh c) = lk_read_get \<Longrightarrow> mg"
proof -
  note D = rw_exactD [OF assms(1)]
  have I: "rw_inv dl' (r + nreads [c]) (w + nwrites [c])" "wait_list dl' = wait_list dl"
    using pr_get_inv [OF D(1) assms(2,3)] by auto
  have cnt: "rd_cnt dl' = rd_cnt dl + nreads [c] \<and> wr_cnt dl' = wr_cnt dl + nwrites [c] \<and>
      (lk_type (cmd_lh c) = lk_write_get \<longrightarrow> wr_lock_state dl' = locked \<and> 0 < wr_cnt dl') \<and>
      (lk_type (cmd_lh c) = lk_read_get \<longrightarrow> mg)"
    using assms(2,3) pr_read [of "cmd_lh c" dl mg] pr_write [of "cmd_lh c" dl mg]
    unfolding is_get_def by (elim disjE) (simp_all split: if_splits, auto)
  then show "rw_exact dl' (r + nreads [c]) (w + nwrites [c])" "wait_list dl' = wait_list dl"
    using I D(2,3) unfolding rw_exact_def by simp_all
  show "lk_type (cmd_lh c) = lk_write_get \<Longrightarrow> wr_lock_state dl' = locked \<and> 0 < wr_cnt dl'"
    "lk_type (cmd_lh c) = lk_read_get \<Longrightarrow> mg" using cnt by auto
qed

lemma wait_list_loop_progress:
  assumes "rw_exact dl r w" "\<forall>c\<in>set ws. is_get c" "reliable n" "wait_list_loop pr ws dl n = (err, dl', n')"
  shows "\<exists>gs. ws = gs @ wait_list dl' \<and> lgranted n' = lgranted n @ gs \<and> reliable n' \<and>
    rw_exact dl' (r + nreads gs) (w + nwrites gs) \<and> head_blocked pr dl'"
  using assms
proof (induction ws arbitrary: dl n r w)
  case Nil
  then show ?case by (auto simp: head_blocked_def rw_exact_def rw_inv_def)
next
  case (Cons c ws)
  obtain act dl1 where p: "pr dl (cmd_lh c) True = (act, dl1)" by fastforce
  have c: "is_get c" "\<forall>c\<in>set ws. is_get c" using Cons.prems(2) by auto
  consider (wait) "act = la_wait" "dl1 = dl" | (grant) "act = la_grant"
    using pr_get_inv [OF rw_exactD(1) [OF Cons.prems(1)] c(1) p] by blast
  then show ?case
  proof cases
    case wait
    then have e: "n' = n" "dl' = dl\<lparr>wait_list := c # ws\<rparr>" using Cons.prems(4) p by auto
    then have "head_blocked pr dl'" using p wait blocked_wait_list [OF c(1), of "c # ws" dl] by (simp add: head_blocked_def)
    then show ?thesis
      using e Cons.prems(1-3) by (intro exI [of _ "[]"]) (simp add: rw_exact_def rw_inv_def)
  next
    case grant
    obtain e n1 where g: "dsg_lock_grant c n = (e, n1)" by fastforce
    note G = reliable_grant [OF Cons.prems(3) g]
    have "wait_list_loop pr ws dl1 n1 = (err, dl', n')" using Cons.prems(4) p g grant G by auto
    from Cons.IH [OF pr_get_exact(1) [OF Cons.prems(1) c(1) p [unfolded grant]] c(2) _ this] G
    obtain gs where "ws = gs @ wait_list dl'" "lgranted n' = lgranted n1 @ gs" "reliable n'"
      "rw_exact dl' (r + nreads [c] + nreads gs) (w + nwrites [c] + nwrites gs)" "head_blocked pr dl'"
      by blast
    then show ?thesis using G by (intro exI [of _ "c # gs"]) (simp add: add.assoc)
  qed
qed

lemma svc_get_progress:
  assumes "rw_exact dl r w" "is_get c" "reliable n" "head_blocked pr dl" "svc dl c n = (err, dl', n')"
  shows "\<exists>gs. lgranted n' = lgranted n @ gs \<and> reliable n' \<and> rw_exact dl' (r + nreads gs) (w + nwrites gs) \<and>
    head_blocked pr dl' \<and>
    (gs = [] \<and> wait_list dl' = wait_list dl @ [c] \<or>
     gs = [c] \<and> wait_list dl' = wait_list dl \<and>
       (wait_list dl = [] \<or> lk_type (cmd_lh c) = lk_write_get \<and> rd_lock_state dl = unlocked \<and> wr_cnt dl = 0))"
proof -
  obtain act dl1 where p: "pr dl (cmd_lh c) (wait_list dl = []) = (act, dl1)" by fastforce
  consider (wait) "act = la_wait" "dl1 = dl" | (grant) "act = la_grant"
    using pr_get_inv [OF rw_exactD(1) [OF assms(1)] assms(2) p] by blast
  then show ?thesis
  proof cases
    case wait
    then have "dsg_lock_put_on_wait dl c n = (err, dl', n')" using assms(5) p by (simp add: svc_eq)
    note W = reliable_wait [OF assms(3) this]
    have "head_blocked pr dl'"
    proof (cases "wait_list dl")
      case Nil
      then show ?thesis
        using W p wait blocked_wait_list [OF assms(2), of "[c]" dl] by (simp add: head_blocked_def)
    next
      case (Cons d ws)
      then have "is_get d" using rw_exactD(1) [OF assms(1)] by (simp add: rw_inv_def)
      then show ?thesis
        using W Cons assms(4) blocked_wait_list [of d "d # ws @ [c]" dl] by (simp add: head_blocked_def)
    qed
    then show ?thesis
      using W assms(1,2) by (intro exI [of _ "[]"]) (auto simp: rw_exact_def rw_inv_def)
  next
    case grant
    then have g: "dsg_lock_grant c n = (err, n')" "dl' = dl1"
      using assms(5) p by (auto simp: svc_eq split: prod.splits)
    note G = reliable_grant [OF assms(3) g(1)]
    note E = pr_get_exact [OF assms(1,2) p [unfolded grant]]
    have t: "wait_list dl = [] \<or> lk_type (cmd_lh c) = lk_write_get \<and> rd_lock_state dl = unlocked \<and> wr_cnt dl = 0"
      using assms(2) E(4) p grant pr_write [of "cmd_lh c" dl] by (auto simp: is_get_def split: if_splits)
    have "head_blocked pr dl'"
    proof (cases "wait_list dl")
      case (Cons d ws)
      then have "is_get d" using rw_exactD(1) [OF assms(1)] by (simp add: rw_inv_def)
      then show ?thesis
        using Cons t E(2,3) g(2) by (auto simp: head_blocked_def is_get_def blocked_read blocked_write)
    qed (simp add: head_blocked_def E(2) g(2))
    then show ?thesis using G E t g(2) by (intro exI [of _ "[c]"]) simp
  qed
qed

lemma svc_release_progress:
  assumes "rw_exact dl r w" "reliable n" "head_blocked pr dl" "svc dl c n = (err, dl', n')"
    and "lk_type (cmd_lh c) = lk_read_release \<and> 0 < r \<and> r' = r - 1 \<and> w' = w \<or>
         lk_type (cmd_lh c) = lk_write_release \<and> 0 < w \<and> r' = r \<and> w' = w - 1"
  shows "\<exists>gs. wait_list dl = gs @ wait_list dl' \<and> lgranted n' = lgranted n @ gs \<and> reliable n' \<and>
    rw_exact dl' (r' + nreads gs) (w' + nwrites gs) \<and> head_blocked pr dl'"
proof -
  note D = rw_exactD [OF assms(1)]
  obtain act dl1 where p: "pr dl (cmd_lh c) (wait_list dl = []) = (act, dl1)" by fastforce
  have a: "act = la_none \<or> act = la_notify" "rw_inv dl1 r' w'" "wait_list dl1 = wait_list dl"
    using pr_release_inv [OF D(1) assms(5) p] by auto
  have ex: "rw_exact dl1 r' w'" and none: "act = la_none \<Longrightarrow> dl1 = dl\<lparr>rd_cnt := rd_cnt dl - 1\<rparr> \<and> rd_cnt dl \<noteq> 1"
    using a(2) assms(5) D p pr_read_release [of "cmd_lh c" dl] pr_write_release [of "cmd_lh c" dl]
      rw_inv_write_release(1) [OF D(1)]
    by (auto simp: rw_exact_def bump_sel split: if_splits)
  from a(1) show ?thesis
  proof
    assume n: "act = la_none"
    then have e: "dl' = dl1" "n' = n" using assms(4) p by (auto simp: svc_eq)
    have "head_blocked pr dl1"
    proof (cases "wait_list dl")
      case (Cons d ws)
      have "is_get d" using D(1) Cons by (simp add: rw_inv_def)
      then show ?thesis
        using Cons assms(3) none [OF n]
        by (auto simp: head_blocked_def is_get_def blocked_read blocked_write can_read_indep)
    qed (simp add: head_blocked_def a(3))
    then show ?thesis using e ex a(3) assms(2) by (intro exI [of _ "[]"]) simp
  next
    assume "act = la_notify"
    then have "wait_list_loop pr (wait_list dl1) dl1 n = (err, dl', n')" using assms(4) p by (simp add: svc_eq)
    from wait_list_loop_progress [OF ex _ assms(2) this] show ?thesis
      using a(2,3) by (auto simp: rw_inv_def)
  qed
qed

text \<open>Every request is granted or still waits, and the head waits only while the lock is held.\<close>

lemma reach_progress:
  assumes "lock_reach svc dl0 n0 s" "reliable n0"
  shows "rw_exact (sy_lock s) (int (length (rds s))) (int (length (wrs s))) \<and> reliable (sy_env s) \<and>
    head_blocked pr (sy_lock s) \<and>
    mset (lgranted (sy_env s)) + mset (wait_list (sy_lock s)) = mset (lgranted n0) + mset (reqs s)"
  using assms(1)
proof (induction rule: lock_reach.induct)
  case start
  show ?case using init_inv exact_init assms(2) by (simp add: head_blocked_def rw_exact_def)
next
  case (request s cmd err dl' n' gs)
  note IH = request.IH
  obtain hs where H: "lgranted n' = lgranted (sy_env s) @ hs" "reliable n'"
      "rw_exact dl' (int (length (rds s)) + nreads hs) (int (length (wrs s)) + nwrites hs)" "head_blocked pr dl'"
      "mset hs + mset (wait_list dl') = mset (wait_list (sy_lock s)) + {#cmd#}"
    using svc_get_progress [OF conjunct1 [OF IH] request.hyps(2) _ _ request.hyps(3)] IH by auto
  have M: "mset hs + (mset (wait_list dl') + X) = add_mset cmd (mset (wait_list (sy_lock s)) + X)" for X
    using H(5) by (simp flip: add.assoc)
  show ?case using IH H(1-4) request.hyps(4) by (simp add: M nreads_def nwrites_def ac_simps)
next
  case (read_release s cmd err dl' n' gs)
  note len = int_length_remove1 [OF read_release.hyps(3)] and IH = read_release.IH
  from IH len read_release.hyps(2)
  obtain hs where H: "wait_list (sy_lock s) = hs @ wait_list dl'" "lgranted n' = lgranted (sy_env s) @ hs" "reliable n'"
      "rw_exact dl' (int (length (rds s)) - 1 + nreads hs) (int (length (wrs s)) + nwrites hs)" "head_blocked pr dl'"
    using svc_release_progress [OF _ _ _ read_release.hyps(4), of _ _ "int (length (rds s)) - 1" "int (length (wrs s))"] by blast
  then show ?case using IH len read_release.hyps(5) by (simp add: nreads_def nwrites_def ac_simps)
next
  case (write_release s cmd err dl' n' gs)
  note len = int_length_remove1 [OF write_release.hyps(3)] and IH = write_release.IH
  from IH len write_release.hyps(2)
  obtain hs where H: "wait_list (sy_lock s) = hs @ wait_list dl'" "lgranted n' = lgranted (sy_env s) @ hs" "reliable n'"
      "rw_exact dl' (int (length (rds s)) + nreads hs) (int (length (wrs s)) - 1 + nwrites hs)" "head_blocked pr dl'"
    using svc_release_progress [OF _ _ _ write_release.hyps(4), of _ _ "int (length (rds s))" "int (length (wrs s)) - 1"] by blast
  then show ?case using IH len write_release.hyps(5) by (simp add: nreads_def nwrites_def ac_simps)
qed

lemma head_waits_for_holder:
  assumes "lock_reach svc dl0 n0 s" "reliable n0" "wait_list (sy_lock s) = c # ws"
  shows "lk_type (cmd_lh c) = lk_read_get \<and> (wrs s \<noteq> [] \<or> \<not> can_read (sy_lock s)) \<or>
    lk_type (cmd_lh c) = lk_write_get \<and> (rds s \<noteq> [] \<or> wrs s \<noteq> [])"
proof -
  have P: "rw_exact (sy_lock s) (int (length (rds s))) (int (length (wrs s)))" "head_blocked pr (sy_lock s)"
    using reach_progress [OF assms(1,2)] by auto
  have ic: "is_get c" using rw_exactD(1) [OF P(1)] assms(3) by (simp add: rw_inv_def)
  have len: "0 < int (length xs) \<longleftrightarrow> xs \<noteq> []" "int (length xs) = 0 \<longleftrightarrow> xs = []" for xs :: "int list" by auto
  note st' = rw_exact_states [OF P(1), unfolded len]
  show ?thesis
    using P(2) assms(3) ic st' by (auto simp: head_blocked_def is_get_def blocked_read blocked_write)
qed

end

text \<open>When readers have no extra condition the service is a queue: grants follow the order of the requests.\<close>

locale rw_fifo = rw_lock +
  assumes always_readable: "can_read dl"
begin

lemma reach_fifo:
  assumes "lock_reach svc dl0 n0 s" "reliable n0"
  shows "lgranted (sy_env s) @ wait_list (sy_lock s) = lgranted n0 @ reqs s"
  using assms(1)
proof (induction rule: lock_reach.induct)
  case start
  show ?case using init_inv by simp
next
  case (request s cmd err dl' n' gs)
  have P: "rw_exact (sy_lock s) (int (length (rds s))) (int (length (wrs s)))" "head_blocked pr (sy_lock s)"
    "reliable (sy_env s)" using reach_progress [OF request.hyps(1) assms(2)] by auto
  have "wait_list (sy_lock s) = c # ws \<Longrightarrow> is_get c" for c ws
    using rw_exactD(1) [OF P(1)] by (simp add: rw_inv_def)
  then have held: "wait_list (sy_lock s) \<noteq> [] \<Longrightarrow> rd_lock_state (sy_lock s) = unlocked \<Longrightarrow> wr_cnt (sy_lock s) \<noteq> 0"
    using P(2) always_readable rw_exact_states [OF P(1)]
    by (cases "wait_list (sy_lock s)") (auto simp: head_blocked_def is_get_def blocked_read blocked_write)
  have "lgranted n0 @ reqs s @ [cmd] = lgranted (sy_env s) @ wait_list (sy_lock s) @ [cmd]"
    using request.IH by (metis append_assoc)
  with svc_get_progress [OF P(1) request.hyps(2) P(3,2) request.hyps(3)] held
  show ?case by (cases "wait_list (sy_lock s) = []") auto
next
  case (read_release s cmd err dl' n' gs)
  note len = int_length_remove1 [OF read_release.hyps(3)]
  from reach_progress [OF read_release.hyps(1) assms(2)] len read_release.hyps(2)
  obtain hs where "wait_list (sy_lock s) = hs @ wait_list dl'" "lgranted n' = lgranted (sy_env s) @ hs"
    using svc_release_progress [OF _ _ _ read_release.hyps(4), of _ _ "int (length (rds s)) - 1" "int (length (wrs s))"] by blast
  then show ?case using read_release.IH by simp
next
  case (write_release s cmd err dl' n' gs)
  note len = int_length_remove1 [OF write_release.hyps(3)]
  from reach_progress [OF write_release.hyps(1) assms(2)] len write_release.hyps(2)
  obtain hs where "wait_list (sy_lock s) = hs @ wait_list dl'" "lgranted n' = lgranted (sy_env s) @ hs"
    using svc_release_progress [OF _ _ _ write_release.hyps(4), of _ _ "int (length (rds s))" "int (length (wrs s)) - 1"] by blast
  then show ?case using write_release.IH by simp
qed

end

subsection \<open>The semaphore\<close>

text \<open>
  A write phase (at most one writer, \<open>wr_cnt\<close> the free slots) alternates with a read phase (the free
  slots, the readers inside and those that left add up to at most \<open>rd_max\<close>).
\<close>

definition sem_inv :: "int \<Rightarrow> dsg_lock \<Rightarrow> int \<Rightarrow> int \<Rightarrow> bool" where
  "sem_inv mr dl r w \<longleftrightarrow>
     rd_max dl = mr \<and> wr_max dl = 1 \<and> wr_notify_cnt dl = 0 \<and> 0 \<le> rd_notify_cnt dl \<and>
     0 \<le> rd_cnt dl \<and> 0 \<le> wr_cnt dl \<and> 0 \<le> r \<and> 0 \<le> w \<and> (\<forall>c\<in>set (wait_list dl). is_get c) \<and>
     (rd_cnt dl = 0 \<and> r = 0 \<and> rd_notify_cnt dl = 0 \<and> wr_cnt dl + w \<le> 1 \<or>
      wr_cnt dl = 0 \<and> w = 0 \<and> rd_cnt dl + r + rd_notify_cnt dl \<le> mr)"

lemma sem_get_inv:
  assumes "sem_inv mr dl r w" "is_get c" "sem_process_request dl (cmd_lh c) mg = (act, dl')"
  shows "act = la_wait \<and> dl' = dl \<or>
    act = la_grant \<and> sem_inv mr dl' r w \<and> sem_inv mr dl' (r + nreads [c]) (w + nwrites [c])"
  using assms(2) unfolding is_get_def
proof
  assume t: "lk_type (cmd_lh c) = lk_read_get"
  then show ?thesis
    using assms(3,1) unfolding sem_process_request.simps sem_inv_def by (auto split: if_splits)
next
  assume t: "lk_type (cmd_lh c) = lk_write_get"
  then show ?thesis
    using assms(3,1) unfolding sem_process_request.simps sem_inv_def by (auto split: if_splits)
qed

lemma sem_inv_wait_list:
  "sem_inv mr dl r w \<Longrightarrow> \<forall>c\<in>set ws. is_get c \<Longrightarrow> sem_inv mr (dl\<lparr>wait_list := ws\<rparr>) r w"
  by (simp add: sem_inv_def)

lemma sem_wait_loop_inv:
  assumes "sem_inv mr dl r w" "\<forall>c\<in>set (kept @ ws). is_get c" "sem_wait_loop kept ws dl n = (err, dl', n')"
  shows "\<exists>gs. lgranted n' = lgranted n @ gs \<and> sem_inv mr dl' (r + nreads gs) (w + nwrites gs)"
  using assms
proof (induction ws arbitrary: kept dl n r w)
  case Nil
  then show ?case by (auto intro!: exI [of _ "[]"] sem_inv_wait_list)
next
  case (Cons c ws)
  obtain act dl1 where p: "sem_process_request dl (cmd_lh c) True = (act, dl1)" by fastforce
  have c: "is_get c" using Cons.prems(2) by auto
  from sem_get_inv [OF Cons.prems(1) c p] show ?case
  proof (elim disjE conjE)
    assume a: "act = la_wait" "dl1 = dl"
    then have "sem_wait_loop (kept @ [c]) ws dl n = (err, dl', n')" using Cons.prems(3) p by simp
    from Cons.IH [OF Cons.prems(1) _ this] Cons.prems(2) show ?thesis by simp
  next
    assume a: "act = la_grant" "sem_inv mr dl1 r w" "sem_inv mr dl1 (r + nreads [c]) (w + nwrites [c])"
    obtain e n1 where g: "dsg_lock_grant c n = (e, n1)" by fastforce
    note G = dsg_lock_grant_result [OF g]
    let ?gs = "if e = 0 then [c] else []"
    have inv1: "sem_inv mr dl1 (r + nreads ?gs) (w + nwrites ?gs)" using a by auto
    show ?thesis
    proof (cases "e < 0")
      case True
      then have "n' = n1" "dl' = dl1\<lparr>wait_list := kept @ c # ws\<rparr>" using Cons.prems(3) p g a(1) by auto
      then show ?thesis using sem_inv_wait_list [OF inv1, of "kept @ c # ws"] Cons.prems(2) G(1) by blast
    next
      case False
      then have "sem_wait_loop kept ws dl1 n1 = (err, dl', n')" using Cons.prems(3) p g a(1) by auto
      from Cons.IH [OF inv1 _ this] Cons.prems(2) obtain hs where
        "lgranted n' = lgranted n1 @ hs" "sem_inv mr dl' (r + nreads ?gs + nreads hs) (w + nwrites ?gs + nwrites hs)"
        by auto
      then show ?thesis using G(1) by (intro exI [of _ "?gs @ hs"]) (simp add: add.assoc)
    qed
  qed
qed

lemma sem_service_get_inv:
  assumes "sem_inv mr dl r w" "is_get c" "sem_service dl c n = (err, dl', n')"
  shows "\<exists>gs. lgranted n' = lgranted n @ gs \<and> sem_inv mr dl' (r + nreads gs) (w + nwrites gs)"
proof -
  obtain act dl1 where p: "sem_process_request dl (cmd_lh c) False = (act, dl1)" by fastforce
  from sem_get_inv [OF assms(1,2) p] show ?thesis
  proof (elim disjE conjE)
    assume a: "act = la_wait" "dl1 = dl"
    then have "dsg_lock_put_on_wait dl c n = (err, dl', n')" using assms(3) p by (simp add: sem_service_def)
    note W = dsg_lock_put_on_wait_result [OF this]
    have "sem_inv mr dl' r w"
      using assms(1,2) sem_inv_wait_list [OF assms(1), of "wait_list dl @ [c]"] by (auto simp: W(3) sem_inv_def)
    then show ?thesis using W(1) by (intro exI [of _ "[]"]) simp
  next
    assume a: "act = la_grant" "sem_inv mr dl1 r w" "sem_inv mr dl1 (r + nreads [c]) (w + nwrites [c])"
    then have "dsg_lock_grant c n = (err, n')" "dl' = dl1"
      using assms(3) p by (auto simp: sem_service_def split: prod.splits)
    then show ?thesis
      using dsg_lock_grant_result(1) a by (intro exI [of _ "if err = 0 then [c] else []"]) auto
  qed
qed

lemma sem_release_inv:
  assumes "sem_inv mr dl r w" "0 \<le> mr"
    and "lk_type (cmd_lh c) = lk_read_release \<and> 0 < r \<and> r' = r - 1 \<and> w' = w \<or>
         lk_type (cmd_lh c) = lk_write_release \<and> 0 < w \<and> r' = r \<and> w' = w - 1"
    and "sem_process_request dl (cmd_lh c) mg = (act, dl1)"
  shows "(act = la_none \<or> act = la_notify) \<and> sem_inv mr dl1 r' w'"
  using assms(3)
proof
  assume t: "lk_type (cmd_lh c) = lk_read_release \<and> 0 < r \<and> r' = r - 1 \<and> w' = w"
  then show ?thesis
    using assms(4,1,2) unfolding sem_process_request.simps sem_inv_def Let_def by (auto split: if_splits)
next
  assume t: "lk_type (cmd_lh c) = lk_write_release \<and> 0 < w \<and> r' = r \<and> w' = w - 1"
  then show ?thesis
    using assms(4,1,2) unfolding sem_process_request.simps sem_inv_def Let_def by (auto split: if_splits)
qed

lemma sem_service_release_inv:
  assumes "sem_inv mr dl r w" "0 \<le> mr" "sem_service dl c n = (err, dl', n')"
    and "lk_type (cmd_lh c) = lk_read_release \<and> 0 < r \<and> r' = r - 1 \<and> w' = w \<or>
         lk_type (cmd_lh c) = lk_write_release \<and> 0 < w \<and> r' = r \<and> w' = w - 1"
  shows "\<exists>gs. lgranted n' = lgranted n @ gs \<and> sem_inv mr dl' (r' + nreads gs) (w' + nwrites gs)"
proof -
  obtain act dl1 where p: "sem_process_request dl (cmd_lh c) False = (act, dl1)" by fastforce
  have a: "act = la_none \<or> act = la_notify" "sem_inv mr dl1 r' w'"
    using sem_release_inv [OF assms(1,2,4) p] by auto
  from a(1) show ?thesis
  proof
    assume "act = la_none"
    then have "dl' = dl1" "n' = n" using assms(3) p by (auto simp: sem_service_def)
    then show ?thesis using a(2) by (intro exI [of _ "[]"]) simp
  next
    assume "act = la_notify"
    then have "sem_wait_loop [] (wait_list dl1) dl1 n = (err, dl', n')"
      using assms(3) p by (simp add: sem_service_def sem_process_wait_list_def)
    moreover have "\<forall>c\<in>set ([] @ wait_list dl1). is_get c" using a(2) by (simp add: sem_inv_def)
    ultimately show ?thesis using sem_wait_loop_inv [OF a(2)] by blast
  qed
qed

subsection \<open>The three services keep the contract\<close>

lemmas rw_service_defs = lock_init_def lock_init_v3_def lock_zero_def lock_process_request.simps
  lock_process_request_v3.simps lock_service_def lock_service_v3_def lock_process_wait_list_def
  lock_process_wait_list_v3_def

interpretation generic: rw_fifo lock_process_request "\<lambda>_. True" id lock_service
  "lock_init (lock_zero name lock_generic) max_readers" for name max_readers
  by unfold_locales (auto simp: rw_service_defs rw_inv_def split: prod.splits lock_action.splits)

interpretation v3: rw_lock lock_process_request_v3 "\<lambda>dl. 0 < wr_epoch dl"
  "\<lambda>dl. dl\<lparr>wr_epoch := wr_epoch dl + 1\<rparr>" lock_service_v3
  "lock_init_v3 (lock_zero name lock_v3) max_readers" for name max_readers
  by unfold_locales (auto simp: rw_service_defs rw_inv_def split: prod.splits lock_action.splits)

lemma sem_exclusion:
  assumes "0 \<le> max_readers"
  shows "lock_exclusion sem_service (sem_init (lock_zero name lock_custom) max_readers) (sem_inv max_readers)"
proof
  show "sem_inv max_readers (sem_init (lock_zero name lock_custom) max_readers) 0 0"
    by (simp add: sem_inv_def sem_init_def lock_zero_def)
  show "sem_inv max_readers dl r w \<Longrightarrow> 0 < w \<Longrightarrow> w = 1 \<and> r = 0" for dl r w by (auto simp: sem_inv_def)
qed (use sem_service_get_inv sem_service_release_inv [OF _ assms] in blast)+

interpretation sem: lock_exclusion sem_service
  "sem_init (lock_zero name lock_custom) (int max_readers)" "sem_inv (int max_readers)" for name max_readers
  by (rule sem_exclusion) simp

subsection \<open>The table of locks\<close>

definition same_lock :: "dsg_lock \<Rightarrow> dsg_lock \<Rightarrow> bool" where
  "same_lock dl dl' \<longleftrightarrow> lk_name dl' = lk_name dl \<and> lk_service dl' = lk_service dl"

lemma process_request_same:
  "same_lock dl (snd (lock_process_request dl lh mg))" "same_lock dl (snd (lock_process_request_v3 dl lh mg))"
  "same_lock dl (snd (sem_process_request dl lh mg))"
  by (auto simp: same_lock_def lock_process_request.simps lock_process_request_v3.simps
      sem_process_request.simps Let_def split: lk_type.splits)

lemma same_lock_trans: "same_lock a b \<Longrightarrow> same_lock b c \<Longrightarrow> same_lock a c"
  by (simp add: same_lock_def)

lemma wait_list_loop_same:
  assumes "\<And>dl lh mg. same_lock dl (snd (pr dl lh mg))"
  shows "wait_list_loop pr ws dl n = (err, dl', n') \<Longrightarrow> same_lock dl dl'"
proof (induction ws arbitrary: dl n)
  case (Cons c ws)
  obtain act dl1 where p: "pr dl (cmd_lh c) True = (act, dl1)" by fastforce
  then have s: "same_lock dl dl1" using assms [of dl "cmd_lh c" True] by simp
  then have s': "same_lock dl (dl1\<lparr>wait_list := ws'\<rparr>)" for ws' by (simp add: same_lock_def)
  show ?case
    using Cons.prems p s' same_lock_trans [OF s Cons.IH]
    by (cases act) (auto split: prod.splits if_splits)
qed (auto simp: same_lock_def)

lemma sem_wait_loop_same: "sem_wait_loop kept ws dl n = (err, dl', n') \<Longrightarrow> same_lock dl dl'"
proof (induction ws arbitrary: kept dl n)
  case (Cons c ws)
  obtain act dl1 where p: "sem_process_request dl (cmd_lh c) True = (act, dl1)" by fastforce
  then have s: "same_lock dl dl1" using process_request_same(3) [of dl "cmd_lh c" True] by simp
  then have s': "same_lock dl (dl1\<lparr>wait_list := ws'\<rparr>)" for ws' by (simp add: same_lock_def)
  show ?case
    using Cons.prems p s' same_lock_trans [OF s Cons.IH]
    by (cases act) (auto split: prod.splits if_splits)
qed (auto simp: same_lock_def)

lemma put_on_wait_same:
  "same_lock dl dl1 \<Longrightarrow> dsg_lock_put_on_wait dl1 cmd n = (err, dl', n') \<Longrightarrow> same_lock dl dl'"
  using dsg_lock_put_on_wait_result(3) [of dl1 cmd n err dl' n'] by (auto simp: same_lock_def)

lemma service_same:
  assumes "service_ptr ty = Some svc" "svc dl cmd n = (err, dl', n')"
  shows "same_lock dl dl'"
proof -
  have "lock_service dl cmd n = (err, dl', n') \<Longrightarrow> same_lock dl dl'"
    using process_request_same(1) [of dl "cmd_lh cmd" "wait_list dl = []"]
    by (auto simp: lock_service_def lock_process_wait_list_def split: prod.splits lock_action.splits
        dest!: wait_list_loop_same [OF process_request_same(1)] intro: put_on_wait_same same_lock_trans)
  moreover have "lock_service_v3 dl cmd n = (err, dl', n') \<Longrightarrow> same_lock dl dl'"
    using process_request_same(2) [of dl "cmd_lh cmd" "wait_list dl = []"]
    by (auto simp: lock_service_v3_def lock_process_wait_list_v3_def split: prod.splits lock_action.splits
        dest!: wait_list_loop_same [OF process_request_same(2)] intro: put_on_wait_same same_lock_trans)
  moreover have "sem_service dl cmd n = (err, dl', n') \<Longrightarrow> same_lock dl dl'"
    using process_request_same(3) [of dl "cmd_lh cmd" False]
    by (auto simp: sem_service_def sem_process_wait_list_def split: prod.splits lock_action.splits
        dest!: sem_wait_loop_same intro: put_on_wait_same same_lock_trans)
  ultimately show ?thesis using assms by (auto simp: service_ptr_def split: lock_service_type.splits)
qed

lemma lock_dispatch_same: "lock_dispatch dl cmd n = Some (err, dl', n') \<Longrightarrow> same_lock dl dl'"
  using service_same by (auto simp: lock_dispatch_def)

lemma replace_lock_names [simp]: "map lk_name (replace_lock locks dl) = map lk_name locks"
  by (induction locks) auto

lemma find_replace_lock:
  "dsg_lock_find_by_name locks (lk_name dl) \<noteq> None \<Longrightarrow>
   dsg_lock_find_by_name (replace_lock locks dl) name =
     (if name = lk_name dl then Some dl else dsg_lock_find_by_name locks name)"
  by (induction locks) (auto simp: dsg_lock_find_by_name_def)

lemma find_by_name_name: "dsg_lock_find_by_name locks name = Some dl \<Longrightarrow> lk_name dl = name"
  unfolding dsg_lock_find_by_name_def by (metis (mono_tags) find_SomeD)

lemma find_by_name_None: "dsg_lock_find_by_name locks name = None \<longleftrightarrow> name \<notin> set (map lk_name locks)"
  by (auto simp: dsg_lock_find_by_name_def find_None_iff)

lemma alloc_name: "dsg_lock_alloc ok name ty mr = Some (Some dl) \<Longrightarrow> lk_name dl = name \<and> lk_service dl = ty"
  by (auto simp: dsg_lock_alloc_def lock_init_def sem_init_def lock_init_v3_def lock_zero_def
      split: if_splits lock_service_type.splits)

lemma alloc_some: "dsg_lock_alloc True name ty mr \<noteq> Some None"
  by (simp add: dsg_lock_alloc_def split: lock_service_type.split)

lemma lock_service_cases:
  assumes "dsgrpc_lock_service ok ty max_readers locks cmd n = Some (err, locks', n')"
  obtains
    (found) dl dl' where "dsg_lock_find_by_name locks (lk_hname (cmd_lh cmd)) = Some dl"
      "lock_dispatch dl cmd n = Some (err, dl', n')" "locks' = replace_lock locks dl'"
      "lk_name dl' = lk_hname (cmd_lh cmd)"
  | (fresh) dl dl' where "dsg_lock_find_by_name locks (lk_hname (cmd_lh cmd)) = None"
      "dsg_lock_alloc ok (lk_hname (cmd_lh cmd)) ty max_readers = Some (Some dl)"
      "lock_dispatch dl cmd n = Some (err, dl', n')" "locks' = dl' # locks"
      "lk_name dl' = lk_hname (cmd_lh cmd)"
  | (fail) "\<not> ok" "locks' = locks"
proof (cases "dsg_lock_find_by_name locks (lk_hname (cmd_lh cmd))")
  case (Some dl)
  then obtain dl' where d: "lock_dispatch dl cmd n = Some (err, dl', n')" "locks' = replace_lock locks dl'"
    using assms by (auto simp: dsgrpc_lock_service_def)
  have "lk_name dl' = lk_hname (cmd_lh cmd)"
    using lock_dispatch_same [OF d(1)] find_by_name_name [OF Some] by (simp add: same_lock_def)
  then show ?thesis using found Some d by blast
next
  case None
  show ?thesis
  proof (cases "dsg_lock_alloc ok (lk_hname (cmd_lh cmd)) ty max_readers = Some None")
    case True
    then have "\<not> ok" using alloc_some by metis
    then show ?thesis using fail True None assms by (simp add: dsgrpc_lock_service_def Let_def)
  next
    case False
    then obtain dl dl' where d: "dsg_lock_alloc ok (lk_hname (cmd_lh cmd)) ty max_readers = Some (Some dl)"
      "lock_dispatch dl cmd n = Some (err, dl', n')" "locks' = dl' # locks"
      using assms None by (auto simp: dsgrpc_lock_service_def Let_def split: option.splits)
    have "lk_name dl' = lk_hname (cmd_lh cmd)"
      using lock_dispatch_same [OF d(2)] alloc_name [OF d(1)] by (simp add: same_lock_def)
    then show ?thesis using fresh None d by blast
  qed
qed

lemma lock_service_names:
  assumes "dsgrpc_lock_service ok ty max_readers locks cmd n = Some (err, locks', n')"
    and "distinct (map lk_name locks)"
  shows "distinct (map lk_name locks')"
  using assms(1)
proof (cases rule: lock_service_cases)
  case (fresh dl dl')
  then show ?thesis using assms(2) find_by_name_None [of locks] by simp
qed (use assms(2) in simp_all)


definition example_cmd :: "int \<Rightarrow> lk_type \<Rightarrow> lock_cmd" where
  "example_cmd c ty = \<lparr>cmd_id = c, cmd_lh = \<lparr>lk_type = ty, lk_rc = 0, lk_id = 0, lock_num = 0, lk_hname = ''l''\<rparr>\<rparr>"

definition example_env :: lenv where
  "example_env = \<lparr>lsent = [], lgranted = [], lrc = \<lambda>_. 0, lcalls = 0\<rparr>"

lemmas example_defs = example_cmd_def example_env_def lock_service_def sem_service_def lock_service_v3_def
  lock_process_request.simps sem_process_request.simps lock_process_request_v3.simps lock_init_def
  lock_init_v3_def sem_init_def lock_zero_def dsg_lock_grant_def dsg_lock_put_on_wait_def is_get_def reads_def
  writes_def new_grants_def service_ptr_def dsg_lock_alloc_def dsgrpc_lock_service_def dsg_lock_find_by_name_def
  lock_dispatch_def Let_def


text \<open>C4: Mutual exclusion. Whatever the order of requests and releases, and whichever grants and allocations
  fail, a lock of any of the three types that has granted a write has granted nothing else.\<close>
theorem lock_mutual_exclusion:
  assumes "dsg_lock_alloc True name ty max_readers = Some (Some dl0)" "service_ptr ty = Some svc" "0 \<le> max_readers"
    and "lock_reach svc dl0 n0 s" "wrs s \<noteq> []"
  shows "length (wrs s) = 1 \<and> rds s = []"
proof (cases ty)
  case lock_generic
  then show ?thesis using assms generic.mutual_exclusion [of name max_readers n0 s] by (auto simp: dsg_lock_alloc_def service_ptr_def)
next
  case lock_custom
  then show ?thesis
    using assms sem.mutual_exclusion [of name "nat max_readers" n0 s] by (auto simp: dsg_lock_alloc_def service_ptr_def)
next
  case lock_v3
  then show ?thesis using assms v3.mutual_exclusion [of name max_readers n0 s] by (auto simp: dsg_lock_alloc_def service_ptr_def)
qed (use assms in \<open>simp add: service_ptr_def\<close>)

lemma example_reach:
  "\<exists>dl n. lock_reach lock_service (lock_init (lock_zero ''l'' lock_generic) 1) example_env
     \<lparr>sy_lock = dl, sy_env = n, rds = [], wrs = [1], reqs = [example_cmd 1 lk_write_get, example_cmd 2 lk_read_get]\<rparr>"
proof -
  let ?dl = "lock_init (lock_zero ''l'' lock_generic) 1"
  let ?w = "example_cmd 1 lk_write_get" and ?r = "example_cmd 2 lk_read_get"
  obtain d1 n1 where s1: "lock_service ?dl ?w example_env = (0, d1, n1)" and g1: "lgranted n1 = [?w]" and
    d1: "wr_lock_state d1 = locked" "lrc n1 = (\<lambda>_. 0)" by (simp add: example_defs)
  obtain d2 n2 where s2: "lock_service d1 ?r n1 = (0, d2, n2)" and g2: "lgranted n2 = [?w]"
    using d1 g1 by (simp add: example_defs)
  have r1: "lock_reach lock_service ?dl example_env \<lparr>sy_lock = d1, sy_env = n1, rds = [], wrs = [1], reqs = [?w]\<rparr>"
    using lock_reach.request [OF lock_reach.start, of ?w lock_service ?dl example_env 0 d1 n1 "[?w]"] s1 g1
    by (simp add: example_cmd_def example_env_def is_get_def new_grants_def reads_def writes_def)
  show ?thesis
    using lock_reach.request [OF r1, of ?r 0 d2 n2 "[]"] s2 g1 g2
    by (auto simp: example_cmd_def is_get_def new_grants_def reads_def writes_def)
qed

theorem lock_mutual_exclusion_witness:
  "\<exists>s. lock_reach lock_service (lock_init (lock_zero ''l'' lock_generic) 1) example_env s \<and> wrs s \<noteq> [] \<and>
     length (wrs s) = 1 \<and> rds s = []"
proof -
  obtain dl n where r: "lock_reach lock_service (lock_init (lock_zero ''l'' lock_generic) 1) example_env
     \<lparr>sy_lock = dl, sy_env = n, rds = [], wrs = [1], reqs = [example_cmd 1 lk_write_get, example_cmd 2 lk_read_get]\<rparr>"
    using example_reach by blast
  show ?thesis
    using lock_mutual_exclusion [OF _ _ _ r, of "''l''" lock_generic 1] r
    by (auto simp: dsg_lock_alloc_def service_ptr_def)
qed

text \<open>C12: Over a reliable transport the generic lock is first come, first served: the requests it has granted,
  followed by those that wait, are the requests in the order of their arrival, and one waits only while the lock
  is held.\<close>
theorem generic_lock_fifo:
  assumes "lock_reach lock_service (lock_init (lock_zero name lock_generic) max_readers) n0 s"
    and "lrc n0 = (\<lambda>_. 0)" "lgranted n0 = []"
  shows "lgranted (sy_env s) @ wait_list (sy_lock s) = reqs s \<and>
    (wait_list (sy_lock s) \<noteq> [] \<longrightarrow> rds s \<noteq> [] \<or> wrs s \<noteq> [])"
proof -
  have "reliable n0" using assms(2) by (simp add: reliable_def)
  then show ?thesis
    using generic.reach_fifo [OF assms(1)] generic.head_waits_for_holder [OF assms(1)] assms(3)
    by (cases "wait_list (sy_lock s)") auto
qed

theorem generic_lock_fifo_witness:
  "\<exists>s. lock_reach lock_service (lock_init (lock_zero ''l'' lock_generic) 1) example_env s \<and>
     lgranted (sy_env s) @ wait_list (sy_lock s) = [example_cmd 1 lk_write_get, example_cmd 2 lk_read_get]"
proof -
  obtain dl n where r: "lock_reach lock_service (lock_init (lock_zero ''l'' lock_generic) 1) example_env
     \<lparr>sy_lock = dl, sy_env = n, rds = [], wrs = [1], reqs = [example_cmd 1 lk_write_get, example_cmd 2 lk_read_get]\<rparr>"
    using example_reach by blast
  show ?thesis
    using generic_lock_fifo [OF r] r by (auto simp: example_env_def)
qed

text \<open>C13: Over a reliable transport the version 3 lock loses no request: each one was granted or waits, and
  the first that waits is a read that needs a finished write or the departure of a writer, or a write that needs
  the departure of a holder.\<close>
theorem v3_lock_no_lost_request:
  assumes "lock_reach lock_service_v3 (lock_init_v3 (lock_zero name lock_v3) max_readers) n0 s"
    and "lrc n0 = (\<lambda>_. 0)" "lgranted n0 = []"
  shows "mset (lgranted (sy_env s)) + mset (wait_list (sy_lock s)) = mset (reqs s) \<and>
    (\<forall>c ws. wait_list (sy_lock s) = c # ws \<longrightarrow>
       lk_type (cmd_lh c) = lk_read_get \<and> (wrs s \<noteq> [] \<or> wr_epoch (sy_lock s) \<le> 0) \<or>
       lk_type (cmd_lh c) = lk_write_get \<and> (rds s \<noteq> [] \<or> wrs s \<noteq> []))"
proof -
  have "reliable n0" using assms(2) by (simp add: reliable_def)
  then show ?thesis
    using v3.reach_progress [OF assms(1)] v3.head_waits_for_holder [OF assms(1)] assms(3)
    by (auto simp: not_less)
qed

lemma example_reach_v3:
  "\<exists>dl n. lock_reach lock_service_v3 (lock_init_v3 (lock_zero ''l'' lock_v3) 1) example_env
     \<lparr>sy_lock = dl, sy_env = n, rds = [], wrs = [], reqs = [example_cmd 2 lk_read_get]\<rparr> \<and>
     wait_list dl = [example_cmd 2 lk_read_get]"
proof -
  let ?dl = "lock_init_v3 (lock_zero ''l'' lock_v3) 1" and ?r = "example_cmd 2 lk_read_get"
  obtain d1 n1 where s1: "lock_service_v3 ?dl ?r example_env = (0, d1, n1)" and g1: "lgranted n1 = []" and
    d1: "wait_list d1 = [?r]" by (simp add: example_defs)
  show ?thesis
    using lock_reach.request [OF lock_reach.start, of ?r lock_service_v3 ?dl example_env 0 d1 n1 "[]"] s1 g1 d1
    by (auto simp: example_cmd_def example_env_def is_get_def new_grants_def reads_def writes_def)
qed

theorem v3_lock_no_lost_request_witness:
  "\<exists>s. lock_reach lock_service_v3 (lock_init_v3 (lock_zero ''l'' lock_v3) 1) example_env s \<and>
     wait_list (sy_lock s) \<noteq> [] \<and> wrs s = [] \<and> wr_epoch (sy_lock s) \<le> 0"
proof -
  obtain dl n where r: "lock_reach lock_service_v3 (lock_init_v3 (lock_zero ''l'' lock_v3) 1) example_env
     \<lparr>sy_lock = dl, sy_env = n, rds = [], wrs = [], reqs = [example_cmd 2 lk_read_get]\<rparr>"
     "wait_list dl = [example_cmd 2 lk_read_get]"
    using example_reach_v3 by blast
  then show ?thesis using v3_lock_no_lost_request [OF r(1)] by (auto simp: example_env_def)
qed



end
