(* ===== verification/DS_Conf.thy ===== *)
theory DS_Conf
  imports DS_Prelude "HOL-Library.Monad_Syntax"
begin

text \<open>
  The configuration file of a server (src/src/ds_gspace.c, \<open>eat_spaces\<close>, \<open>parse_line\<close>,
  \<open>parse_conf\<close>). Strings are lists of characters without the final NUL. The C library functions
  the parser uses (\<open>strstr\<close> for one character, \<open>strtok\<close> for one delimiter, \<open>atoi\<close>, \<open>atoll\<close>,
  \<open>fgets\<close>) are modelled as the C standard describes them; a number outside of the range of its
  type, and a write past the array of dimensions, are undefined behaviour and have the result
  \<open>None\<close>. \<open>max_ndim\<close> is the build option \<open>BBOX_MAX_NDIM\<close>. The error of a line is a negative number, success is 0.
\<close>

definition EINVAL :: int where
  "EINVAL = 22"

record ds_conf =
  cf_ndim :: int
  cf_dims :: coord
  cf_max_versions :: int
  cf_max_readers :: int
  cf_lock_type :: int
  cf_hash_version :: int

subsection \<open>The C library\<close>

definition is_space :: "char \<Rightarrow> bool" where
  "is_space c \<longleftrightarrow> c \<in> {CHR '' '', CHR 0x09, CHR 0x0A, CHR 0x0B, CHR 0x0C, CHR 0x0D}"

definition is_digit :: "char \<Rightarrow> bool" where
  "is_digit c \<longleftrightarrow> 48 \<le> (of_char c :: nat) \<and> (of_char c :: nat) \<le> 57"

definition digit_val :: "char \<Rightarrow> int" where
  "digit_val c = of_char c - 48"

definition digits_val :: "string \<Rightarrow> int" where
  "digits_val s = foldl (\<lambda>n c. 10 * n + digit_val c) 0 (takeWhile is_digit s)"

text \<open>Leading white space, an optional sign, the digits up to the first other character.\<close>

definition str_to_int :: "string \<Rightarrow> int" where
  "str_to_int s =
     (case dropWhile is_space s of
        [] \<Rightarrow> 0
      | c # cs \<Rightarrow> if c = CHR ''-'' then - digits_val cs
                  else if c = CHR ''+'' then digits_val cs else digits_val (c # cs))"

definition atoi :: "string \<Rightarrow> int option" where
  "atoi s = (let n = str_to_int s in if - (2 ^ 31) \<le> n \<and> n < 2 ^ 31 then Some n else None)"

definition atoll :: "string \<Rightarrow> int option" where
  "atoll s = (let n = str_to_int s in if - (2 ^ 63) \<le> n \<and> n < 2 ^ 63 then Some n else None)"

text \<open>The tokens that repeated calls of \<open>strtok\<close> return: the non-empty runs between delimiters.\<close>

fun strtok_all :: "char \<Rightarrow> string \<Rightarrow> string \<Rightarrow> string list" where
  "strtok_all d cur [] = (if cur = [] then [] else [cur])"
| "strtok_all d cur (c # cs) =
     (if c = d then (if cur = [] then strtok_all d [] cs else cur # strtok_all d [] cs)
      else strtok_all d (cur @ [c]) cs)"

text \<open>\<open>fgets\<close> into a buffer of \<open>n + 1\<close> bytes: up to \<open>n\<close> characters, ending after a newline.\<close>

fun fgets :: "nat \<Rightarrow> string \<Rightarrow> string \<times> string" where
  "fgets 0 cs = ([], cs)"
| "fgets (Suc n) [] = ([], [])"
| "fgets (Suc n) (c # cs) =
     (if c = CHR 0x0A then ([c], cs) else let (l, r) = fgets n cs in (c # l, r))"

subsection \<open>The parser\<close>

definition eat_spaces :: "string \<Rightarrow> string" where
  "eat_spaces line = filter (\<lambda>c. c \<noteq> CHR '' '' \<and> c \<noteq> CHR 0x09 \<and> c \<noteq> CHR 0x0A) line"

fun parse_dims :: "nat \<Rightarrow> nat \<Rightarrow> string list \<Rightarrow> coord \<Rightarrow> (nat \<times> coord) option" where
  "parse_dims max_ndim idx [] dims = Some (idx, dims)"
| "parse_dims max_ndim idx (crd # crds) dims =
     (if idx < max_ndim
      then do {
        n \<leftarrow> atoll crd;
        parse_dims max_ndim (idx + 1) crds (dims(idx := word_of_int n))
      }
      else None)"

text \<open>The table \<open>options\<close>: the name of an option and the assignment of its value.\<close>

definition conf_options :: "(string \<times> (int \<Rightarrow> ds_conf \<Rightarrow> ds_conf)) list" where
  "conf_options =
     [(''ndim'', \<lambda>n. cf_ndim_update (\<lambda>_. n)),
      (''max_versions'', \<lambda>n. cf_max_versions_update (\<lambda>_. n)),
      (''max_readers'', \<lambda>n. cf_max_readers_update (\<lambda>_. n)),
      (''lock_type'', \<lambda>n. cf_lock_type_update (\<lambda>_. n)),
      (''hash_version'', \<lambda>n. cf_hash_version_update (\<lambda>_. n))]"

definition parse_line :: "nat \<Rightarrow> string \<Rightarrow> ds_conf \<Rightarrow> (int \<times> ds_conf) option" where
  "parse_line max_ndim line conf =
     (if line \<noteq> [] \<and> hd line = CHR ''#'' then Some (0, conf)
      else case dropWhile (\<lambda>c. c \<noteq> CHR ''='') line of
        [] \<Rightarrow> Some (if eat_spaces line = [] then 0 else - EINVAL, conf)
      | _ # t \<Rightarrow>
          let key = eat_spaces (takeWhile (\<lambda>c. c \<noteq> CHR ''='') line) in
          if key = ''dims''
          then do {
            (idx, dims) \<leftarrow> parse_dims max_ndim 0 (strtok_all (CHR '','') [] t) (cf_dims conf);
            Some (if int idx \<noteq> cf_ndim conf then - EINVAL else 0, conf\<lparr>cf_dims := dims\<rparr>)
          }
          else case map_of conf_options key of
                 Some assign \<Rightarrow> do { n \<leftarrow> atoi t; Some (0, assign n conf) }
               | None \<Rightarrow> Some (0, conf))"

text \<open>The file is read in pieces of at most 1023 characters.\<close>

function parse_conf :: "nat \<Rightarrow> string \<Rightarrow> ds_conf \<Rightarrow> (int \<times> ds_conf) option" where
  "parse_conf max_ndim file conf =
     (if file = [] then Some (0, conf)
      else do {
        (err, conf') \<leftarrow> parse_line max_ndim (fst (fgets 1023 file)) conf;
        if err < 0 then Some (err, conf') else parse_conf max_ndim (snd (fgets 1023 file)) conf'
      })"
  by pat_completeness auto

lemma fgets_append: "fst (fgets n cs) @ snd (fgets n cs) = cs"
  by (induction n cs rule: fgets.induct) (auto split: prod.splits)

lemma fgets_nonempty: "fst (fgets (Suc n) (c # cs)) \<noteq> []"
  by (auto split: prod.splits)

lemma fgets_rest: "inp \<noteq> [] \<Longrightarrow> length (snd (fgets 1023 inp)) < length inp"
proof (cases inp)
  case (Cons c cs)
  have "fst (fgets 1023 inp) \<noteq> []" using fgets_nonempty [of 1022 c cs] Cons by (simp add: eval_nat_numeral)
  then show ?thesis using fgets_append [of 1023 inp] by (metis append_eq_conv_conj length_append less_add_same_cancel2 length_greater_0_conv)
qed simp

termination parse_conf
  by (relation "measure (\<lambda>(_, file, _). length file)") (auto dest: fgets_rest)

declare parse_conf.simps [simp del]

end
