(* ===== verification/DS_Server.thy ===== *)
theory DS_Server
  imports DS_Curve DS_Storage DS_Matrix DS_Lock DS_Conf
begin

text \<open>
  The server (src/src/ds_gspace.c): its state \<open>struct ds_gspace\<close> and the handlers that
  \<open>dsg_alloc\<close> registers for the remote calls of clients and of other servers.
  \<^item> a handler maps the state to its return value and the new state; the messages it sends are
    appended to \<open>g_sent\<close>;
  \<^item> the k-th call that can fail (an allocation, \<open>rpc_send\<close>, \<open>rpc_send_direct\<close>,
    \<open>rpc_receive_direct\<close>) has the outcome \<open>g_rc k\<close>, 0 being success; \<open>msg_buf_alloc\<close> and the send
    that follows it are one such call;
  \<^item> a transfer that \<open>rpc_receive_direct\<close> has started is in \<open>g_pending\<close> until its completion
    routine runs; \<open>g_freed\<close> are the addresses of objects released before that;
  \<^item> a pointer to a space is its address; the result \<open>None\<close> is undefined behaviour (see
    \<open>DS_Curve\<close>), including the use of a table entry that was never written.
  Modelled is the build without \<open>SHMEM_OBJECTS\<close>, \<open>DS_SYNC_MSG\<close> and \<open>DS_HAVE_ACTIVESPACE\<close>.
\<close>

subsection \<open>Messages and state\<close>

definition ENOENT :: int where
  "ENOENT = 2"

record hdr_obj_get =
  oh_qid :: int
  oh_rank :: int
  oh_rc :: int
  oh_odsc :: obj_descriptor
  oh_gdim :: global_dimension

record hdr_obj_put =
  hp_odsc :: obj_descriptor
  hp_gdim :: global_dimension

record hdr_ss_info =
  si_num_dims :: int
  si_dims :: coord
  si_num_space_srv :: int
  si_hash_version :: int
  si_max_versions :: int

datatype srv_msg =
    M_obj_update hdr_obj_get
  | M_cq_notify int string bbox int u32 u64
  | M_obj_info hdr_obj_get
  | M_obj_query int
  | M_obj_get_desc int "obj_descriptor list"
  | M_obj_get_desc_fail int "u32 list"
  | M_dht_peers "int list"
  | M_obj_data u64 "nat \<Rightarrow> byte"
  | M_meta int int
  | M_filter int
  | M_ss_info hdr_ss_info
  | M_lock lockhdr

record cont_query =
  cq_id :: int
  cq_rank :: int
  cq_odsc :: obj_descriptor

record ds_gspace =
  g_id :: int
  g_size_sp :: nat
  g_conf :: ds_conf
  g_ssd :: sspace
  g_ls :: ss_storage
  g_default_gdim :: global_dimension
  g_sspace_list :: "(global_dimension \<times> sspace) list"
  g_cq_list :: "cont_query list"
  g_cq_num :: int
  g_obj_desc_req_list :: "(int \<times> hdr_obj_get) list"
  g_locks_list :: "dsg_lock list"
  g_kill :: bool
  g_cache :: "sfc_hash_cache list"
  g_filter_n :: int
  g_sent :: "(int \<times> srv_msg) list"
  g_pending :: "obj_data list"
  g_freed :: "nat list"
  g_brk :: nat
  g_rc :: "nat \<Rightarrow> int"
  g_calls :: nat
  g_ss_env :: "nat \<Rightarrow> ss_env"
  g_mem :: "nat \<Rightarrow> bbox"
  g_buf :: "nat \<Rightarrow> byte"
  g_ints :: "nat \<Rightarrow> int"

definition attempt :: "ds_gspace \<Rightarrow> int \<times> ds_gspace" where
  "attempt g = (g_rc g (g_calls g), g\<lparr>g_calls := g_calls g + 1\<rparr>)"

definition srv_send :: "int \<Rightarrow> srv_msg \<Rightarrow> ds_gspace \<Rightarrow> int \<times> ds_gspace" where
  "srv_send peer msg g =
     (let (err, g) = attempt g
      in (err, if err = 0 then g\<lparr>g_sent := g_sent g @ [(peer, msg)]\<rparr> else g))"

subsection \<open>Shared spaces\<close>

definition find_space :: "ds_gspace \<Rightarrow> nat \<Rightarrow> sspace option" where
  "find_space g a =
     find (\<lambda>ss. ss_addr ss = a) (g_ssd g # map snd (g_sspace_list g))"

definition update_space :: "nat \<Rightarrow> (sspace \<Rightarrow> sspace) \<Rightarrow> ds_gspace \<Rightarrow> ds_gspace" where
  "update_space a f g =
     g\<lparr>g_ssd := (if ss_addr (g_ssd g) = a then f (g_ssd g) else g_ssd g),
       g_sspace_list := map (\<lambda>(d, ss). (d, if ss_addr ss = a then f ss else ss)) (g_sspace_list g)\<rparr>"

definition hash_version_of :: "int \<Rightarrow> sspace_hash_version" where
  "hash_version_of n =
     (if n = 1 then ssd_hash_version_v1 else if n = 2 then ssd_hash_version_v2 else unknown_hash_version)"

definition gdim_domain :: "global_dimension \<Rightarrow> bbox" where
  "gdim_domain gd =
     \<lparr>num_dims = ndim gd, lb = \<lambda>_. 0, ub = \<lambda>i. if i < ndim gd then sizes gd i - 1 else 0\<rparr>"

definition init_sspace :: "bbox \<Rightarrow> ds_gspace \<Rightarrow> (int \<times> ds_gspace) option" where
  "init_sspace default_domain g = do {
     ss \<leftarrow> ssd_alloc (g_ss_env g (g_brk g)\<lparr>e_addr := g_brk g\<rparr>) default_domain (g_size_sp g)
             (nat (cf_max_versions (g_conf g))) (hash_version_of (cf_hash_version (g_conf g)));
     case ss of
       None \<Rightarrow> Some (- ENOMEM, g)
     | Some ssd \<Rightarrow>
         Some (0, g\<lparr>g_ssd := ssd_init ssd (nat (g_id g)), g_brk := g_brk g + 1,
                    g_default_gdim := \<lparr>ndim = nat (cf_ndim (g_conf g)), sizes = cf_dims (g_conf g)\<rparr>,
                    g_sspace_list := []\<rparr>)
   }"

text \<open>The address of the space of a global domain; a space that cannot be made is replaced by the default one.\<close>

definition lookup_sspace :: "ds_gspace \<Rightarrow> global_dimension \<Rightarrow> (nat \<times> ds_gspace) option" where
  "lookup_sspace g gd =
     (if global_dimension_equal gd (g_default_gdim g) then Some (ss_addr (g_ssd g), g)
      else case find (\<lambda>(d, ss). ndim gd = ndim d \<and> global_dimension_equal gd d) (g_sspace_list g) of
             Some (d, ss) \<Rightarrow> Some (ss_addr ss, g)
           | None \<Rightarrow> do {
               ss \<leftarrow> ssd_alloc (g_ss_env g (g_brk g)\<lparr>e_addr := g_brk g\<rparr>) (gdim_domain gd) (g_size_sp g)
                       (nat (cf_max_versions (g_conf g))) (hash_version_of (cf_hash_version (g_conf g)));
               let g = g\<lparr>g_brk := g_brk g + 1\<rparr>;
               case ss of
                 None \<Rightarrow> Some (ss_addr (g_ssd g), g)
               | Some ssd \<Rightarrow>
                   let ssd = ssd_init ssd (nat (g_id g))
                   in Some (ss_addr ssd, g\<lparr>g_sspace_list := (gd, ssd) # g_sspace_list g\<rparr>)
             })"

text \<open>\<open>ssd_hash(ssd, bb, dht_tab)\<close>, and the field \<open>rank\<close> behind an entry of \<open>dht_tab\<close>.\<close>

definition srv_hash :: "ds_gspace \<Rightarrow> nat \<Rightarrow> bbox \<Rightarrow> (de_ref list \<times> ds_gspace) option" where
  "srv_hash g a bb = do {
     ss \<leftarrow> find_space g a;
     let (rc, g) = attempt g;
     (de_tab, l) \<leftarrow> ssd_hash (g_mem g) (rc = 0) (g_cache g) ss bb;
     Some (de_tab, g\<lparr>g_cache := l\<rparr>)
   }"

definition ref_rank :: "ds_gspace \<Rightarrow> de_ref \<Rightarrow> int option" where
  "ref_rank g = (\<lambda>(a, i). map_option (\<lambda>ss. rank (ent_tab (dht ss) i)) (find_space g a))"

text \<open>\<open>ssd->ent_self\<close>, read and updated.\<close>

definition self_entry :: "ds_gspace \<Rightarrow> nat \<Rightarrow> dht_entry option" where
  "self_entry g a = map_option (\<lambda>ss. ent_tab (dht ss) (ent_self ss)) (find_space g a)"

definition set_self_entry :: "dht_entry \<Rightarrow> sspace \<Rightarrow> sspace" where
  "set_self_entry de ss =
     ss\<lparr>dht := (dht ss)\<lparr>ent_tab := (ent_tab (dht ss))(ent_self ss := de)\<rparr>\<rparr>"

definition add_self_entry :: "nat \<Rightarrow> obj_descriptor \<Rightarrow> ds_gspace \<Rightarrow> (int \<times> ds_gspace) option" where
  "add_self_entry a odsc g = do {
     de \<leftarrow> self_entry g a;
     let (rc, g) = attempt g;
     let (err, de) = dht_add_entry (rc = 0) de odsc;
     Some (err, update_space a (set_self_entry de) g)
   }"

subsection \<open>Locks\<close>

definition lock_type_of :: "int \<Rightarrow> lock_service_type" where
  "lock_type_of n =
     (if n = 1 then lock_generic else if n = 2 then lock_custom else if n = 3 then lock_v3 else lock_unknown)"

text \<open>\<open>dsgrpc_lock_service\<close> of \<open>DS_Lock\<close> on the locks of this server.\<close>

definition srv_lock :: "lock_cmd \<Rightarrow> ds_gspace \<Rightarrow> (int \<times> ds_gspace) option" where
  "srv_lock cmd g = do {
     let (rc, g) = attempt g;
     (err, locks, n) \<leftarrow> dsgrpc_lock_service (rc = 0) (lock_type_of (cf_lock_type (g_conf g)))
        (cf_max_readers (g_conf g)) (g_locks_list g) cmd
        \<lparr>lsent = [], lgranted = [], lrc = g_rc g, lcalls = g_calls g\<rparr>;
     Some (err, g\<lparr>g_locks_list := locks, g_calls := lcalls n,
                  g_sent := g_sent g @ map (\<lambda>(peer, lh). (peer, M_lock lh)) (lsent n)\<rparr>)
   }"

subsection \<open>Removal\<close>

definition remove_matches :: "string \<Rightarrow> int \<Rightarrow> obj_data \<Rightarrow> bool" where
  "remove_matches name v od \<longleftrightarrow> od_version (obj_desc od) = word_of_int v \<and> od_name (obj_desc od) = name"

definition remove_bin :: "string \<Rightarrow> int \<Rightarrow> nat \<Rightarrow> ss_storage \<Rightarrow> ss_storage" where
  "remove_bin name v i ls =
     fold (\<lambda>od ls. if remove_matches name v od then obj_data_free (ls_remove ls od) od else ls)
       (obj_hash ls i) ls"

definition dsgrpc_remove_service :: "lockhdr \<Rightarrow> ds_gspace \<Rightarrow> int \<times> ds_gspace" where
  "dsgrpc_remove_service lh g =
     (0, g\<lparr>g_ls := fold (remove_bin (lk_hname lh) (lock_num lh)) [0..<size_hash (g_ls g)] (g_ls g)\<rparr>)"

subsection \<open>Continuous queries\<close>

definition cq_alloc :: "bool \<Rightarrow> hdr_obj_get \<Rightarrow> cont_query option" where
  "cq_alloc malloc_ok oh =
     (if malloc_ok then Some \<lparr>cq_id = oh_qid oh, cq_rank = oh_rank oh, cq_odsc = oh_odsc oh\<rparr> else None)"

definition cq_add_to_list :: "cont_query \<Rightarrow> ds_gspace \<Rightarrow> ds_gspace" where
  "cq_add_to_list cq g = g\<lparr>g_cq_list := cq # g_cq_list g, g_cq_num := g_cq_num g + 1\<rparr>"

text \<open>\<open>list_del\<close> of the k-th query.\<close>

definition cq_rem_from_list :: "nat \<Rightarrow> ds_gspace \<Rightarrow> ds_gspace" where
  "cq_rem_from_list k g =
     g\<lparr>g_cq_list := take k (g_cq_list g) @ drop (Suc k) (g_cq_list g), g_cq_num := g_cq_num g - 1\<rparr>"

definition cq_find_in_list :: "hdr_obj_get \<Rightarrow> ds_gspace \<Rightarrow> cont_query option" where
  "cq_find_in_list oh g = find (\<lambda>cq. obj_desc_by_name_intersect (cq_odsc cq) (oh_odsc oh)) (g_cq_list g)"

definition cq_find_all_in_list :: "hdr_obj_get \<Rightarrow> ds_gspace \<Rightarrow> cont_query list" where
  "cq_find_all_in_list oh g = filter (\<lambda>cq. obj_desc_by_name_intersect (cq_odsc cq) (oh_odsc oh)) (g_cq_list g)"

text \<open>The version in the query is updated only when the message could be allocated.\<close>

definition cq_notify_on_match ::
  "cont_query \<Rightarrow> obj_descriptor \<Rightarrow> ds_gspace \<Rightarrow> int \<times> cont_query \<times> ds_gspace" where
  "cq_notify_on_match cq odsc g =
     (let bbcom = bbox_intersect (od_bb (cq_odsc cq)) (od_bb odsc) (g_mem g 0);
          (rc, g) = attempt g
      in if rc \<noteq> 0 then (- ENOMEM, cq, g)
         else let (err, g) = srv_send (cq_rank cq)
                   (M_cq_notify (cq_id cq) (od_name odsc) bbcom (od_owner odsc) (od_version odsc) (od_size odsc)) g
              in (err, cq\<lparr>cq_odsc := (cq_odsc cq)\<lparr>od_version := od_version odsc\<rparr>\<rparr>, g))"

fun cq_check_loop ::
  "cont_query list \<Rightarrow> obj_descriptor \<Rightarrow> ds_gspace \<Rightarrow> int \<times> cont_query list \<times> ds_gspace" where
  "cq_check_loop [] odsc g = (0, [], g)"
| "cq_check_loop (cq # cqs) odsc g =
     (if obj_desc_by_name_intersect (cq_odsc cq) odsc
      then case cq_notify_on_match cq odsc g of
             (err, cq', g) \<Rightarrow>
               if err < 0 then (err, cq' # cqs, g)
               else (case cq_check_loop cqs odsc g of (err, cqs', g) \<Rightarrow> (err, cq' # cqs', g))
      else (case cq_check_loop cqs odsc g of (err, cqs', g) \<Rightarrow> (err, cq # cqs', g)))"

definition cq_check_match :: "obj_descriptor \<Rightarrow> ds_gspace \<Rightarrow> int \<times> ds_gspace" where
  "cq_check_match odsc g =
     (case cq_check_loop (g_cq_list g) odsc g of (err, cqs, g) \<Rightarrow> (err, g\<lparr>g_cq_list := cqs\<rparr>))"

subsection \<open>Puts\<close>

text \<open>The error of \<open>cq_check_match\<close> is not reported.\<close>

definition dsgrpc_obj_update :: "int \<Rightarrow> hdr_obj_get \<Rightarrow> ds_gspace \<Rightarrow> (int \<times> ds_gspace) option" where
  "dsgrpc_obj_update cid oh g = do {
     (a, g) \<leftarrow> lookup_sspace g (oh_gdim oh);
     let odsc = (oh_odsc oh)\<lparr>od_owner := cid\<rparr>;
     (err, g) \<leftarrow> add_self_entry a odsc g;
     if err < 0 then Some (err, g)
     else if g_id g = oh_rank oh then Some (0, snd (cq_check_match odsc g))
     else Some (0, g)
   }"

text \<open>The loop over \<open>dht_tab\<close>. The return value of \<open>dht_add_entry\<close> is ignored.\<close>

fun update_dht_loop ::
  "nat \<Rightarrow> obj_data \<Rightarrow> int \<Rightarrow> int list \<Rightarrow> ds_gspace \<Rightarrow> (int \<times> ds_gspace) option" where
  "update_dht_loop a od min_rank [] g = Some (0, g)"
| "update_dht_loop a od min_rank (r # rs) g =
     (if r = g_id g
      then do {
        (_, g) \<leftarrow> add_self_entry a (obj_desc od) g;
        if g_id g = min_rank
        then case cq_check_match (obj_desc od) g of
               (err, g) \<Rightarrow> if err < 0 then Some (err, g) else update_dht_loop a od min_rank rs g
        else update_dht_loop a od min_rank rs g
      }
      else case srv_send r (M_obj_update \<lparr>oh_qid = 0, oh_rank = min_rank, oh_rc = 0,
                              oh_odsc = obj_desc od, oh_gdim = od_gdim od\<rparr>) g of
             (err, g) \<Rightarrow> if err < 0 then Some (err, g) else update_dht_loop a od min_rank rs g)"

text \<open>\<open>dht_tab[0]\<close> is read before its number of entries matters: no entry means undefined behaviour.\<close>

definition obj_put_update_dht :: "obj_data \<Rightarrow> ds_gspace \<Rightarrow> (int \<times> ds_gspace) option" where
  "obj_put_update_dht od g = do {
     (a, g) \<leftarrow> lookup_sspace g (od_gdim od);
     (dht_tab, g) \<leftarrow> srv_hash g a (od_bb (obj_desc od));
     ranks \<leftarrow> those (map (ref_rank g) dht_tab);
     if ranks = [] then None else update_dht_loop a od (hd ranks) ranks g
   }"

definition obj_put_completion :: "nat \<Rightarrow> (nat \<Rightarrow> byte) \<Rightarrow> ds_gspace \<Rightarrow> (int \<times> ds_gspace) option" where
  "obj_put_completion a bytes g = do {
     od \<leftarrow> find (\<lambda>od. od_addr od = a) (g_pending g);
     if a \<in> set (g_freed g) then None
     else Some (0, g\<lparr>g_pending := filter (\<lambda>od. od_addr od \<noteq> a) (g_pending g),
                     g_ls := ls_add_obj (g_ls g)
                       (od\<lparr>data := memcpy (data od) 0 bytes 0 (unat (obj_data_size (obj_desc od)))\<rparr>)\<rparr>)
   }"

text \<open>
  Error paths: without a message buffer, or when the transfer cannot start, the object is
  released; when the directory update fails it is released although the transfer is running.
\<close>

definition dsgrpc_obj_put :: "int \<Rightarrow> hdr_obj_put \<Rightarrow> ds_gspace \<Rightarrow> (int \<times> ds_gspace) option" where
  "dsgrpc_obj_put cid hdr g =
     (let odsc = (hp_odsc hdr)\<lparr>od_owner := g_id g\<rparr>;
          (rc, g) = attempt g
      in case obj_data_alloc (if rc = 0 then Some (g_brk g) else None) (Some (g_buf g)) odsc of
           None \<Rightarrow> Some (- ENOMEM, g)
         | Some od \<Rightarrow>
             let od = od\<lparr>od_gdim := hp_gdim hdr\<rparr>;
                 g = g\<lparr>g_brk := g_brk g + 1\<rparr>;
                 (rc, g) = attempt g
             in if rc \<noteq> 0 then Some (- ENOMEM, g\<lparr>g_freed := od_addr od # g_freed g\<rparr>)
                else let (err, g) = attempt g
                     in if err < 0 then Some (err, g\<lparr>g_freed := od_addr od # g_freed g\<rparr>)
                        else do {
                          (err, g) \<leftarrow> obj_put_update_dht od (g\<lparr>g_pending := od # g_pending g\<rparr>);
                          Some (err, if err = 0 then g else g\<lparr>g_freed := od_addr od # g_freed g\<rparr>)
                        })"

definition dsghlp_obj_put :: "obj_data \<Rightarrow> ds_gspace \<Rightarrow> int \<times> ds_gspace" where
  "dsghlp_obj_put od g =
     (let (rc, g) = attempt g
      in if rc \<noteq> 0 then (- ENOMEM, g)
         else (0, g\<lparr>g_ls := ls_add_obj (g_ls g) (od\<lparr>obj_desc := (obj_desc od)\<lparr>od_owner := g_id g\<rparr>\<rparr>)\<rparr>))"

subsection \<open>Queries for metadata\<close>

definition meta_odsc :: "string \<Rightarrow> int \<Rightarrow> obj_descriptor" where
  "meta_odsc f_name v =
     \<lparr>od_name = ''VARMETA@'' @ f_name, od_st = column_major, od_owner = - 1, od_version = word_of_int v,
      od_bb = \<lparr>num_dims = 1, lb = \<lambda>_. 0, ub = \<lambda>_. 0\<rparr>, od_size = 1\<rparr>"

definition meta_reply :: "int \<Rightarrow> obj_data option \<Rightarrow> ds_gspace \<Rightarrow> int \<times> ds_gspace" where
  "meta_reply peer from_obj =
     srv_send peer
       (case from_obj of
          None \<Rightarrow> M_meta (- 3) (- 3)
        | Some od \<Rightarrow> M_meta (sint (ucast (ub (od_bb (obj_desc od)) 0 + 1) :: u32))
                       (sint (od_version (obj_desc od))))"

definition dsgrpc_obj_get_next_meta :: "int \<Rightarrow> string \<Rightarrow> int \<Rightarrow> ds_gspace \<Rightarrow> int \<times> ds_gspace" where
  "dsgrpc_obj_get_next_meta cid f_name v g =
     meta_reply cid (ls_find_next (g_ls g) (meta_odsc f_name v)) g"

definition dsgrpc_obj_get_latest_meta ::
  "obj_data list \<Rightarrow> int \<Rightarrow> string \<Rightarrow> int \<Rightarrow> ds_gspace \<Rightarrow> (int \<times> ds_gspace) option" where
  "dsgrpc_obj_get_latest_meta stray cid f_name v g =
     map_option (\<lambda>od. meta_reply cid od g) (ls_find_latest stray (g_ls g) (meta_odsc f_name v))"

text \<open>A metadata object that is not found is reported as \<open>-ENOMEM\<close>.\<close>

definition dsgrpc_obj_get_var_meta ::
  "int \<Rightarrow> string \<Rightarrow> int \<Rightarrow> int \<Rightarrow> ds_gspace \<Rightarrow> int \<times> ds_gspace" where
  "dsgrpc_obj_get_var_meta cid f_name v len g =
     (case ls_find (g_ls g) (meta_odsc f_name v) of
        None \<Rightarrow> (- ENOMEM, g)
      | Some od \<Rightarrow> srv_send cid (M_obj_data (word_of_int len) (data od)) g)"

subsection \<open>Locating objects\<close>

definition obj_info_reply_descriptor :: "int \<Rightarrow> obj_descriptor \<Rightarrow> ds_gspace \<Rightarrow> (int \<times> ds_gspace) option" where
  "obj_info_reply_descriptor q_peer q_odsc g = do {
     de \<leftarrow> self_entry g (ss_addr (g_ssd g));
     let oh = (case dht_find_entry de q_odsc of
                 None \<Rightarrow> \<lparr>oh_qid = 0, oh_rank = 0, oh_rc = - ENOENT, oh_odsc = q_odsc, oh_gdim = gdim_zero\<rparr>
               | Some o' \<Rightarrow> \<lparr>oh_qid = 0, oh_rank = 0, oh_rc = 0,
                             oh_odsc = o'\<lparr>od_bb := bbox_intersect (od_bb o') (od_bb q_odsc) (od_bb o')\<rparr>,
                             oh_gdim = gdim_zero\<rparr>);
     Some (srv_send q_peer (M_obj_info oh) g)
   }"

definition obj_query_reply_num_de :: "int \<Rightarrow> nat \<Rightarrow> ds_gspace \<Rightarrow> int \<times> ds_gspace" where
  "obj_query_reply_num_de peer num_de = srv_send peer (M_obj_query (int num_de))"

text \<open>The result is the number of entries that are this server, or the error that ended the loop.\<close>

fun obj_query_forward_obj_info :: "int list \<Rightarrow> hdr_obj_get \<Rightarrow> int \<Rightarrow> ds_gspace \<Rightarrow> int \<times> ds_gspace" where
  "obj_query_forward_obj_info [] oh to_self g = (to_self, g)"
| "obj_query_forward_obj_info (r # rs) oh to_self g =
     (if r = g_id g then obj_query_forward_obj_info rs oh (to_self + 1) g
      else case srv_send r (M_obj_info oh) g of
             (err, g) \<Rightarrow> if err < 0 then (err, g) else obj_query_forward_obj_info rs oh to_self g)"

definition dsgrpc_obj_query :: "int \<Rightarrow> hdr_obj_get \<Rightarrow> ds_gspace \<Rightarrow> (int \<times> ds_gspace) option" where
  "dsgrpc_obj_query cid oh g = do {
     (de_tab, g) \<leftarrow> srv_hash g (ss_addr (g_ssd g)) (od_bb (oh_odsc oh));
     ranks \<leftarrow> those (map (ref_rank g) de_tab);
     let (err, g) = obj_query_reply_num_de cid (length de_tab) g;
     if err < 0 then Some (err, g)
     else let (err, g) = obj_query_forward_obj_info ranks oh 0 g in
       if err < 0 then Some (err, g)
       else if err > 0
       then do {
         (err, g) \<leftarrow> obj_info_reply_descriptor cid (oh_odsc oh) g;
         Some (if err < 0 then err else 0, g)
       }
       else Some (0, g)
   }"

definition dsgrpc_obj_info :: "hdr_obj_get \<Rightarrow> ds_gspace \<Rightarrow> (int \<times> ds_gspace) option" where
  "dsgrpc_obj_info oh g = do {
     (err, g) \<leftarrow> obj_info_reply_descriptor (oh_rank oh) (oh_odsc oh) g;
     Some (if err < 0 then err else 0, g)
   }"

text \<open>
  The table has \<open>peer_num + 1\<close> elements, but \<open>size_sp + 1\<close> are sent: what follows the marker \<open>-1\<close> is
  read from behind the allocated block (\<open>g_ints\<close>).
\<close>

definition dsgrpc_obj_send_dht_peers :: "int \<Rightarrow> hdr_obj_get \<Rightarrow> ds_gspace \<Rightarrow> (int \<times> ds_gspace) option" where
  "dsgrpc_obj_send_dht_peers cid oh g = do {
     (a, g) \<leftarrow> lookup_sspace g (oh_gdim oh);
     (de_tab, g) \<leftarrow> srv_hash g a (od_bb (oh_odsc oh));
     ranks \<leftarrow> those (map (ref_rank g) de_tab);
     let (rc, g) = attempt g;
     let peer_id_tab = ranks @ [- 1];
     if rc \<noteq> 0 then Some (- ENOMEM, g)
     else Some (srv_send cid (M_dht_peers
       (map (\<lambda>i. if i < length peer_id_tab then peer_id_tab ! i else g_ints g i) [0..<g_size_sp g + 1])) g)
   }"

definition obj_desc_req_add_pending :: "int \<Rightarrow> hdr_obj_get \<Rightarrow> ds_gspace \<Rightarrow> int \<times> ds_gspace" where
  "obj_desc_req_add_pending cid oh g =
     (let (rc, g) = attempt g
      in if rc \<noteq> 0 then (- ENOMEM, g)
         else (0, g\<lparr>g_obj_desc_req_list := (cid, oh) # g_obj_desc_req_list g\<rparr>))"

definition obj_desc_not_found :: "int \<Rightarrow> int \<Rightarrow> u32 list \<Rightarrow> ds_gspace \<Rightarrow> int \<times> ds_gspace" where
  "obj_desc_not_found peer qid versions = srv_send peer (M_obj_get_desc_fail qid versions)"

text \<open>A found descriptor as it is sent: with the storage order of the query, cut to the box of the query.\<close>

definition reply_desc :: "obj_descriptor \<Rightarrow> obj_descriptor \<Rightarrow> obj_descriptor" where
  "reply_desc q odsc =
     odsc\<lparr>od_st := od_st q, od_bb := bbox_intersect (od_bb q) (od_bb odsc) (od_bb odsc)\<rparr>"

definition dsgrpc_obj_get_desc :: "int \<Rightarrow> hdr_obj_get \<Rightarrow> ds_gspace \<Rightarrow> (int \<times> ds_gspace) option" where
  "dsgrpc_obj_get_desc cid oh g = do {
     (a, g) \<leftarrow> lookup_sspace g (oh_gdim oh);
     de \<leftarrow> self_entry g a;
     let podsc = dht_find_entry_all de (oh_odsc oh);
     if podsc = []
     then let (err, g) = obj_desc_not_found cid (oh_qid oh) (dht_find_versions de (oh_odsc oh)) g
          in Some (if err < 0 then err else 0, g)
     else let (rc, g) = attempt g in
       if rc \<noteq> 0 then Some (- ENOMEM, g)
       else Some (srv_send cid (M_obj_get_desc (oh_qid oh) (map (reply_desc (oh_odsc oh)) podsc)) g)
   }"

subsection \<open>Gets\<close>

text \<open>The copy is released by the completion routine of the transfer.\<close>

definition dsgrpc_obj_get :: "int \<Rightarrow> hdr_obj_get \<Rightarrow> ds_gspace \<Rightarrow> (int \<times> ds_gspace) option" where
  "dsgrpc_obj_get cid oh g =
     (case ls_find (g_ls g) (oh_odsc oh) of
        None \<Rightarrow> Some (- ENOENT, g)
      | Some from_obj \<Rightarrow>
          let (rc, g) = attempt g
          in case obj_data_alloc (if rc = 0 then Some (g_brk g) else None) (Some (g_buf g)) (oh_odsc oh) of
               None \<Rightarrow> Some (- ENOMEM, g)
             | Some od \<Rightarrow> do {
                 od \<leftarrow> ssd_copy (g_mem g 0) od from_obj;
                 let od = od\<lparr>obj_ref := Some (od_addr from_obj)\<rparr>;
                 let g = g\<lparr>g_brk := g_brk g + 1\<rparr>;
                 Some (srv_send cid (M_obj_data (obj_data_size (obj_desc od)) (data od)) g)
               })"

text \<open>\<open>ssd_filter\<close> is a placeholder in the code: the n-th call returns \<open>2.0 * n\<close>.\<close>

definition ssd_filter :: "int \<Rightarrow> int \<times> int" where
  "ssd_filter n = (2 * n, n + 1)"

definition dsgrpc_obj_filter :: "int \<Rightarrow> obj_descriptor \<Rightarrow> ds_gspace \<Rightarrow> int \<times> ds_gspace" where
  "dsgrpc_obj_filter cid odsc g =
     (case ls_find (g_ls g) odsc of
        None \<Rightarrow> (- ENOENT, g)
      | Some from_obj \<Rightarrow>
          let (rc, g) = attempt g
          in if rc \<noteq> 0 then (- ENOMEM, g)
             else let (dval, n) = ssd_filter (g_filter_n g);
                      (err, g) = srv_send cid (M_filter dval) (g\<lparr>g_filter_n := n\<rparr>)
                  in (if err < 0 then err else 0, g))"

subsection \<open>Information and control\<close>

definition dsgrpc_ss_info :: "int \<Rightarrow> ds_gspace \<Rightarrow> int \<times> ds_gspace" where
  "dsgrpc_ss_info cid g =
     (let cf = g_conf g
      in srv_send cid (M_ss_info
           \<lparr>si_num_dims = cf_ndim cf, si_dims = cf_dims cf, si_num_space_srv = int (g_size_sp g),
            si_hash_version = cf_hash_version cf, si_max_versions = cf_max_versions cf\<rparr>) g)"

definition dsgrpc_ss_kill :: "ds_gspace \<Rightarrow> int \<times> ds_gspace" where
  "dsgrpc_ss_kill g = (0, g\<lparr>g_kill := True\<rparr>)"

definition dsg_complete :: "bool \<Rightarrow> ds_gspace \<Rightarrow> bool" where
  "dsg_complete ds_stop g \<longleftrightarrow> ds_stop \<or> g_kill g"

subsection \<open>Start\<close>

definition conf_default :: "ds_conf \<Rightarrow> ds_conf" where
  "conf_default conf = conf\<lparr>cf_max_versions := 1, cf_max_readers := 1, cf_lock_type := 1, cf_hash_version := 1\<rparr>"

definition conf_valid :: "nat \<Rightarrow> ds_conf \<Rightarrow> bool" where
  "conf_valid max_ndim conf \<longleftrightarrow>
     cf_ndim conf \<le> int max_ndim \<and>
     \<not> (cf_hash_version conf < 1 \<or> cf_hash_version conf \<ge> 3) \<and>
     \<not> (cf_lock_type conf < 1 \<or> cf_lock_type conf \<ge> 4)"

text \<open>
  The outer option is definedness, the inner one the returned pointer. \<open>conf0\<close> is the static
  \<open>ds_conf\<close> (zero at program start), \<open>g0\<close> what the allocated block holds and the environment;
  \<open>ds_ok\<close> is the outcome of \<open>ds_alloc\<close>, which assigns \<open>self\<close>. A negative number of versions or of
  dimensions passes the checks; the sizes computed from it are not meaningful.
\<close>

definition dsg_alloc ::
  "nat \<Rightarrow> nat \<Rightarrow> int \<Rightarrow> bool \<Rightarrow> bool \<Rightarrow> string \<Rightarrow> ds_conf \<Rightarrow> ds_gspace \<Rightarrow> ds_gspace option option" where
  "dsg_alloc max_ndim num_sp self ds_ok ls_ok conf_text conf0 g0 = do {
     (err, conf) \<leftarrow> parse_conf max_ndim conf_text (conf_default conf0);
     if err < 0 \<or> \<not> conf_valid max_ndim conf then Some None
     else let (rc, g) = attempt g0 in
       if rc \<noteq> 0 \<or> \<not> ds_ok then Some None
       else if cf_max_versions conf < 0 \<or> cf_ndim conf < 0 then None
       else do {
         (err, g) \<leftarrow> init_sspace
            (gdim_domain \<lparr>ndim = nat (cf_ndim conf), sizes = cf_dims conf\<rparr>)
            (g\<lparr>g_conf := conf, g_id := self, g_size_sp := num_sp, g_cq_list := [], g_obj_desc_req_list := [],
               g_locks_list := []\<rparr>);
         if err < 0 then Some None
         else case ls_alloc ls_ok (nat (cf_max_versions conf)) of
                None \<Rightarrow> Some None
              | Some ls \<Rightarrow> Some (Some (g\<lparr>g_ls := ls, g_kill := False\<rparr>))
       }
   }"

subsection \<open>Dispatch\<close>

text \<open>The calls \<open>dsg_alloc\<close> registers with \<open>rpc_add_service\<close>, and the completion of a transfer.\<close>

datatype srv_rpc =
    ss_obj_get_dht_peers int hdr_obj_get
  | ss_obj_get_desc int hdr_obj_get
  | ss_obj_get int hdr_obj_get
  | ss_obj_put int hdr_obj_put
  | ss_obj_get_next_meta int string int
  | ss_obj_get_latest_meta int string int "obj_data list"
  | ss_obj_get_var_meta int string int int
  | ss_obj_update int hdr_obj_get
  | ss_obj_filter int obj_descriptor
  | cp_lock lock_cmd
  | cp_remove lockhdr
  | ss_info int
  | ss_kill
  | put_completed nat "nat \<Rightarrow> byte"

definition dsg_service :: "srv_rpc \<Rightarrow> ds_gspace \<Rightarrow> (int \<times> ds_gspace) option" where
  "dsg_service rpc g =
     (case rpc of
        ss_obj_get_dht_peers cid oh \<Rightarrow> dsgrpc_obj_send_dht_peers cid oh g
      | ss_obj_get_desc cid oh \<Rightarrow> dsgrpc_obj_get_desc cid oh g
      | ss_obj_get cid oh \<Rightarrow> dsgrpc_obj_get cid oh g
      | ss_obj_put cid hdr \<Rightarrow> dsgrpc_obj_put cid hdr g
      | ss_obj_get_next_meta cid f_name v \<Rightarrow> Some (dsgrpc_obj_get_next_meta cid f_name v g)
      | ss_obj_get_latest_meta cid f_name v stray \<Rightarrow> dsgrpc_obj_get_latest_meta stray cid f_name v g
      | ss_obj_get_var_meta cid f_name v len \<Rightarrow> Some (dsgrpc_obj_get_var_meta cid f_name v len g)
      | ss_obj_update cid oh \<Rightarrow> dsgrpc_obj_update cid oh g
      | ss_obj_filter cid odsc \<Rightarrow> Some (dsgrpc_obj_filter cid odsc g)
      | cp_lock cmd \<Rightarrow> srv_lock cmd g
      | cp_remove lh \<Rightarrow> Some (dsgrpc_remove_service lh g)
      | ss_info cid \<Rightarrow> Some (dsgrpc_ss_info cid g)
      | ss_kill \<Rightarrow> Some (dsgrpc_ss_kill g)
      | put_completed a bytes \<Rightarrow> obj_put_completion a bytes g)"

subsection \<open>New spaces\<close>

definition empty_entry :: "nat \<Rightarrow> dht_entry \<Rightarrow> bool" where
  "empty_entry m de \<longleftrightarrow> odsc_size de = m \<and> odsc_num de = 0 \<and> odsc_hash de = (\<lambda>_. [])"

definition empty_dht :: "nat \<Rightarrow> nat \<Rightarrow> dht \<Rightarrow> bool" where
  "empty_dht n m d \<longleftrightarrow> num_entries d = n \<and> (\<forall>i<n. empty_entry m (ent_tab d i))"

lemma empty_entry_inv: "empty_entry m de \<Longrightarrow> 0 < m \<Longrightarrow> de_inv de"
  by (simp add: empty_entry_def de_inv_def de_objs_def)

lemma dht_alloc_empty: "dht_alloc ok tab bb n m = Inr d \<Longrightarrow> empty_dht n m d"
  using dht_alloc_ok [of ok tab bb n m d] by (simp add: empty_dht_def empty_entry_def dht_entry_alloc_def)

lemma empty_dht_set_ranks: "empty_dht n m d \<Longrightarrow> empty_dht n m (dht_set_ranks k d)"
  and empty_dht_size: "empty_dht n m d \<Longrightarrow> empty_dht n m (dht_size_bb_tabs k d)"
  and empty_dht_give: "empty_dht n m d \<Longrightarrow> empty_dht n m (dht_give_bbox d j bb)"
  by (auto simp: empty_dht_def empty_entry_def dht_set_ranks_def dht_size_bb_tabs_def dht_give_bbox_def Let_def)

lemma assign_loop_empty:
  assumes "assign_loop q i d = Some d'" "empty_dht n m d"
  shows "empty_dht n m d'"
proof -
  have "empty_dht n m d \<longrightarrow> empty_dht n m d'"
    by (rule assign_loop.raw_induct [OF _ assms(1)])
      (auto simp: empty_dht_give split: if_splits Option.bind_splits)
  then show ?thesis using assms(2) by simp
qed

lemma fill_entry_empty:
  assumes "fill_entry tab j len de = Some (tab', j', de')" "empty_entry m de"
  shows "empty_entry m de'"
proof -
  have add: "empty_entry m (de_add_intv de itv)" if "empty_entry m de" for de itv
    using that by (simp add: empty_entry_def de_add_intv_def)
  have "empty_entry m de \<longrightarrow> empty_entry m (snd (snd (tab', j', de')))"
    by (rule fill_entry.raw_induct [OF _ assms(1)]) (auto simp: Let_def add split: if_splits)
  then show ?thesis using assms(2) by simp
qed

lemma construct_loop_empty:
  "construct_loop ok sn is tab j d = Some (b, d') \<Longrightarrow> set is \<subseteq> {..<n} \<Longrightarrow> empty_dht n m d \<Longrightarrow> empty_dht n m d'"
proof (induction "is" arbitrary: tab j d)
  case (Cons i "is")
  let ?de = "(ent_tab d i)\<lparr>rank := int i\<rparr>"
  have e: "empty_entry m ?de" using Cons.prems by (simp add: empty_dht_def empty_entry_def)
  have upd: "empty_dht n m (d\<lparr>ent_tab := (ent_tab d)(i := de)\<rparr>)" if "empty_entry m de" for de
    using that Cons.prems(3) by (simp add: empty_dht_def)
  show ?case
  proof (cases "ok (2 * i)")
    case False
    then show ?thesis using Cons.prems(1) upd [OF e] by (auto simp: Let_def)
  next
    case True
    then obtain tab1 j1 de1 de2 where f: "fill_entry tab j sn ?de = Some (tab1, j1, de1)" "de_set_virt de1 = Some de2"
      and c: "(if ok (2 * i + 1) then construct_loop ok sn is tab1 j1 (d\<lparr>ent_tab := (ent_tab d)(i := de2)\<rparr>)
         else Some (False, d\<lparr>ent_tab := (ent_tab d)(i := de2)\<rparr>)) = Some (b, d')"
      using Cons.prems(1) by (auto simp: Let_def split: Option.bind_splits if_splits)
    have "empty_entry m de2"
      using fill_entry_empty [OF f(1) e] f(2) by (auto simp: de_set_virt_def empty_entry_def split: if_splits)
    then show ?thesis using c upd [of de2] Cons.IH Cons.prems(2) by (auto split: if_splits)
  qed
qed simp

lemma dht_construct_hash_empty:
  assumes "dht_construct_hash ok md d = Some (err, d')" "empty_dht n m d"
  shows "empty_dht n m d'"
proof -
  obtain tab b sn where c: "construct_loop ok sn [0..<num_entries d] tab 0 d = Some (b, d')"
    using assms(1) by (auto simp: dht_construct_hash_def split: if_splits Option.bind_splits)
  have "num_entries d = n" using assms(2) by (simp add: empty_dht_def)
  then show ?thesis using construct_loop_empty [OF c _ assms(2)] by (simp add: atLeast0LessThan)
qed

lemma ssd_alloc_empty:
  assumes "ssd_alloc e bb n m hv = Some (Some ss)"
  shows "empty_dht n m (dht ss) \<and> ss_addr ss = e_addr e"
proof (cases hv)
  case ssd_hash_version_v1
  then obtain d err d' where "dht_alloc (e_malloc_ok e) (e_tab e) bb n m = Inr d"
    "dht_construct_hash (e_intv_ok e) (next_pow_2 (domain_max_dim bb)) d = Some (err, d')"
    "dht ss = d'" "ss_addr ss = e_addr e"
    using assms
    by (auto simp: ssd_alloc_def ssd_alloc_v1_def Let_def split: if_splits sum.splits Option.bind_splits)
  then show ?thesis using dht_construct_hash_empty dht_alloc_empty by blast
next
  case ssd_hash_version_v2
  then obtain q d k d' where "dht_alloc (e_malloc_ok e) (e_tab e) bb n m = Inr d"
    "assign_loop q 0 (dht_size_bb_tabs k (dht_set_ranks n d)) = Some d'" "dht ss = d'" "ss_addr ss = e_addr e"
    using assms
    by (auto simp: ssd_alloc_def ssd_alloc_v2_def Let_def bind_eq_Some_conv split: if_splits sum.splits prod.splits)
  then show ?thesis using assign_loop_empty empty_dht_size empty_dht_set_ranks dht_alloc_empty by blast
qed (use assms in \<open>simp add: ssd_alloc_def\<close>)

subsection \<open>The invariant of a server\<close>

definition spaces :: "ds_gspace \<Rightarrow> sspace list" where
  "spaces g = g_ssd g # map snd (g_sspace_list g)"

definition self_of :: "sspace \<Rightarrow> dht_entry" where
  "self_of ss = ent_tab (dht ss) (ent_self ss)"

definition space_inv :: "ds_gspace \<Rightarrow> sspace \<Rightarrow> bool" where
  "space_inv g ss \<longleftrightarrow> ss_addr ss < g_brk g \<and> num_entries (dht ss) = g_size_sp g \<and>
     ent_self ss = nat (g_id g) \<and> de_inv (self_of ss) \<and>
     odsc_size (self_of ss) = nat (cf_max_versions (g_conf g))"

definition spaces_inv :: "ds_gspace \<Rightarrow> bool" where
  "spaces_inv g \<longleftrightarrow> distinct (map ss_addr (spaces g)) \<and> (\<forall>ss\<in>set (spaces g). space_inv g ss)"

definition srv_conf_ok :: "ds_gspace \<Rightarrow> bool" where
  "srv_conf_ok g \<longleftrightarrow> 0 < cf_max_versions (g_conf g) \<and> 0 \<le> g_id g \<and> nat (g_id g) < g_size_sp g"

definition store_inv :: "ds_gspace \<Rightarrow> bool" where
  "store_inv g \<longleftrightarrow> ls_inv (g_ls g) \<and> (\<forall>a\<in>ls_addrs (g_ls g). a < g_brk g) \<and> distinct (map od_addr (g_pending g)) \<and>
     (\<forall>od\<in>set (g_pending g). od_addr od < g_brk g \<and> od_addr od \<notin> ls_addrs (g_ls g))"

definition srv_inv :: "ds_gspace \<Rightarrow> bool" where
  "srv_inv g \<longleftrightarrow> srv_conf_ok g \<and> spaces_inv g \<and> store_inv g \<and> distinct (map lk_name (g_locks_list g))"

text \<open>What the directory side of the handlers leaves alone, and keeps.\<close>

definition same_store :: "ds_gspace \<Rightarrow> ds_gspace \<Rightarrow> bool" where
  "same_store g g' \<longleftrightarrow> g_ls g' = g_ls g \<and> g_pending g' = g_pending g \<and> g_locks_list g' = g_locks_list g \<and>
     g_conf g' = g_conf g \<and> g_id g' = g_id g \<and> g_size_sp g' = g_size_sp g \<and> g_brk g \<le> g_brk g' \<and> g_rc g' = g_rc g"

definition dir_step :: "ds_gspace \<Rightarrow> ds_gspace \<Rightarrow> bool" where
  "dir_step g g' \<longleftrightarrow> same_store g g' \<and> (srv_conf_ok g \<longrightarrow> spaces_inv g \<longrightarrow> spaces_inv g')"

lemma dir_step_refl [simp, intro]: "dir_step g g"
  by (simp add: dir_step_def same_store_def)

lemma same_store_conf: "same_store g g' \<Longrightarrow> srv_conf_ok g' = srv_conf_ok g"
  by (simp add: same_store_def srv_conf_ok_def)

lemma dir_step_trans [trans]: "dir_step g g' \<Longrightarrow> dir_step g' g'' \<Longrightarrow> dir_step g g''"
  using same_store_conf [of g g'] by (auto simp: dir_step_def same_store_def)

lemma space_inv_mono: "same_store g g' \<Longrightarrow> space_inv g ss \<Longrightarrow> space_inv g' ss"
  by (auto simp: same_store_def space_inv_def)

lemma dir_step_same: "same_store g g' \<Longrightarrow> spaces g' = spaces g \<Longrightarrow> dir_step g g'"
  using space_inv_mono by (auto simp: dir_step_def spaces_inv_def)

lemma dir_step_attempt: "attempt g = (rc, g') \<Longrightarrow> dir_step g g'"
  by (rule dir_step_same) (auto simp: attempt_def same_store_def spaces_def)

lemma dir_step_send: "srv_send peer msg g = (err, g') \<Longrightarrow> dir_step g g'"
  by (rule dir_step_same) (auto simp: srv_send_def attempt_def same_store_def spaces_def)

lemma find_space_Some: "find_space g a = Some ss \<Longrightarrow> ss \<in> set (spaces g) \<and> ss_addr ss = a"
  unfolding find_space_def spaces_def [symmetric] using find_SomeD by fastforce

lemma spaces_update: "spaces (update_space a f g) = map (\<lambda>ss. if ss_addr ss = a then f ss else ss) (spaces g)"
  by (auto simp: spaces_def update_space_def)

lemma dir_step_update_space:
  assumes "\<And>ss. ss_addr (f ss) = ss_addr ss"
    and "\<And>ss. ss \<in> set (spaces g) \<Longrightarrow> distinct (map ss_addr (spaces g)) \<Longrightarrow> ss_addr ss = a \<Longrightarrow>
      space_inv g ss \<Longrightarrow> space_inv g (f ss)"
  shows "dir_step g (update_space a f g)"
proof -
  have s: "same_store g (update_space a f g)" by (simp add: same_store_def update_space_def)
  have "map ss_addr (spaces (update_space a f g)) = map ss_addr (spaces g)"
    by (simp add: spaces_update assms(1))
  moreover have "\<forall>ss\<in>set (spaces (update_space a f g)). space_inv g ss" if "spaces_inv g"
    using that assms(2) by (auto simp: spaces_update spaces_inv_def)
  ultimately show ?thesis
    using s space_inv_mono [OF s] by (auto simp: dir_step_def spaces_inv_def)
qed

lemma set_self_entry_sel [simp]:
  "ss_addr (set_self_entry de ss) = ss_addr ss" "self_of (set_self_entry de ss) = de"
  "ent_self (set_self_entry de ss) = ent_self ss" "num_entries (dht (set_self_entry de ss)) = num_entries (dht ss)"
  by (auto simp: set_self_entry_def self_of_def)

lemma add_self_entry_eq:
  "add_self_entry a odsc g = map_option (\<lambda>ss.
     let r = dht_add_entry (fst (attempt g) = 0) (self_of ss) odsc
     in (fst r, update_space a (set_self_entry (snd r)) (snd (attempt g)))) (find_space g a)"
  by (cases "find_space g a") (auto simp: add_self_entry_def self_entry_def self_of_def Let_def split: prod.splits)

lemma space_inv_add:
  "space_inv g ss \<Longrightarrow> space_inv g (set_self_entry (snd (dht_add_entry ok (self_of ss) odsc)) ss)"
  by (simp add: space_inv_def dht_add_entry_inv)

lemma dir_step_add_self:
  assumes "add_self_entry a odsc g = Some (err, g')"
  shows "dir_step g g'"
proof -
  obtain rc g1 where at: "attempt g = (rc, g1)" by fastforce
  obtain ss where f: "find_space g a = Some ss" and
    g': "g' = update_space a (set_self_entry (snd (dht_add_entry (rc = 0) (self_of ss) odsc))) g1"
    using assms at by (auto simp: add_self_entry_eq Let_def)
  have "spaces g1 = spaces g" using at by (auto simp: attempt_def spaces_def)
  then have "ss \<in> set (spaces g1)" "ss_addr ss = a" using find_space_Some [OF f] by auto
  then have "dir_step g1 g'"
    unfolding g' by (intro dir_step_update_space) (auto dest!: eq_key_imp_eq_value intro: space_inv_add simp: distinct_map inj_on_def)
  then show ?thesis using dir_step_attempt [OF at] dir_step_trans by blast
qed

lemma dir_step_lookup:
  assumes "lookup_sspace g gd = Some (a, g')"
  shows "dir_step g g'"
proof (cases "global_dimension_equal gd (g_default_gdim g) \<or>
    find (\<lambda>(d, ss). ndim gd = ndim d \<and> global_dimension_equal gd d) (g_sspace_list g) \<noteq> None")
  case True
  then show ?thesis using assms by (auto simp: lookup_sspace_def split: if_splits)
next
  case False
  let ?m = "nat (cf_max_versions (g_conf g))"
  let ?g1 = "g\<lparr>g_brk := g_brk g + 1\<rparr>"
  have 1: "dir_step g ?g1" by (rule dir_step_same) (auto simp: same_store_def spaces_def)
  obtain r where r: "ssd_alloc (g_ss_env g (g_brk g)\<lparr>e_addr := g_brk g\<rparr>) (gdim_domain gd) (g_size_sp g) ?m
      (hash_version_of (cf_hash_version (g_conf g))) = Some r"
    and g': "g' = (case r of None \<Rightarrow> ?g1 | Some ssd \<Rightarrow> ?g1\<lparr>g_sspace_list := (gd, ssd_init ssd (nat (g_id g))) # g_sspace_list g\<rparr>)"
    using assms False by (auto simp: lookup_sspace_def Let_def bind_eq_Some_conv split: option.splits)
  show ?thesis
  proof (cases r)
    case None
    then show ?thesis using 1 g' by simp
  next
    case (Some ssd)
    have e: "empty_dht (g_size_sp g) ?m (dht ssd)" "ss_addr ssd = g_brk g"
      using ssd_alloc_empty r Some by force+
    let ?ss = "ssd_init ssd (nat (g_id g))"
    have s: "same_store g g'" using g' Some by (simp add: same_store_def)
    have "spaces_inv g'" if c: "srv_conf_ok g" and i: "spaces_inv g"
    proof -
      have "empty_entry ?m (self_of ?ss)"
        using e c by (simp add: self_of_def ssd_init_def empty_dht_def srv_conf_ok_def)
      then have "space_inv g' ?ss"
        using e c g' Some empty_entry_inv [of ?m "self_of ?ss"]
        by (simp add: space_inv_def ssd_init_def empty_dht_def srv_conf_ok_def empty_entry_def)
      moreover have "\<forall>ss\<in>set (spaces g). space_inv g ss \<and> ss_addr ss < g_brk g"
        using i by (auto simp: spaces_inv_def space_inv_def)
      moreover have "spaces g' = g_ssd g # ?ss # map snd (g_sspace_list g)"
        using g' Some by (simp add: spaces_def)
      ultimately show ?thesis
        using i e(2) space_inv_mono [OF s]
        by (auto simp: spaces_inv_def spaces_def ssd_init_def)
    qed
    then show ?thesis using s by (simp add: dir_step_def)
  qed
qed

lemma dir_step_hash: "srv_hash g a bb = Some (de_tab, g') \<Longrightarrow> dir_step g g'"
  by (rule dir_step_same)
    (auto simp: srv_hash_def bind_eq_Some_conv attempt_def same_store_def spaces_def split: prod.splits)

lemma dir_step_cq_loop: "cq_check_loop cqs odsc g = (err, cqs', g') \<Longrightarrow> dir_step g g'"
proof (induction cqs arbitrary: g cqs' err)
  case (Cons cq cqs)
  have n: "cq_notify_on_match cq odsc g = (e, c, h) \<Longrightarrow> dir_step g h" for e c h
    by (auto simp: cq_notify_on_match_def Let_def split: prod.splits if_splits
        intro: dir_step_trans dest!: dir_step_attempt dir_step_send)
  show ?case
    using Cons.prems Cons.IH n dir_step_trans by (auto split: if_splits prod.splits)
qed simp

lemma dir_step_cq: "cq_check_match odsc g = (err, g') \<Longrightarrow> dir_step g g'"
proof -
  assume a: "cq_check_match odsc g = (err, g')"
  obtain cqs g1 where l: "cq_check_loop (g_cq_list g) odsc g = (err, cqs, g1)" "g' = g1\<lparr>g_cq_list := cqs\<rparr>"
    using a by (auto simp: cq_check_match_def split: prod.splits)
  have "dir_step g1 g'" unfolding l(2) by (rule dir_step_same) (auto simp: same_store_def spaces_def)
  then show ?thesis using dir_step_cq_loop [OF l(1)] dir_step_trans by blast
qed

lemma dir_step_update_loop: "update_dht_loop a od m rs g = Some (err, g') \<Longrightarrow> dir_step g g'"
proof (induction rs arbitrary: g m)
  case (Cons r rs)
  show ?case
    using Cons.prems
    by (auto split: if_splits prod.splits simp: bind_eq_Some_conv
        dest!: dir_step_add_self dir_step_cq dir_step_send Cons.IH intro: dir_step_trans)
qed simp

lemma dir_step_put_update: "obj_put_update_dht od g = Some (err, g') \<Longrightarrow> dir_step g g'"
  by (auto simp: obj_put_update_dht_def bind_eq_Some_conv split: prod.splits if_splits
      dest!: dir_step_lookup dir_step_hash dir_step_update_loop intro: dir_step_trans)

subsection \<open>Every handler keeps it\<close>

lemma dir_step_srv_inv: "dir_step g g' \<Longrightarrow> srv_inv g \<Longrightarrow> srv_inv g'"
  using same_store_conf [of g g'] by (fastforce simp: dir_step_def srv_inv_def same_store_def store_inv_def)

lemma dir_step_meta: "meta_reply peer od g = (err, g') \<Longrightarrow> dir_step g g'"
  unfolding meta_reply_def by (rule dir_step_send)

lemma dir_step_brk [simp, intro]: "dir_step g (g\<lparr>g_brk := g_brk g + 1\<rparr>)"
  by (rule dir_step_same) (auto simp: same_store_def spaces_def)

lemma dir_step_misc [simp, intro]:
  "dir_step g (g\<lparr>g_kill := b\<rparr>)" "dir_step g (g\<lparr>g_filter_n := n\<rparr>)" "dir_step g (g\<lparr>g_freed := fs\<rparr>)"
  by (auto intro!: dir_step_same simp: same_store_def spaces_def)

lemmas dir_step_dests = dir_step_lookup dir_step_hash dir_step_add_self dir_step_cq dir_step_send
  dir_step_attempt dir_step_meta

lemma dir_step_update: "dsgrpc_obj_update cid oh g = Some (err, g') \<Longrightarrow> dir_step g g'"
proof -
  assume u: "dsgrpc_obj_update cid oh g = Some (err, g')"
  obtain a g1 where l: "lookup_sspace g (oh_gdim oh) = Some (a, g1)"
    using u by (auto simp: dsgrpc_obj_update_def bind_eq_Some_conv)
  obtain e g2 where d: "add_self_entry a ((oh_odsc oh)\<lparr>od_owner := cid\<rparr>) g1 = Some (e, g2)"
    using u l by (auto simp: dsgrpc_obj_update_def Let_def bind_eq_Some_conv)
  have "dir_step g2 g'"
    using u l d dir_step_cq [of "(oh_odsc oh)\<lparr>od_owner := cid\<rparr>" g2] 
    by (cases "cq_check_match ((oh_odsc oh)\<lparr>od_owner := cid\<rparr>) g2") (auto simp: dsgrpc_obj_update_def Let_def split: if_splits)
  then show ?thesis using dir_step_lookup [OF l] dir_step_add_self [OF d] dir_step_trans by blast
qed

lemma dir_step_peers: "dsgrpc_obj_send_dht_peers cid oh g = Some (err, g') \<Longrightarrow> dir_step g g'"
proof -
  assume p: "dsgrpc_obj_send_dht_peers cid oh g = Some (err, g')"
  obtain a g1 where l: "lookup_sspace g (oh_gdim oh) = Some (a, g1)"
    using p by (auto simp: dsgrpc_obj_send_dht_peers_def bind_eq_Some_conv)
  obtain tab g2 where h: "srv_hash g1 a (od_bb (oh_odsc oh)) = Some (tab, g2)"
    using p l by (auto simp: dsgrpc_obj_send_dht_peers_def bind_eq_Some_conv)
  obtain ranks rc g3 where r: "those (map (ref_rank g2) tab) = Some ranks" and at: "attempt g2 = (rc, g3)"
    using p l h by (cases "attempt g2") (auto simp: dsgrpc_obj_send_dht_peers_def bind_eq_Some_conv)
  have "dir_step g3 g'"
  proof (cases "rc = 0")
    case True
    then show ?thesis
      using p l h r at dir_step_send by (auto simp: dsgrpc_obj_send_dht_peers_def Let_def)
  next
    case False
    then show ?thesis using p l h r at by (auto simp: dsgrpc_obj_send_dht_peers_def Let_def)
  qed
  then show ?thesis
    using dir_step_lookup [OF l] dir_step_hash [OF h] dir_step_attempt [OF at] dir_step_trans by blast
qed

lemma dir_step_get_desc: "dsgrpc_obj_get_desc cid oh g = Some (err, g') \<Longrightarrow> dir_step g g'"
proof -
  assume p: "dsgrpc_obj_get_desc cid oh g = Some (err, g')"
  obtain a g1 where l: "lookup_sspace g (oh_gdim oh) = Some (a, g1)"
    using p by (auto simp: dsgrpc_obj_get_desc_def bind_eq_Some_conv)
  obtain de rc g2 where d: "self_entry g1 a = Some de" and at: "attempt g1 = (rc, g2)"
    using p l by (cases "attempt g1") (auto simp: dsgrpc_obj_get_desc_def bind_eq_Some_conv)
  have "dir_step g1 g'"
  proof (cases "dht_find_entry_all de (oh_odsc oh) = []")
    case True
    then show ?thesis
      using p l d dir_step_send
      by (auto simp: dsgrpc_obj_get_desc_def obj_desc_not_found_def Let_def split: prod.splits)
  next
    case False
    then show ?thesis
      using p l d at dir_step_send [of _ _ g2] dir_step_attempt [OF at] dir_step_trans
      by (cases "rc = 0") (auto simp: dsgrpc_obj_get_desc_def Let_def)
  qed
  then show ?thesis using dir_step_lookup [OF l] dir_step_trans by blast
qed

lemma dir_step_queries:
  "dsgrpc_obj_get_latest_meta stray cid f_name v g = Some (err, g') \<Longrightarrow> dir_step g g'"
  "dsgrpc_obj_get_next_meta cid f_name v g = (err, g') \<Longrightarrow> dir_step g g'"
  "dsgrpc_obj_get_var_meta cid f_name v len g = (err, g') \<Longrightarrow> dir_step g g'"
  "dsgrpc_ss_info cid g = (err, g') \<Longrightarrow> dir_step g g'"
  "dsgrpc_ss_kill g = (err, g') \<Longrightarrow> dir_step g g'"
  subgoal using dir_step_meta by (auto simp: dsgrpc_obj_get_latest_meta_def)
  subgoal using dir_step_meta by (simp add: dsgrpc_obj_get_next_meta_def)
  subgoal using dir_step_send by (auto simp: dsgrpc_obj_get_var_meta_def split: option.splits)
  subgoal using dir_step_send by (simp add: dsgrpc_ss_info_def Let_def)
  subgoal by (auto simp: dsgrpc_ss_kill_def)
  done

lemma dir_step_get: "dsgrpc_obj_get cid oh g = Some (err, g') \<Longrightarrow> dir_step g g'"
proof -
  assume p: "dsgrpc_obj_get cid oh g = Some (err, g')"
  obtain rc g1 where at: "attempt g = (rc, g1)" by fastforce
  show ?thesis
  proof (cases "ls_find (g_ls g) (oh_odsc oh)")
    case None
    then show ?thesis using p by (simp add: dsgrpc_obj_get_def)
  next
    case (Some od)
    have "dir_step g1 g'"
    proof (cases "rc = 0")
      case True
      then obtain msg where "srv_send cid msg (g1\<lparr>g_brk := g_brk g1 + 1\<rparr>) = (err, g')"
        using p Some at by (auto simp: dsgrpc_obj_get_def obj_data_alloc_def Let_def bind_eq_Some_conv)
      then show ?thesis using dir_step_send dir_step_trans [OF dir_step_brk] by blast
    next
      case False
      then show ?thesis using p Some at by (auto simp: dsgrpc_obj_get_def obj_data_alloc_def)
    qed
    then show ?thesis using dir_step_attempt [OF at] dir_step_trans by blast
  qed
qed

lemma dir_step_filter: "dsgrpc_obj_filter cid odsc g = (err, g') \<Longrightarrow> dir_step g g'"
proof -
  assume p: "dsgrpc_obj_filter cid odsc g = (err, g')"
  obtain rc g1 where at: "attempt g = (rc, g1)" by fastforce
  show ?thesis
  proof (cases "ls_find (g_ls g) odsc = None \<or> rc \<noteq> 0")
    case True
    then show ?thesis
      using p at dir_step_attempt [OF at] by (auto simp: dsgrpc_obj_filter_def split: option.splits)
  next
    case False
    then obtain n msg e where "srv_send cid msg (g1\<lparr>g_filter_n := n\<rparr>) = (e, g')"
      using p at by (auto simp: dsgrpc_obj_filter_def split: prod.splits)
    then show ?thesis
      using dir_step_send dir_step_misc(2) dir_step_attempt [OF at] dir_step_trans by blast
  qed
qed

lemma ls_remove_free_addrs:
  "od \<in> set (ls_objs ls) \<Longrightarrow> ls_addrs (obj_data_free (ls_remove ls od) od) = ls_addrs ls"
  by (auto simp: ls_addrs_def)



lemma remove_fold:
  assumes "ls_inv ls" "set ods \<subseteq> set (ls_objs ls)" "distinct (map od_addr ods)"
    "ls' = fold (\<lambda>od ls. if P od then obj_data_free (ls_remove ls od) od else ls) ods ls"
  shows "ls_inv ls' \<and> ls_addrs ls' = ls_addrs ls \<and> size_hash ls' = size_hash ls \<and>
      (\<forall>i. obj_hash ls' i = filter (\<lambda>od. \<not> (P od \<and> od \<in> set ods)) (obj_hash ls i))"
  using assms
proof (induction ods arbitrary: ls)
  case (Cons o' ods)
  let ?ls1 = "if P o' then obj_data_free (ls_remove ls o') o' else ls"
  have mem: "o' \<in> set (ls_objs ls)" using Cons.prems(2) by simp
  have inv1: "ls_inv ?ls1" using Cons.prems(1) ls_remove_free_inv mem by simp
  have addr: "ls_addrs ?ls1 = ls_addrs ls" using ls_remove_free_addrs [OF mem] by simp
  have key: "od = o'" if "od \<in> set (obj_hash ls i)" "od_addr od = od_addr o'" for od i
    using ls_inv_obj(3) [OF Cons.prems(1) that(1)] mem that(2) ls_invD(2) [OF Cons.prems(1)]
    by (auto simp: distinct_map inj_on_def)
  have h1: "obj_hash ?ls1 i = filter (\<lambda>od. \<not> (P od \<and> od = o')) (obj_hash ls i)" for i
  proof (cases "P o'")
    case False
    then have "filter (\<lambda>od. \<not> (P od \<and> od = o')) (obj_hash ls i) = obj_hash ls i" by (intro filter_True) auto
    then show ?thesis using False by simp
  qed (use key in \<open>auto intro!: filter_cong\<close>)
  have sub: "set ods \<subseteq> set (ls_objs ?ls1)" using Cons.prems(2,3) by (auto simp: image_iff)
  have "ls' = fold (\<lambda>od ls. if P od then obj_data_free (ls_remove ls od) od else ls) ods ?ls1"
    using Cons.prems(4) by simp
  from Cons.IH [OF inv1 sub _ this] Cons.prems(3) show ?case
    by (auto simp: h1 addr intro!: filter_cong)
qed simp


lemma remove_bins:
  assumes "ls_inv ls" "ls' = fold (remove_bin name v) is ls" "set is \<subseteq> {..<size_hash ls}"
  shows "ls_inv ls' \<and> ls_addrs ls' = ls_addrs ls \<and> size_hash ls' = size_hash ls \<and>
    (\<forall>i. obj_hash ls' i = (if i \<in> set is then filter (\<lambda>od. \<not> remove_matches name v od) (obj_hash ls i) else obj_hash ls i))"
  using assms
proof (induction "is" arbitrary: ls)
  case (Cons j "is")
  let ?ls1 = "remove_bin name v j ls"
  have "set (obj_hash ls j) \<subseteq> set (ls_objs ls)" "distinct (map od_addr (obj_hash ls j))"
    using ls_objs_bin Cons.prems ls_bin_distinct by auto
  note R = remove_fold [OF Cons.prems(1) this refl, of "remove_matches name v", folded remove_bin_def]
  have key: "i = j" if "od \<in> set (obj_hash ls i)" "od \<in> set (obj_hash ls j)" for od i
    using ls_inv_obj(1) [OF Cons.prems(1)] that by blast
  have h1: "obj_hash ?ls1 i = (if i = j then filter (\<lambda>od. \<not> remove_matches name v od) (obj_hash ls i) else obj_hash ls i)" for i
  proof (cases "i = j")
    case False
    then have "filter (\<lambda>od. \<not> (remove_matches name v od \<and> od \<in> set (obj_hash ls j))) (obj_hash ls i) = obj_hash ls i"
      using key by (intro filter_True) auto
    then show ?thesis using R False by simp
  qed (use R in \<open>auto intro!: filter_cong\<close>)
  have "ls' = fold (remove_bin name v) is ?ls1" using Cons.prems(2) by simp
  moreover have "ls_inv ?ls1" "ls_addrs ?ls1 = ls_addrs ls" "size_hash ?ls1 = size_hash ls" using R by blast+
  ultimately show ?case using Cons.IH [of ?ls1] Cons.prems(3) by (auto simp: h1)
qed simp

lemma remove_service_spec:
  assumes "ls_inv (g_ls g)" "dsgrpc_remove_service lh g = (err, g')"
  shows "err = 0" "g' = g\<lparr>g_ls := g_ls g'\<rparr>" "ls_inv (g_ls g')" "ls_addrs (g_ls g') = ls_addrs (g_ls g)"
    "set (ls_objs (g_ls g')) = {od \<in> set (ls_objs (g_ls g)). \<not> remove_matches (lk_hname lh) (lock_num lh) od}"
proof -
  have g': "err = 0" "g' = g\<lparr>g_ls := fold (remove_bin (lk_hname lh) (lock_num lh)) [0..<size_hash (g_ls g)] (g_ls g)\<rparr>"
    using assms(2) by (auto simp: dsgrpc_remove_service_def)
  then show "err = 0" "g' = g\<lparr>g_ls := g_ls g'\<rparr>" by simp_all
  have "set [0..<size_hash (g_ls g)] \<subseteq> {..<size_hash (g_ls g)}" by auto
  note R = remove_bins [OF assms(1) refl this, of "lk_hname lh" "lock_num lh"]
  show "ls_inv (g_ls g')" "ls_addrs (g_ls g') = ls_addrs (g_ls g)" using R g'(2) by auto
  show "set (ls_objs (g_ls g')) = {od \<in> set (ls_objs (g_ls g)). \<not> remove_matches (lk_hname lh) (lock_num lh) od}"
    using R g'(2) by (auto simp: ls_objs_def)
qed

lemma srv_inv_remove: "dsgrpc_remove_service lh g = (err, g') \<Longrightarrow> srv_inv g \<Longrightarrow> srv_inv g'"
proof -
  assume a: "dsgrpc_remove_service lh g = (err, g')" "srv_inv g"
  have "ls_inv (g_ls g)" using a(2) by (simp add: srv_inv_def store_inv_def)
  note R = remove_service_spec [OF this a(1)]
  have "spaces g' = spaces g" "\<And>ss. space_inv g' ss = space_inv g ss" "srv_conf_ok g' = srv_conf_ok g"
    "g_pending g' = g_pending g" "g_brk g' = g_brk g" "g_locks_list g' = g_locks_list g"
    by (subst R(2), simp add: spaces_def space_inv_def srv_conf_ok_def)+
  then show ?thesis using a(2) R(3,4) by (simp add: srv_inv_def store_inv_def spaces_inv_def)
qed

lemma srv_inv_completion: "obj_put_completion a bytes g = Some (err, g') \<Longrightarrow> srv_inv g \<Longrightarrow> srv_inv g'"
proof -
  assume c: "obj_put_completion a bytes g = Some (err, g')" and inv: "srv_inv g"
  obtain od where od: "find (\<lambda>od. od_addr od = a) (g_pending g) = Some od"
    and g': "g' = g\<lparr>g_pending := filter (\<lambda>od. od_addr od \<noteq> a) (g_pending g), g_ls := ls_add_obj (g_ls g)
        (od\<lparr>data := memcpy (data od) 0 bytes 0 (unat (obj_data_size (obj_desc od)))\<rparr>)\<rparr>"
    using c by (auto simp: obj_put_completion_def bind_eq_Some_conv split: if_splits)
  let ?od = "od\<lparr>data := memcpy (data od) 0 bytes 0 (unat (obj_data_size (obj_desc od)))\<rparr>"
  have m: "od \<in> set (g_pending g)" "od_addr od = a" using find_SomeD [OF od] by auto
  have st: "ls_inv (g_ls g)" "od_addr ?od \<notin> ls_addrs (g_ls g)" "a < g_brk g" "distinct (map od_addr (g_pending g))"
    using inv m by (auto simp: srv_inv_def store_inv_def)
  have "ls_inv (ls_add_obj (g_ls g) ?od)" using ls_add_obj_inv [OF st(1,2)] .
  moreover have "ls_addrs (ls_add_obj (g_ls g) ?od) = insert a (ls_addrs (g_ls g))"
    using ls_addrs_add [OF st(1)] m(2) by simp
  ultimately have "store_inv g'"
    using inv g' st by (auto simp: srv_inv_def store_inv_def distinct_map_filter)
  moreover have "spaces g' = spaces g" "\<And>ss. space_inv g' ss = space_inv g ss" "srv_conf_ok g' = srv_conf_ok g"
    "g_locks_list g' = g_locks_list g" using g' by (auto simp: spaces_def space_inv_def srv_conf_ok_def)
  ultimately show ?thesis using inv by (simp add: srv_inv_def spaces_inv_def)
qed


lemma srv_inv_put: "dsgrpc_obj_put cid hdr g = Some (err, g') \<Longrightarrow> srv_inv g \<Longrightarrow> srv_inv g'"
proof -
  assume p: "dsgrpc_obj_put cid hdr g = Some (err, g')" and inv: "srv_inv g"
  obtain rc1 g1 where a1: "attempt g = (rc1, g1)" by fastforce
  let ?g2 = "g1\<lparr>g_brk := g_brk g1 + 1\<rparr>"
  obtain rc2 g3 where a2: "attempt ?g2 = (rc2, g3)" by fastforce
  obtain rc3 g4 where a3: "attempt g3 = (rc3, g4)" by fastforce
  have d1: "dir_step g g1" by (rule dir_step_attempt [OF a1])
  have d3: "dir_step ?g2 g3" "dir_step ?g2 g4"
    using dir_step_attempt [OF a2] dir_step_attempt [OF a3] dir_step_trans by blast+
  have inv1: "srv_inv g1" "srv_inv ?g2" "srv_inv g3" "srv_inv g4"
    using inv d1 d3 dir_step_brk dir_step_srv_inv by blast+
  define od where "od = \<lparr>od_addr = g_brk g1, obj_desc = (hp_odsc hdr)\<lparr>od_owner := g_id g\<rparr>, od_gdim = hp_gdim hdr,
    data = g_buf g1, own_data = True, obj_ref = None, refcnt = 0, f_free = False\<rparr>"
  have fr: "dir_step h (h\<lparr>g_freed := fs\<rparr>)" for h fs by (rule dir_step_misc)
  show ?thesis
  proof (cases "rc1 = 0 \<and> rc2 = 0 \<and> \<not> rc3 < 0")
    case False
    then have "g' = g1 \<or> (\<exists>fs. g' = g3\<lparr>g_freed := fs\<rparr>) \<or> (\<exists>fs. g' = g4\<lparr>g_freed := fs\<rparr>)"
      using p a1 a2 a3 by (auto simp: dsgrpc_obj_put_def obj_data_alloc_def Let_def split: if_splits)
    then show ?thesis using inv1 fr dir_step_srv_inv by blast
  next
    case True
    then obtain e g5 where u: "obj_put_update_dht od (g4\<lparr>g_pending := od # g_pending g4\<rparr>) = Some (e, g5)"
      and g': "g' = g5 \<or> (\<exists>fs. g' = g5\<lparr>g_freed := fs\<rparr>)"
      using p a1 a2 a3 unfolding od_def
      by (auto simp: dsgrpc_obj_put_def obj_data_alloc_def Let_def bind_eq_Some_conv split: if_splits)
    have same: "g_ls g4 = g_ls g1" "g_pending g4 = g_pending g1" "g_brk g4 = g_brk g1 + 1"
      using a2 a3 by (auto simp: attempt_def)
    let ?g4 = "g4\<lparr>g_pending := od # g_pending g4\<rparr>"
    have "store_inv g1" using inv1(1) by (simp add: srv_inv_def)
    then have "store_inv ?g4"
      using same by (auto simp: store_inv_def od_def)
    moreover have "spaces ?g4 = spaces g4" "\<And>ss. space_inv ?g4 ss = space_inv g4 ss" "srv_conf_ok ?g4 = srv_conf_ok g4"
      by (auto simp: spaces_def space_inv_def srv_conf_ok_def)
    ultimately have "srv_inv ?g4" using inv1(4) by (simp add: srv_inv_def spaces_inv_def)
    then have "srv_inv g5" using dir_step_put_update [OF u] dir_step_srv_inv by blast
    then show ?thesis using g' fr dir_step_srv_inv by blast
  qed
qed

lemma srv_inv_lock: "srv_lock cmd g = Some (err, g') \<Longrightarrow> srv_inv g \<Longrightarrow> srv_inv g'"
proof -
  assume p: "srv_lock cmd g = Some (err, g')" and inv: "srv_inv g"
  obtain rc g1 where at: "attempt g = (rc, g1)" by fastforce
  then obtain locks n k sent where
    l: "dsgrpc_lock_service (rc = 0) (lock_type_of (cf_lock_type (g_conf g1))) (cf_max_readers (g_conf g1))
      (g_locks_list g1) cmd \<lparr>lsent = [], lgranted = [], lrc = g_rc g1, lcalls = g_calls g1\<rparr> = Some (err, locks, n)"
    and g': "g' = g1\<lparr>g_locks_list := locks, g_calls := k, g_sent := sent\<rparr>"
    using p by (auto simp: srv_lock_def bind_eq_Some_conv)
  have inv1: "srv_inv g1" using inv at dir_step_attempt dir_step_srv_inv by blast
  then have "distinct (map lk_name locks)" using lock_service_names [OF l] by (simp add: srv_inv_def)
  moreover have "spaces g' = spaces g1" "\<And>ss. space_inv g' ss = space_inv g1 ss" "srv_conf_ok g' = srv_conf_ok g1"
    "store_inv g' = store_inv g1" using g' by (auto simp: spaces_def space_inv_def srv_conf_ok_def store_inv_def)
  ultimately show ?thesis using inv1 g' by (simp add: srv_inv_def spaces_inv_def)
qed

lemma srv_inv_service:
  assumes "dsg_service rpc g = Some (err, g')" "srv_inv g"
  shows "srv_inv g'"
  using assms dir_step_srv_inv [OF _ assms(2)]
  by (cases rpc) (auto simp: dsg_service_def
      dest: dir_step_peers dir_step_get_desc dir_step_get dir_step_update dir_step_filter dir_step_queries
      srv_inv_put srv_inv_lock srv_inv_remove srv_inv_completion)

subsection \<open>Reachable servers\<close>

inductive srv_reach :: "nat \<Rightarrow> ds_gspace \<Rightarrow> bool" for max_ndim where
  alloc: "dsg_alloc max_ndim num_sp self ds_ok ls_ok conf_text conf0 g0 = Some (Some g) \<Longrightarrow>
    0 < cf_max_versions (g_conf g) \<Longrightarrow> 0 \<le> self \<Longrightarrow> self < int num_sp \<Longrightarrow> g_pending g0 = [] \<Longrightarrow> srv_reach max_ndim g"
| serve: "srv_reach max_ndim g \<Longrightarrow> dsg_service rpc g = Some (err, g') \<Longrightarrow> srv_reach max_ndim g'"

lemma dsg_alloc_cases:
  assumes "dsg_alloc max_ndim num_sp self ds_ok ls_ok conf_text conf0 g0 = Some (Some g)"
  obtains conf ssd where "conf_valid max_ndim conf" "0 \<le> cf_max_versions conf"
    "ssd_alloc (g_ss_env g0 (g_brk g0)\<lparr>e_addr := g_brk g0\<rparr>) (gdim_domain \<lparr>ndim = nat (cf_ndim conf), sizes = cf_dims conf\<rparr>)
       num_sp (nat (cf_max_versions conf)) (hash_version_of (cf_hash_version conf)) = Some (Some ssd)"
    "g_conf g = conf" "g_ssd g = ssd_init ssd (nat self)" "g_sspace_list g = []" "g_locks_list g = []"
    "g_id g = self" "g_size_sp g = num_sp" "g_pending g = g_pending g0" "g_brk g = g_brk g0 + 1"
    "ls_alloc True (nat (cf_max_versions conf)) = Some (g_ls g)"
    "g_default_gdim g = \<lparr>ndim = nat (cf_ndim conf), sizes = cf_dims conf\<rparr>"
    "\<exists>err. parse_conf max_ndim conf_text (conf_default conf0) = Some (err, conf)"
    "g_rc g = g_rc g0" "g_freed g = g_freed g0" "g_cache g = g_cache g0"
proof -
  let ?gd = "\<lambda>conf. \<lparr>ndim = nat (cf_ndim conf), sizes = cf_dims conf\<rparr>"
  let ?start = "\<lambda>conf g. g\<lparr>g_conf := conf, g_id := self, g_size_sp := num_sp, g_cq_list := [],
    g_obj_desc_req_list := [], g_locks_list := []\<rparr>"
  obtain rc g1 where at: "attempt g0 = (rc, g1)" by fastforce
  obtain err conf err2 g2 ls where pc: "parse_conf max_ndim conf_text (conf_default conf0) = Some (err, conf)"
    and p: "conf_valid max_ndim conf" "\<not> cf_max_versions conf < 0"
    "init_sspace (gdim_domain (?gd conf)) (?start conf g1) = Some (err2, g2)" "\<not> err2 < 0"
    "ls_alloc ls_ok (nat (cf_max_versions conf)) = Some ls" "g = g2\<lparr>g_ls := ls, g_kill := False\<rparr>"
    using assms at by (auto simp: dsg_alloc_def bind_eq_Some_conv split: if_splits option.splits)
  have g1: "g_ss_env g1 = g_ss_env g0" "g_brk g1 = g_brk g0" "g_pending g1 = g_pending g0"
    "g_rc g1 = g_rc g0" "g_freed g1 = g_freed g0" "g_cache g1 = g_cache g0"
    using at by (auto simp: attempt_def)
  obtain r where r: "ssd_alloc (g_ss_env g0 (g_brk g0)\<lparr>e_addr := g_brk g0\<rparr>) (gdim_domain (?gd conf)) num_sp
      (nat (cf_max_versions conf)) (hash_version_of (cf_hash_version conf)) = Some r"
    using p(3) by (auto simp: init_sspace_def g1 bind_eq_Some_conv)
  then obtain ssd where ssd: "r = Some ssd"
    using p(3,4) by (cases r) (auto simp: init_sspace_def g1 ENOMEM_def)
  have g2: "g2 = (?start conf g1)\<lparr>g_ssd := ssd_init ssd (nat self), g_brk := g_brk g0 + 1,
      g_default_gdim := ?gd conf, g_sspace_list := []\<rparr>"
    using p(3) r ssd by (auto simp: init_sspace_def g1)
  have "ls_ok" using p(5) by (auto simp: ls_alloc_def split: if_splits)
  then show ?thesis
    using that [of conf ssd] p(1,2,5,6) r ssd pc by (simp add: g2 g1)
qed

lemma dsg_alloc_inv:
  assumes "dsg_alloc max_ndim num_sp self ds_ok ls_ok conf_text conf0 g0 = Some (Some g)"
    "0 < cf_max_versions (g_conf g)" "0 \<le> self" "self < int num_sp" "g_pending g0 = []"
  shows "srv_inv g"
proof -
  obtain conf ssd where c: "ssd_alloc (g_ss_env g0 (g_brk g0)\<lparr>e_addr := g_brk g0\<rparr>) (gdim_domain \<lparr>ndim = nat (cf_ndim conf), sizes = cf_dims conf\<rparr>)
       num_sp (nat (cf_max_versions conf)) (hash_version_of (cf_hash_version conf)) = Some (Some ssd)"
    "g_conf g = conf" "g_ssd g = ssd_init ssd (nat self)" "g_sspace_list g = []" "g_locks_list g = []"
    "g_id g = self" "g_size_sp g = num_sp" "g_pending g = g_pending g0" "g_brk g = g_brk g0 + 1"
    "ls_alloc True (nat (cf_max_versions conf)) = Some (g_ls g)"
    using dsg_alloc_cases [OF assms(1)] by blast
  have e: "empty_dht num_sp (nat (cf_max_versions conf)) (dht ssd)" "ss_addr ssd = g_brk g0"
    using ssd_alloc_empty [OF c(1)] by auto
  have ok: "srv_conf_ok g" using assms(2-4) c by (simp add: srv_conf_ok_def)
  have ee: "empty_entry (nat (cf_max_versions conf)) (self_of (g_ssd g))"
    using e(1) assms(3,4) c(3) by (simp add: self_of_def ssd_init_def empty_dht_def)
  have "space_inv g (g_ssd g)"
    using e c assms(2) empty_entry_inv [OF ee] ee
    by (simp add: space_inv_def ssd_init_def empty_dht_def empty_entry_def)
  then have "spaces_inv g" using c(4) by (simp add: spaces_inv_def spaces_def)
  moreover have "g_ls g = \<lparr>num_obj = 0, size_hash = nat (cf_max_versions conf), obj_hash = (\<lambda>_. []), freed = []\<rparr>"
    using c(10) by (simp add: ls_alloc_def)
  then have "ls_addrs (g_ls g) = {}" by (simp add: ls_addrs_def ls_objs_def)
  then have "store_inv g" using ls_alloc_inv [OF _ c(10)] c(2,8) assms(2,5) by (simp add: store_inv_def)
  ultimately show ?thesis using ok c(5) by (simp add: srv_inv_def)
qed

lemma srv_reach_inv: "srv_reach max_ndim g \<Longrightarrow> srv_inv g"
  by (induction rule: srv_reach.induct) (auto intro: dsg_alloc_inv srv_inv_service)

end
