(* ===== verification/DS_Cluster.thy ===== *)
theory DS_Cluster
  imports DS_Server
begin

text \<open>
  Several servers together: what a put leaves behind on all servers, and what a get finds. The
  servers share the geometry of the default space (each computes it from the same configuration);
  each holds its own directory entry and its own objects. Communication is reliable here: every
  send succeeds and every update is delivered.
\<close>

subsection \<open>Servers of one space\<close>

definition same_geom :: "sspace \<Rightarrow> sspace \<Rightarrow> bool" where
  "same_geom ss0 ss \<longleftrightarrow> num_entries (dht ss) = num_entries (dht ss0) \<and> hash_version ss = hash_version ss0 \<and>
     (\<forall>j<num_entries (dht ss0). de_boxes (ent_tab (dht ss) j) = de_boxes (ent_tab (dht ss0) j) \<and>
          rank (ent_tab (dht ss) j) = rank (ent_tab (dht ss0) j))"

definition cached_for :: "sspace \<Rightarrow> ds_gspace \<Rightarrow> bool" where
  "cached_for ss0 g \<longleftrightarrow> sh_coherent (\<lambda>bb. map (Pair (ss_addr (g_ssd g))) (hash_v2 ss0 bb)) (g_cache g)"

definition srv_member :: "sspace \<Rightarrow> global_dimension \<Rightarrow> int \<Rightarrow> ds_gspace \<Rightarrow> bool" where
  "srv_member ss0 gd r g \<longleftrightarrow> srv_inv g \<and> g_id g = r \<and> g_rc g = (\<lambda>_. 0) \<and> same_geom ss0 (g_ssd g) \<and>
     g_default_gdim g = gd \<and> cached_for ss0 g \<and> (\<forall>a\<in>set (g_freed g). a < g_brk g)"

text \<open>A step that keeps a server a member, leaves its objects alone and only appends messages.\<close>

definition member_step :: "sspace \<Rightarrow> ds_gspace \<Rightarrow> (int \<times> srv_msg) list \<Rightarrow> ds_gspace \<Rightarrow> bool" where
  "member_step ss0 g ms g' \<longleftrightarrow> dir_step g g' \<and> g_sent g' = g_sent g @ ms \<and> same_geom ss0 (g_ssd g') \<and>
     ss_addr (g_ssd g') = ss_addr (g_ssd g) \<and> g_default_gdim g' = g_default_gdim g \<and> cached_for ss0 g' \<and>
     g_freed g' = g_freed g"

lemma member_step_member:
  assumes "member_step ss0 g ms g'" "srv_member ss0 gd r g"
  shows "srv_member ss0 gd r g'"
proof -
  have d: "dir_step g g'" using assms(1) by (simp add: member_step_def)
  then have "same_store g g'" by (simp add: dir_step_def)
  then show ?thesis
    using assms dir_step_srv_inv [OF d] unfolding srv_member_def member_step_def same_store_def by fastforce
qed

lemma member_step_trans:
  "member_step ss0 g ms g' \<Longrightarrow> member_step ss0 g' ms' g'' \<Longrightarrow> member_step ss0 g (ms @ ms') g''"
  using dir_step_trans [of g g' g''] by (auto simp: member_step_def)

lemma member_step_refl: "srv_member ss0 gd r g \<Longrightarrow> member_step ss0 g [] g"
  by (simp add: member_step_def srv_member_def)

text \<open>Steps that touch neither the spaces nor the cache.\<close>

lemma member_step_plain:
  assumes "srv_member ss0 gd r g" "dir_step g g'" "g_ssd g' = g_ssd g" "g_cache g' = g_cache g"
    "g_default_gdim g' = g_default_gdim g" "g_sent g' = g_sent g @ ms" "g_freed g' = g_freed g"
  shows "member_step ss0 g ms g'"
  using assms by (simp add: member_step_def srv_member_def cached_for_def)

lemma member_attempt:
  assumes "srv_member ss0 gd r g"
  shows "\<exists>g'. attempt g = (0, g') \<and> member_step ss0 g [] g' \<and> g_ssd g' = g_ssd g \<and> g_sspace_list g' = g_sspace_list g"
proof -
  obtain g' where a: "attempt g = (0, g')" using assms by (simp add: attempt_def srv_member_def)
  moreover have "member_step ss0 g [] g'"
    using a by (intro member_step_plain [OF assms] dir_step_attempt [OF a]) (auto simp: attempt_def)
  ultimately show ?thesis by (auto simp: attempt_def)
qed

lemma member_send:
  assumes "srv_member ss0 gd r g"
  shows "\<exists>g'. srv_send peer msg g = (0, g') \<and> member_step ss0 g [(peer, msg)] g' \<and> g_ssd g' = g_ssd g \<and>
    g_sspace_list g' = g_sspace_list g"
proof -
  obtain g' where a: "srv_send peer msg g = (0, g')" "g_ssd g' = g_ssd g" "g_sspace_list g' = g_sspace_list g"
    "g_cache g' = g_cache g" "g_default_gdim g' = g_default_gdim g" "g_sent g' = g_sent g @ [(peer, msg)]"
    "g_freed g' = g_freed g"
    using assms by (auto simp: srv_send_def attempt_def srv_member_def)
  then show ?thesis using member_step_plain [OF assms dir_step_send [OF a(1)]] by blast
qed

lemma member_find_space: "find_space g (ss_addr (g_ssd g)) = Some (g_ssd g)"
  by (simp add: find_space_def)

lemma member_lookup:
  "srv_member ss0 gd r g \<Longrightarrow> global_dimension_equal gd gd \<Longrightarrow> lookup_sspace g gd = Some (ss_addr (g_ssd g), g)"
  by (simp add: lookup_sspace_def srv_member_def)

lemma gdim_equal_refl [simp]: "global_dimension_equal gd gd"
  by (simp add: global_dimension_equal_def)

lemma same_geom_hash: "same_geom ss0 ss \<Longrightarrow> hash_v2 ss bb = hash_v2 ss0 bb"
  by (auto simp: hash_v2_def same_geom_def intro!: filter_cong)

lemma member_hash:
  assumes "srv_member ss0 gd r g" "v2_ok ss0"
  shows "\<exists>g'. srv_hash g (ss_addr (g_ssd g)) bb = Some (map (Pair (ss_addr (g_ssd g))) (hash_v2 ss0 bb), g') \<and>
    member_step ss0 g [] g' \<and> g_ssd g' = g_ssd g \<and> g_sspace_list g' = g_sspace_list g"
proof -
  have v: "hash_version (g_ssd g) = ssd_hash_version_v2" "same_geom ss0 (g_ssd g)" "cached_for ss0 g"
    using assms by (auto simp: srv_member_def same_geom_def v2_ok_def v2_space_def)
  let ?f = "\<lambda>bb. map (Pair (ss_addr (g_ssd g))) (hash_v2 ss0 bb)"
  obtain g1 where a: "attempt g = (0, g1)" using assms by (simp add: attempt_def srv_member_def)
  have e: "ssd_hash m ok l (g_ssd g) bb = Some (ssd_hash_cached ?f ok l bb)" for m ok l
    using v by (simp add: ssd_hash_def ssd_hash_v2_def same_geom_hash)
  obtain tab l where tl: "ssd_hash_cached ?f True (g_cache g) bb = (tab, l)" by fastforce
  have "tab = ?f bb" "sh_coherent ?f l"
    using ssd_hash_cached_transparent [of ?f "g_cache g" True bb] v(3) tl hash_v2_cong
    by (auto simp: cached_for_def)
  then have h: "srv_hash g (ss_addr (g_ssd g)) bb = Some (?f bb, g1\<lparr>g_cache := l\<rparr>)" "cached_for ss0 (g1\<lparr>g_cache := l\<rparr>)"
    using a e tl by (auto simp: srv_hash_def member_find_space attempt_def cached_for_def)
  have "member_step ss0 g [] (g1\<lparr>g_cache := l\<rparr>)"
    using dir_step_hash [OF h(1)] h(2) a v(2) by (auto simp: member_step_def attempt_def)
  then show ?thesis using h(1) a by (auto simp: attempt_def)
qed

lemma hash_v2_ranks:
  assumes "v2_ok ss0" "same_geom ss0 ss" "j \<in> set (hash_v2 ss0 bb)"
  shows "j < num_entries (dht ss0)" "rank (ent_tab (dht ss) j) = int j"
  using assms by (auto simp: hash_v2_def v2_ok_def v2_space_def same_geom_def Let_def)

lemma those_map_Some: "(\<And>x. x \<in> set xs \<Longrightarrow> f x = Some (h x)) \<Longrightarrow> those (map f xs) = Some (map h xs)"
  by (induction xs) auto

lemma member_ranks:
  assumes "srv_member ss0 gd r g" "v2_ok ss0"
  shows "those (map (ref_rank g) (map (Pair (ss_addr (g_ssd g))) (hash_v2 ss0 bb))) = Some (map int (hash_v2 ss0 bb))"
proof -
  have "same_geom ss0 (g_ssd g)" using assms by (simp add: srv_member_def)
  then show ?thesis
    unfolding map_map comp_def using assms(2)
    by (intro those_map_Some) (simp add: ref_rank_def member_find_space hash_v2_ranks)
qed

lemma same_geom_set_self:
  "same_geom ss0 ss \<Longrightarrow> de_boxes de = de_boxes (self_of ss) \<Longrightarrow> rank de = rank (self_of ss) \<Longrightarrow>
   same_geom ss0 (set_self_entry de ss)"
  by (auto simp: same_geom_def set_self_entry_def self_of_def)

lemma dht_add_entry_geom [simp]:
  "de_boxes (snd (dht_add_entry ok de odsc)) = de_boxes de" "rank (snd (dht_add_entry ok de odsc)) = rank de"
  by (auto simp: dht_add_entry_def de_boxes_def Let_def split: option.splits)

lemma member_add_self:
  assumes "srv_member ss0 gd r g"
  shows "\<exists>g'. add_self_entry (ss_addr (g_ssd g)) odsc g = Some (0, g') \<and> member_step ss0 g [] g' \<and>
    self_of (g_ssd g') = snd (dht_add_entry True (self_of (g_ssd g)) odsc)"
proof -
  let ?de = "snd (dht_add_entry True (self_of (g_ssd g)) odsc)"
  obtain g1 where a: "attempt g = (0, g1)" "g_ssd g1 = g_ssd g" "g_cache g1 = g_cache g" "g_sent g1 = g_sent g"
    "g_default_gdim g1 = g_default_gdim g" "g_freed g1 = g_freed g"
    using assms by (simp add: attempt_def srv_member_def)
  let ?g = "update_space (ss_addr (g_ssd g)) (set_self_entry ?de) g1"
  have 0: "fst (dht_add_entry True (self_of (g_ssd g)) odsc) = 0"
    by (simp add: dht_add_entry_def Let_def split: option.splits)
  then have r: "add_self_entry (ss_addr (g_ssd g)) odsc g = Some (0, ?g)"
    using a(1) by (simp add: add_self_entry_eq member_find_space Let_def)
  have s: "g_ssd ?g = set_self_entry ?de (g_ssd g)" using a(2) by (simp add: update_space_def)
  have "member_step ss0 g [] ?g"
    using assms dir_step_add_self [OF r] a s same_geom_set_self [of ss0 "g_ssd g" ?de]
    by (simp add: member_step_def srv_member_def cached_for_def) (simp add: update_space_def)
  then show ?thesis using r s by simp
qed

subsection \<open>A put on its server\<close>

definition is_update :: "int \<times> srv_msg \<Rightarrow> bool" where
  "is_update m \<longleftrightarrow> (case snd m of M_obj_update _ \<Rightarrow> True | _ \<Rightarrow> False)"

lemma is_update_simps [simp]: "is_update (q, M_obj_update h)"
  by (simp add: is_update_def)

lemma member_cq_loop:
  assumes "srv_member ss0 gd r g"
  shows "\<exists>cqs' g' ms. cq_check_loop cqs odsc g = (0, cqs', g') \<and> member_step ss0 g ms g' \<and> g_ssd g' = g_ssd g \<and>
    filter is_update ms = []"
  using assms
proof (induction cqs arbitrary: g)
  case Nil
  then show ?case using member_step_refl by (auto intro!: exI [of _ "[]"])
next
  case (Cons cq cqs)
  show ?case
  proof (cases "obj_desc_by_name_intersect (cq_odsc cq) odsc")
    case False
    obtain cqs' g' ms where "cq_check_loop cqs odsc g = (0, cqs', g')" "member_step ss0 g ms g'" "g_ssd g' = g_ssd g"
      "filter is_update ms = []" using Cons.IH [OF Cons.prems] by blast
    then show ?thesis
      using False by (intro exI [of _ "cq # cqs'"] exI [of _ g'] exI [of _ ms]) simp
  next
    case True
    obtain g1 where g1: "attempt g = (0, g1)" "member_step ss0 g [] g1" "g_ssd g1 = g_ssd g"
      using member_attempt [OF Cons.prems] by blast
    note m1 = member_step_member [OF g1(2) Cons.prems]
    obtain msg where n: "cq_notify_on_match cq odsc g =
        (let (err, g) = srv_send (cq_rank cq) msg g1
         in (err, cq\<lparr>cq_odsc := (cq_odsc cq)\<lparr>od_version := od_version odsc\<rparr>\<rparr>, g))" "\<not> is_update (cq_rank cq, msg)"
      using g1(1) by (simp add: cq_notify_on_match_def is_update_def)
    obtain g2 where g2: "srv_send (cq_rank cq) msg g1 = (0, g2)" "member_step ss0 g1 [(cq_rank cq, msg)] g2" "g_ssd g2 = g_ssd g1"
      using member_send [OF m1] by blast
    obtain cqs' g' ms where g': "cq_check_loop cqs odsc g2 = (0, cqs', g')" "member_step ss0 g2 ms g'" "g_ssd g' = g_ssd g2"
      "filter is_update ms = []" using Cons.IH [OF member_step_member [OF g2(2) m1]] by blast
    have "member_step ss0 g ([] @ [(cq_rank cq, msg)] @ ms) g'"
      by (rule member_step_trans [OF g1(2) member_step_trans [OF g2(2) g'(2)]])
    moreover have "filter is_update ([] @ [(cq_rank cq, msg)] @ ms) = []" using n(2) g'(4) by simp
    ultimately show ?thesis
      using True n(1) g2(1) g'(1) g1(3) g2(3) g'(3)
      by (intro exI [of _ "cq\<lparr>cq_odsc := (cq_odsc cq)\<lparr>od_version := od_version odsc\<rparr>\<rparr> # cqs'"] exI [of _ g']
          exI [of _ "[] @ [(cq_rank cq, msg)] @ ms"]) simp
  qed
qed

lemma member_cq:
  assumes "srv_member ss0 gd r g"
  shows "\<exists>g' ms. cq_check_match odsc g = (0, g') \<and> member_step ss0 g ms g' \<and> g_ssd g' = g_ssd g \<and>
    filter is_update ms = []"
proof -
  obtain cqs' g' ms where l: "cq_check_loop (g_cq_list g) odsc g = (0, cqs', g')" "member_step ss0 g ms g'"
    "g_ssd g' = g_ssd g" "filter is_update ms = []" using member_cq_loop [OF assms] by blast
  have c: "cq_check_match odsc g = (0, g'\<lparr>g_cq_list := cqs'\<rparr>)" using l(1) by (simp add: cq_check_match_def)
  have "member_step ss0 g ms (g'\<lparr>g_cq_list := cqs'\<rparr>)"
    using l(2) dir_step_cq [OF c] by (auto simp: member_step_def cached_for_def)
  then show ?thesis using c l(3,4) by auto
qed

definition update_hdr :: "int \<Rightarrow> obj_data \<Rightarrow> hdr_obj_get" where
  "update_hdr m od = \<lparr>oh_qid = 0, oh_rank = m, oh_rc = 0, oh_odsc = obj_desc od, oh_gdim = od_gdim od\<rparr>"

lemma member_update_loop:
  assumes "srv_member ss0 gd r g" "distinct rs"
  shows "\<exists>g' ms. update_dht_loop (ss_addr (g_ssd g)) od m rs g = Some (0, g') \<and> member_step ss0 g ms g' \<and>
    filter is_update ms = map (\<lambda>q. (q, M_obj_update (update_hdr m od))) (filter (\<lambda>q. q \<noteq> r) rs) \<and>
    self_of (g_ssd g') = (if r \<in> set rs then snd (dht_add_entry True (self_of (g_ssd g)) (obj_desc od))
      else self_of (g_ssd g))"
  using assms
proof (induction rs arbitrary: g)
  case Nil
  then show ?case using member_step_refl by fastforce
next
  case (Cons q rs)
  have id: "g_id g = r" using Cons.prems(1) by (simp add: srv_member_def)
  show ?case
  proof (cases "q = r")
    case False
    obtain g1 where g1: "srv_send q (M_obj_update (update_hdr m od)) g = (0, g1)"
      "member_step ss0 g [(q, M_obj_update (update_hdr m od))] g1" "g_ssd g1 = g_ssd g"
      using member_send [OF Cons.prems(1)] by blast
    obtain g' ms where g': "update_dht_loop (ss_addr (g_ssd g1)) od m rs g1 = Some (0, g')" "member_step ss0 g1 ms g'"
      "filter is_update ms = map (\<lambda>q. (q, M_obj_update (update_hdr m od))) (filter (\<lambda>q. q \<noteq> r) rs)"
      "self_of (g_ssd g') = (if r \<in> set rs then snd (dht_add_entry True (self_of (g_ssd g1)) (obj_desc od))
        else self_of (g_ssd g1))"
      using Cons.IH [OF member_step_member [OF g1(2) Cons.prems(1)]] Cons.prems(2) by auto
    have "member_step ss0 g ([(q, M_obj_update (update_hdr m od))] @ ms) g'"
      by (rule member_step_trans [OF g1(2) g'(2)])
    moreover have "update_dht_loop (ss_addr (g_ssd g)) od m (q # rs) g = Some (0, g')"
      using False id g1(1,3) g'(1) by (simp add: update_hdr_def)
    ultimately show ?thesis
      using False g'(3,4) g1(3) by (intro exI conjI) auto
  next
    case True
    obtain g1 where g1: "add_self_entry (ss_addr (g_ssd g)) (obj_desc od) g = Some (0, g1)" "member_step ss0 g [] g1"
      "self_of (g_ssd g1) = snd (dht_add_entry True (self_of (g_ssd g)) (obj_desc od))"
      using member_add_self [OF Cons.prems(1)] by blast
    note m1 = member_step_member [OF g1(2) Cons.prems(1)]
    obtain g2 ms where g2: "cq_check_match (obj_desc od) g1 = (0, g2)" "member_step ss0 g1 ms g2"
      "g_ssd g2 = g_ssd g1" "filter is_update ms = []" using member_cq [OF m1] by blast
    have id1: "g_id g1 = r" using m1 by (simp add: srv_member_def)
    have addr: "ss_addr (g_ssd g1) = ss_addr (g_ssd g)" using g1(2) by (simp add: member_step_def)
    obtain g3 ms3 where g3: "update_dht_loop (ss_addr (g_ssd g)) od m (q # rs) g =
        update_dht_loop (ss_addr (g_ssd g3)) od m rs g3" "member_step ss0 g ms3 g3" "filter is_update ms3 = []"
        "self_of (g_ssd g3) = self_of (g_ssd g1)"
    proof (cases "r = m")
      case t: True
      show ?thesis
        using that [of g2 "[] @ ms"] True t id id1 g1(1) g2 addr member_step_trans [OF g1(2) g2(2)] by simp
    next
      case f: False
      show ?thesis using that [of g1 "[]"] True f id id1 g1 addr by simp
    qed
    obtain g' ms' where g': "update_dht_loop (ss_addr (g_ssd g3)) od m rs g3 = Some (0, g')" "member_step ss0 g3 ms' g'"
      "filter is_update ms' = map (\<lambda>q. (q, M_obj_update (update_hdr m od))) (filter (\<lambda>q. q \<noteq> r) rs)"
      "self_of (g_ssd g') = self_of (g_ssd g3)"
      using Cons.IH [OF member_step_member [OF g3(2) Cons.prems(1)]] Cons.prems(2) True by auto
    show ?thesis
    proof (intro exI conjI)
      show "update_dht_loop (ss_addr (g_ssd g)) od m (q # rs) g = Some (0, g')" by (rule trans [OF g3(1) g'(1)])
      show "member_step ss0 g (ms3 @ ms') g'" by (rule member_step_trans [OF g3(2) g'(2)])
    qed (use True g3(3,4) g'(3,4) g1(3) in auto)
  qed
qed

lemma distinct_hash_v2 [simp]: "distinct (hash_v2 ss bb)"
  by (simp add: hash_v2_def)

lemma member_put_update:
  assumes "srv_member ss0 gd r g" "v2_ok ss0" "od_gdim od = gd" "hash_v2 ss0 (od_bb (obj_desc od)) \<noteq> []"
  shows "\<exists>g' ms m. obj_put_update_dht od g = Some (0, g') \<and> member_step ss0 g ms g' \<and>
    (let rs = map int (hash_v2 ss0 (od_bb (obj_desc od))) in
     filter is_update ms = map (\<lambda>q. (q, M_obj_update (update_hdr m od))) (filter (\<lambda>q. q \<noteq> r) rs) \<and>
     self_of (g_ssd g') = (if r \<in> set rs then snd (dht_add_entry True (self_of (g_ssd g)) (obj_desc od))
      else self_of (g_ssd g)))"
proof -
  let ?h = "hash_v2 ss0 (od_bb (obj_desc od))"
  obtain g1 where g1: "srv_hash g (ss_addr (g_ssd g)) (od_bb (obj_desc od)) = Some (map (Pair (ss_addr (g_ssd g))) ?h, g1)"
    "member_step ss0 g [] g1" "g_ssd g1 = g_ssd g" using member_hash [OF assms(1,2)] by blast
  note m1 = member_step_member [OF g1(2) assms(1)]
  have "distinct (map int ?h)" by (simp add: distinct_map)
  from member_update_loop [OF m1 this, of od "hd (map int ?h)"] obtain g' ms where
    g': "update_dht_loop (ss_addr (g_ssd g1)) od (hd (map int ?h)) (map int ?h) g1 = Some (0, g')" "member_step ss0 g1 ms g'"
    "filter is_update ms = map (\<lambda>q. (q, M_obj_update (update_hdr (hd (map int ?h)) od))) (filter (\<lambda>q. q \<noteq> r) (map int ?h))"
    "self_of (g_ssd g') = (if r \<in> set (map int ?h) then snd (dht_add_entry True (self_of (g_ssd g1)) (obj_desc od))
      else self_of (g_ssd g1))" by blast
  have "obj_put_update_dht od g = Some (0, g')"
    using member_lookup [OF assms(1)] assms(3,4) g1(1,3) member_ranks [OF m1 assms(2), of "od_bb (obj_desc od)"] g'(1)
    by (simp add: obj_put_update_dht_def)
  moreover have "member_step ss0 g ms g'" using member_step_trans [OF g1(2) g'(2)] by simp
  ultimately show ?thesis using g'(3,4) g1(3) unfolding Let_def by metis
qed

lemma srv_inv_pending:
  assumes "srv_inv g" "od_addr od = g_brk g"
  shows "srv_inv (g\<lparr>g_brk := g_brk g + 1, g_calls := k, g_pending := od # g_pending g\<rparr>)"
proof -
  let ?g = "g\<lparr>g_brk := g_brk g + 1, g_calls := k, g_pending := od # g_pending g\<rparr>"
  have "store_inv g" using assms(1) by (simp add: srv_inv_def)
  then have "store_inv ?g" using assms(2) by (auto simp: store_inv_def)
  moreover have "spaces ?g = spaces g" "\<And>ss. space_inv g ss \<Longrightarrow> space_inv ?g ss" "srv_conf_ok ?g = srv_conf_ok g"
    by (auto simp: spaces_def space_inv_def srv_conf_ok_def)
  ultimately show ?thesis using assms(1) by (auto simp: srv_inv_def spaces_inv_def)
qed

text \<open>\<open>dsgrpc_obj_put\<close> on a member: the object waits for its data, the updates are on their way.\<close>

lemma member_put:
  assumes "srv_member ss0 gd r g" "v2_ok ss0" "hp_gdim hdr = gd" "hash_v2 ss0 (od_bb (hp_odsc hdr)) \<noteq> []"
  defines "odsc \<equiv> (hp_odsc hdr)\<lparr>od_owner := r\<rparr>"
  shows "\<exists>g' ms od m. dsgrpc_obj_put cid hdr g = Some (0, g') \<and> srv_member ss0 gd r g' \<and> g_sent g' = g_sent g @ ms \<and>
    g_pending g' = od # g_pending g \<and> od_addr od = g_brk g \<and> obj_desc od = odsc \<and> g_ls g' = g_ls g \<and>
    od_gdim od = gd \<and> g_brk g \<notin> set (g_freed g') \<and> refcnt od = 0 \<and>
    (let rs = map int (hash_v2 ss0 (od_bb odsc)) in
     filter is_update ms = map (\<lambda>q. (q, M_obj_update (update_hdr m od))) (filter (\<lambda>q. q \<noteq> r) rs) \<and>
     self_of (g_ssd g') = (if r \<in> set rs then snd (dht_add_entry True (self_of (g_ssd g)) odsc) else self_of (g_ssd g)))"
proof -
  have id: "g_id g = r" using assms(1) by (simp add: srv_member_def)
  obtain g1 where g1: "attempt g = (0, g1)" "g1 = g\<lparr>g_calls := g_calls g + 1\<rparr>"
    using assms(1) by (simp add: attempt_def srv_member_def)
  let ?g2 = "g1\<lparr>g_brk := g_brk g + 1\<rparr>"
  have rc: "g_rc ?g2 = (\<lambda>_. 0)" using assms(1) g1(2) by (simp add: srv_member_def)
  obtain g3 where g3: "attempt ?g2 = (0, g3)" "g3 = ?g2\<lparr>g_calls := g_calls g + 2\<rparr>"
    using rc g1(2) by (simp add: attempt_def)
  obtain g4 where g4: "attempt g3 = (0, g4)" "g4 = ?g2\<lparr>g_calls := g_calls g + 3\<rparr>"
    using rc g1(2) g3(2) by (simp add: attempt_def)
  define od where "od = \<lparr>od_addr = g_brk g, obj_desc = odsc, od_gdim = gd,
    data = g_buf g, own_data = True, obj_ref = None, refcnt = 0, f_free = False\<rparr>"
  let ?g5 = "g4\<lparr>g_pending := od # g_pending g4\<rparr>"
  have put: "obj_put_update_dht od ?g5 = Some (0, g') \<Longrightarrow> dsgrpc_obj_put cid hdr g = Some (0, g')" for g'
    using g1 g3 g4 id assms(3) unfolding dsgrpc_obj_put_def od_def odsc_def
    by (simp add: obj_data_alloc_def Let_def)
  have "srv_inv ?g5"
    using srv_inv_pending [of g od "g_calls g + 3"] assms(1) g4(2) g1(2) by (simp add: srv_member_def od_def)
  then have inv5: "srv_member ss0 gd r ?g5"
    using assms(1) g4(2) g1(2) by (auto simp: srv_member_def cached_for_def)
  have h: "od_gdim od = gd" "hash_v2 ss0 (od_bb (obj_desc od)) \<noteq> []" "obj_desc od = odsc"
    using assms(4) by (auto simp: od_def odsc_def)
  obtain g' ms m where u: "obj_put_update_dht od ?g5 = Some (0, g')" "member_step ss0 ?g5 ms g'"
    "filter is_update ms = map (\<lambda>q. (q, M_obj_update (update_hdr m od))) (filter (\<lambda>q. q \<noteq> r) (map int (hash_v2 ss0 (od_bb odsc))))"
    "self_of (g_ssd g') = (if r \<in> set (map int (hash_v2 ss0 (od_bb odsc))) then
       snd (dht_add_entry True (self_of (g_ssd ?g5)) odsc) else self_of (g_ssd ?g5))"
    using member_put_update [OF inv5 assms(2) h(1,2)] unfolding Let_def h(3) by blast
  have s: "g_ls g' = g_ls g" "g_pending g' = od # g_pending g" "g_sent g' = g_sent g @ ms" "g_freed g' = g_freed g"
    using u(2) g4(2) g1(2) by (auto simp: member_step_def dir_step_def same_store_def)
  have fr: "g_brk g \<notin> set (g_freed g')" using assms(1) s(4) by (auto simp: srv_member_def)
  have "dsgrpc_obj_put cid hdr g = Some (0, g')" by (rule put [OF u(1)])
  moreover have "self_of (g_ssd ?g5) = self_of (g_ssd g)" using g4(2) g1(2) by simp
  ultimately show ?thesis
    using member_step_member [OF u(2) inv5] s fr u(3,4) unfolding Let_def
    by (intro exI [of _ g'] exI [of _ ms] exI [of _ od] exI [of _ m]) (simp add: od_def)
qed

lemma member_completion:
  fixes bytes :: "nat \<Rightarrow> byte"
  assumes "srv_member ss0 gd r g" "g_pending g = od # ods" "od_addr od \<notin> set (g_freed g)"
  defines "od' \<equiv> od\<lparr>data := memcpy (data od) 0 bytes 0 (unat (obj_data_size (obj_desc od)))\<rparr>"
  shows "\<exists>g'. obj_put_completion (od_addr od) bytes g = Some (0, g') \<and> srv_member ss0 gd r g' \<and>
    g_ls g' = ls_add_obj (g_ls g) od' \<and> g_ssd g' = g_ssd g \<and> g_sent g' = g_sent g"
proof -
  let ?g = "g\<lparr>g_pending := filter (\<lambda>o'. od_addr o' \<noteq> od_addr od) (g_pending g), g_ls := ls_add_obj (g_ls g) od'\<rparr>"
  have c: "obj_put_completion (od_addr od) bytes g = Some (0, ?g)"
    using assms(2,3) by (simp add: obj_put_completion_def od'_def)
  have "srv_inv ?g" using srv_inv_completion [OF c] assms(1) by (simp add: srv_member_def)
  then have "srv_member ss0 gd r ?g" using assms(1) by (simp add: srv_member_def cached_for_def)
  then show ?thesis using c by simp
qed

subsection \<open>A put on all servers\<close>

lemma member_update:
  assumes "srv_member ss0 gd r g" "oh_gdim oh = gd"
  shows "\<exists>g'. dsgrpc_obj_update cid oh g = Some (0, g') \<and> srv_member ss0 gd r g' \<and> g_ls g' = g_ls g \<and>
    self_of (g_ssd g') = snd (dht_add_entry True (self_of (g_ssd g)) ((oh_odsc oh)\<lparr>od_owner := cid\<rparr>))"
proof -
  let ?o = "(oh_odsc oh)\<lparr>od_owner := cid\<rparr>"
  obtain g1 where g1: "add_self_entry (ss_addr (g_ssd g)) ?o g = Some (0, g1)" "member_step ss0 g [] g1"
    "self_of (g_ssd g1) = snd (dht_add_entry True (self_of (g_ssd g)) ?o)"
    using member_add_self [OF assms(1)] by blast
  note m1 = member_step_member [OF g1(2) assms(1)]
  obtain g2 ms where g2: "cq_check_match ?o g1 = (0, g2)" "member_step ss0 g1 ms g2" "g_ssd g2 = g_ssd g1"
    using member_cq [OF m1] by blast
  have "g_ls g1 = g_ls g" "g_ls g2 = g_ls g1" using g1(2) g2(2) by (auto simp: member_step_def dir_step_def same_store_def)
  then show ?thesis
    using member_lookup [OF assms(1)] assms(2) g1 g2 m1 member_step_member [OF g2(2) m1]
    by (auto simp: dsgrpc_obj_update_def Let_def)
qed

text \<open>The servers of a cluster, by rank; the delivery of the update messages among \<open>ms\<close> that server \<open>p\<close> sent.\<close>

fun deliver_updates ::
  "int \<Rightarrow> (int \<times> srv_msg) list \<Rightarrow> (int \<Rightarrow> ds_gspace) \<Rightarrow> (int \<Rightarrow> ds_gspace) option" where
  "deliver_updates p [] cl = Some cl"
| "deliver_updates p ((r, msg) # ms) cl =
     (case msg of
        M_obj_update oh \<Rightarrow> do {
          (err, g) \<leftarrow> dsgrpc_obj_update p oh (cl r);
          deliver_updates p ms (cl(r := g))
        }
      | _ \<Rightarrow> deliver_updates p ms cl)"

text \<open>A put of \<open>bytes\<close> by client \<open>cid\<close> on server \<open>p\<close>: the request, the end of the transfer, the updates.\<close>

definition cluster_put ::
  "int \<Rightarrow> int \<Rightarrow> hdr_obj_put \<Rightarrow> (nat \<Rightarrow> byte) \<Rightarrow> (int \<Rightarrow> ds_gspace) \<Rightarrow> (int \<Rightarrow> ds_gspace) option" where
  "cluster_put p cid hdr bytes cl = do {
     (err, g) \<leftarrow> dsgrpc_obj_put cid hdr (cl p);
     (err', g) \<leftarrow> obj_put_completion (g_brk (cl p)) bytes g;
     deliver_updates p (drop (length (g_sent (cl p))) (g_sent g)) (cl(p := g))
   }"

definition cluster_ok :: "sspace \<Rightarrow> global_dimension \<Rightarrow> (int \<Rightarrow> ds_gspace) \<Rightarrow> bool" where
  "cluster_ok ss0 gd cl \<longleftrightarrow> v2_ok ss0 \<and> (\<forall>r. 0 \<le> r \<and> r < int (num_entries (dht ss0)) \<longrightarrow> srv_member ss0 gd r (cl r))"

lemma deliver_updates_filter: "deliver_updates p ms cl = deliver_updates p (filter is_update ms) cl"
proof (induction ms arbitrary: cl)
  case (Cons m ms)
  obtain q msg where m: "m = (q, msg)" by fastforce
  show ?case
  proof (cases msg)
    case (M_obj_update oh)
    then show ?thesis using Cons.IH by (cases "dsgrpc_obj_update p oh (cl q)") (simp_all add: m split_beta fun_upd_def)
  qed (use Cons.IH in \<open>simp_all add: m is_update_def\<close>)
qed simp

lemma deliver_updates_ok:
  assumes "cluster_ok ss0 gd cl" "distinct rs" "\<forall>r\<in>set rs. 0 \<le> r \<and> r < int (num_entries (dht ss0))" "oh_gdim oh = gd"
  shows "\<exists>cl'. deliver_updates p (map (\<lambda>r. (r, M_obj_update oh)) rs) cl = Some cl' \<and> cluster_ok ss0 gd cl' \<and>
    (\<forall>r. g_ls (cl' r) = g_ls (cl r)) \<and> (\<forall>r. r \<notin> set rs \<longrightarrow> cl' r = cl r) \<and>
    (\<forall>r\<in>set rs. self_of (g_ssd (cl' r)) =
       snd (dht_add_entry True (self_of (g_ssd (cl r))) ((oh_odsc oh)\<lparr>od_owner := p\<rparr>)))"
  using assms
proof (induction rs arbitrary: cl)
  case (Cons r rs)
  have "srv_member ss0 gd r (cl r)" using Cons.prems by (simp add: cluster_ok_def)
  from member_update [OF this Cons.prems(4), of p] obtain g where
    g: "dsgrpc_obj_update p oh (cl r) = Some (0, g)" "srv_member ss0 gd r g" "g_ls g = g_ls (cl r)"
    "self_of (g_ssd g) = snd (dht_add_entry True (self_of (g_ssd (cl r))) ((oh_odsc oh)\<lparr>od_owner := p\<rparr>))" by blast
  have "cluster_ok ss0 gd (cl(r := g))" using Cons.prems(1) g(2) by (simp add: cluster_ok_def)
  moreover have "distinct rs" "\<forall>r\<in>set rs. 0 \<le> r \<and> r < int (num_entries (dht ss0))" using Cons.prems(2,3) by auto
  ultimately obtain cl' where
    cl': "deliver_updates p (map (\<lambda>r. (r, M_obj_update oh)) rs) (cl(r := g)) = Some cl'" "cluster_ok ss0 gd cl'"
    "\<forall>q. g_ls (cl' q) = g_ls ((cl(r := g)) q)" "\<forall>q. q \<notin> set rs \<longrightarrow> cl' q = (cl(r := g)) q"
    "\<forall>q\<in>set rs. self_of (g_ssd (cl' q)) =
       snd (dht_add_entry True (self_of (g_ssd ((cl(r := g)) q))) ((oh_odsc oh)\<lparr>od_owner := p\<rparr>))"
    using Cons.IH [OF _ _ _ Cons.prems(4), of "cl(r := g)"] by blast
  show ?case
    using cl' g Cons.prems(2) by (intro exI [of _ cl']) auto
qed auto

text \<open>What a put leaves behind: its descriptor on every server its box is hashed to, its object on its server.\<close>

lemma cluster_put_ok:
  fixes bytes :: "nat \<Rightarrow> byte"
  assumes "cluster_ok ss0 gd cl" "0 \<le> p" "p < int (num_entries (dht ss0))" "hp_gdim hdr = gd"
    "hash_v2 ss0 (od_bb (hp_odsc hdr)) \<noteq> []"
  defines "odsc \<equiv> (hp_odsc hdr)\<lparr>od_owner := p\<rparr>"
  shows "\<exists>cl' od. cluster_put p cid hdr bytes cl = Some cl' \<and> cluster_ok ss0 gd cl' \<and>
    (\<forall>r. self_of (g_ssd (cl' (int r))) = (if r \<in> set (hash_v2 ss0 (od_bb odsc))
       then snd (dht_add_entry True (self_of (g_ssd (cl (int r)))) odsc) else self_of (g_ssd (cl (int r))))) \<and>
    obj_desc od = odsc \<and> (\<forall>k < unat (obj_data_size odsc). data od k = bytes k) \<and>
    od_addr od = g_brk (cl p) \<and> refcnt od = 0 \<and>
    (\<forall>r. g_ls (cl' r) = (if r = p then ls_add_obj (g_ls (cl p)) od else g_ls (cl r)))"
proof -
  let ?h = "hash_v2 ss0 (od_bb odsc)"
  have v: "v2_ok ss0" and mp: "srv_member ss0 gd p (cl p)" using assms(1-3) by (auto simp: cluster_ok_def)
  obtain g ms od m where g: "dsgrpc_obj_put cid hdr (cl p) = Some (0, g)" "srv_member ss0 gd p g"
    "g_sent g = g_sent (cl p) @ ms" "g_pending g = od # g_pending (cl p)" "od_addr od = g_brk (cl p)"
    "obj_desc od = odsc" "g_ls g = g_ls (cl p)" "od_gdim od = gd" "g_brk (cl p) \<notin> set (g_freed g)" "refcnt od = 0"
    "filter is_update ms = map (\<lambda>q. (q, M_obj_update (update_hdr m od))) (filter (\<lambda>q. q \<noteq> p) (map int ?h))"
    "self_of (g_ssd g) = (if p \<in> set (map int ?h) then snd (dht_add_entry True (self_of (g_ssd (cl p))) odsc)
      else self_of (g_ssd (cl p)))"
    using member_put [OF mp v assms(4,5), of cid] unfolding Let_def odsc_def by blast
  let ?od = "od\<lparr>data := memcpy (data od) 0 bytes 0 (unat (obj_data_size (obj_desc od)))\<rparr>"
  obtain g1 where g1: "obj_put_completion (od_addr od) bytes g = Some (0, g1)" "srv_member ss0 gd p g1"
    "g_ls g1 = ls_add_obj (g_ls g) ?od" "g_ssd g1 = g_ssd g" "g_sent g1 = g_sent g"
    using member_completion [OF g(2,4)] g(5,9) by metis
  let ?cl1 = "cl(p := g1)" and ?rs = "filter (\<lambda>q. q \<noteq> p) (map int ?h)"
  have ok1: "cluster_ok ss0 gd ?cl1" using assms(1) g1(2) by (simp add: cluster_ok_def)
  have rs: "distinct ?rs" "\<forall>r\<in>set ?rs. 0 \<le> r \<and> r < int (num_entries (dht ss0))"
    by (auto simp: distinct_map hash_v2_def)
  have gd: "oh_gdim (update_hdr m od) = gd" using g(8) by (simp add: update_hdr_def)
  have own: "(oh_odsc (update_hdr m od))\<lparr>od_owner := p\<rparr> = odsc" using g(6) by (simp add: update_hdr_def odsc_def)
  obtain cl' where cl': "deliver_updates p (map (\<lambda>r. (r, M_obj_update (update_hdr m od))) ?rs) ?cl1 = Some cl'"
    "cluster_ok ss0 gd cl'" "\<forall>r. g_ls (cl' r) = g_ls (?cl1 r)" "\<forall>r. r \<notin> set ?rs \<longrightarrow> cl' r = ?cl1 r"
    "\<forall>r\<in>set ?rs. self_of (g_ssd (cl' r)) = snd (dht_add_entry True (self_of (g_ssd (?cl1 r))) odsc)"
    using deliver_updates_ok [OF ok1 rs gd, of p] unfolding own by blast
  have "drop (length (g_sent (cl p))) (g_sent g1) = ms" using g(3) g1(5) by simp
  then have "deliver_updates p (drop (length (g_sent (cl p))) (g_sent g1)) ?cl1 = Some cl'"
    using deliver_updates_filter [of p ms ?cl1] g(11) cl'(1) by simp
  then have "cluster_put p cid hdr bytes cl = Some cl'"
    using g(1,5) g1(1) by (simp add: cluster_put_def)
  moreover have "self_of (g_ssd (cl' (int r))) = (if r \<in> set ?h
       then snd (dht_add_entry True (self_of (g_ssd (cl (int r)))) odsc) else self_of (g_ssd (cl (int r))))" for r
  proof (cases "int r = p")
    case True
    have "cl' p = g1" using spec [OF cl'(4), of p] by simp
    moreover have "p \<in> set (map int ?h) \<longleftrightarrow> r \<in> set ?h" using True by force
    ultimately show ?thesis using True g(12) g1(4) by metis
  next
    case False
    then show ?thesis
      using bspec [OF cl'(5), of "int r"] spec [OF cl'(4), of "int r"] by (auto simp: inj_image_mem_iff)
  qed
  moreover have "g_ls (cl' r) = (if r = p then ls_add_obj (g_ls (cl p)) ?od else g_ls (cl r))" for r
    using spec [OF cl'(3), of r] g1(3) g(7) by simp
  moreover have "obj_desc ?od = odsc" "\<forall>k < unat (obj_data_size odsc). data ?od k = bytes k"
    "od_addr ?od = g_brk (cl p)" "refcnt ?od = 0"
    using g(5,6,10) by (auto simp: memcpy_def)
  ultimately show ?thesis using cl'(2) by blast
qed

subsection \<open>Histories\<close>

text \<open>A put: the server it went to, its header, the bytes of its data.\<close>

type_synonym put_rec = "int \<times> hdr_obj_put \<times> (nat \<Rightarrow> byte)"

definition put_desc :: "put_rec \<Rightarrow> obj_descriptor" where
  "put_desc = (\<lambda>(p, hdr, _). (hp_odsc hdr)\<lparr>od_owner := p\<rparr>)"

definition put_slot :: "nat \<Rightarrow> put_rec \<Rightarrow> nat" where
  "put_slot m r = unat (od_version (put_desc r)) mod m"

text \<open>The put at position \<open>i\<close> is current: no later put of its bin has its name and meets its box.\<close>

definition put_live :: "nat \<Rightarrow> put_rec list \<Rightarrow> nat \<Rightarrow> bool" where
  "put_live m H i \<longleftrightarrow> (\<forall>j. i < j \<and> j < length H \<and> put_slot m (H ! j) = put_slot m (H ! i) \<longrightarrow>
     \<not> obj_desc_by_name_intersect (put_desc (H ! j)) (put_desc (H ! i)))"

definition stored_as :: "obj_data \<Rightarrow> put_rec \<Rightarrow> bool" where
  "stored_as od r \<longleftrightarrow> obj_desc od = put_desc r \<and>
     (\<forall>k < unat (obj_data_size (put_desc r)). data od k = snd (snd r) k)"

definition dir_rel :: "sspace \<Rightarrow> nat \<Rightarrow> put_rec list \<Rightarrow> nat \<Rightarrow> dht_entry \<Rightarrow> bool" where
  "dir_rel ss0 m H k de \<longleftrightarrow> odsc_size de = m \<and>
     (\<forall>i<length H. put_live m H i \<and> k \<in> set (hash_v2 ss0 (od_bb (put_desc (H ! i)))) \<longrightarrow>
        put_desc (H ! i) \<in> set (odsc_hash de (put_slot m (H ! i)))) \<and>
     (\<forall>j. \<forall>x\<in>set (odsc_hash de j). \<exists>r\<in>set H. x = put_desc r)"

definition store_rel :: "nat \<Rightarrow> put_rec list \<Rightarrow> int \<Rightarrow> ss_storage \<Rightarrow> bool" where
  "store_rel m H p ls \<longleftrightarrow> size_hash ls = m \<and> (\<forall>x\<in>set (ls_objs ls). refcnt x = 0) \<and>
     (\<forall>i<length H. put_live m H i \<and> fst (H ! i) = p \<longrightarrow>
        (\<exists>od\<in>set (obj_hash ls (put_slot m (H ! i))). stored_as od (H ! i))) \<and>
     (\<forall>j. \<forall>od\<in>set (obj_hash ls j). \<exists>r\<in>set H. fst r = p \<and> stored_as od r)"

lemma put_live_append:
  assumes "put_live m (H @ [r]) i" "i < length H"
  shows "put_live m H i"
    and "put_slot m r = put_slot m (H ! i) \<Longrightarrow> \<not> obj_desc_by_name_intersect (put_desc r) (put_desc (H ! i))"
proof -
  show "put_live m H i"
    unfolding put_live_def
  proof (intro allI impI)
    fix j assume j: "i < j \<and> j < length H \<and> put_slot m (H ! j) = put_slot m (H ! i)"
    then show "\<not> obj_desc_by_name_intersect (put_desc (H ! j)) (put_desc (H ! i))"
      using spec [OF assms(1) [unfolded put_live_def], of j] assms(2) by (simp add: nth_append)
  qed
  show "put_slot m r = put_slot m (H ! i) \<Longrightarrow> \<not> obj_desc_by_name_intersect (put_desc r) (put_desc (H ! i))"
    using spec [OF assms(1) [unfolded put_live_def], of "length H"] assms(2) by (simp add: nth_append)
qed

lemma dir_rel_put:
  assumes "dir_rel ss0 m H k de" "de_inv de" "od_version (put_desc r) \<noteq> - 1"
  shows "dir_rel ss0 m (H @ [r]) k (if k \<in> set (hash_v2 ss0 (od_bb (put_desc r))) then de_put (put_desc r) de else de)"
proof -
  let ?e = "put_desc r"
  let ?de = "if k \<in> set (hash_v2 ss0 (od_bb ?e)) then de_put ?e de else de"
  have m: "odsc_size de = m" using assms(1) by (simp add: dir_rel_def)
  have ok: "de_can_add ?e de" using assms(3) by (simp add: de_can_add_def)
  have keep: "x \<in> set (odsc_hash ?de j)"
    if "x \<in> set (odsc_hash de j)" "put_slot m r = j \<longrightarrow> \<not> obj_desc_by_name_intersect ?e x" for x j
    using that de.put_keeps [OF assms(2) ok, of x j] m by (auto simp: by_name_conflict_def put_slot_def)
  have "put_desc ((H @ [r]) ! i) \<in> set (odsc_hash ?de (put_slot m ((H @ [r]) ! i)))"
    if i: "i < length (H @ [r])" "put_live m (H @ [r]) i" "k \<in> set (hash_v2 ss0 (od_bb (put_desc ((H @ [r]) ! i))))" for i
  proof (cases "i < length H")
    case True
    have "put_desc (H ! i) \<in> set (odsc_hash de (put_slot m (H ! i)))"
      using assms(1) True i(3) put_live_append(1) [OF i(2) True] by (simp add: dir_rel_def nth_append)
    then show ?thesis using True keep put_live_append(2) [OF i(2) True] by (simp add: nth_append)
  next
    case False
    then have "(H @ [r]) ! i = r" using i(1) by (simp add: nth_append)
    then show ?thesis using i(3) de.put_mem [OF assms(2) ok] m by (simp add: put_slot_def)
  qed
  moreover have "\<exists>r'\<in>set (H @ [r]). x = put_desc r'" if "x \<in> set (odsc_hash ?de j)" for x j
    using that de.put_from [OF assms(2) ok, of x j] assms(1) by (fastforce simp: dir_rel_def split: if_splits)
  moreover have "odsc_size ?de = m" using m by simp
  ultimately show ?thesis unfolding dir_rel_def by blast
qed

lemma store_rel_other: "store_rel m H p ls \<Longrightarrow> fst r \<noteq> p \<Longrightarrow> store_rel m (H @ [r]) p ls"
  unfolding store_rel_def using put_live_append(1) [of m H r]
  by (auto simp: nth_append less_Suc_eq)

lemma store_rel_put:
  assumes "store_rel m H p ls" "ls_inv ls" "od_addr od \<notin> ls_addrs ls" "stored_as od r" "fst r = p" "refcnt od = 0"
  shows "store_rel m (H @ [r]) p (ls_add_obj ls od)"
proof -
  have m: "size_hash ls = m" and rc: "\<forall>x\<in>set (ls_objs ls). refcnt x = 0" using assms(1) by (auto simp: store_rel_def)
  have ok: "ls_can_add od ls" using assms(3) rc by (simp add: ls_can_add_def)
  have d: "obj_desc od = put_desc r" using assms(4) by (simp add: stored_as_def)
  note inv' = ls.put_inv [OF assms(2) ok]
  have from': "y = od \<or> y \<in> set (obj_hash ls j)" if "y \<in> set (obj_hash (ls_add_obj ls od) j)" for y j
    using ls.put_from [OF assms(2) ok that] by blast
  have "\<exists>od'\<in>set (obj_hash (ls_add_obj ls od) (put_slot m ((H @ [r]) ! i))). stored_as od' ((H @ [r]) ! i)"
    if i: "i < length (H @ [r])" "put_live m (H @ [r]) i" "fst ((H @ [r]) ! i) = p" for i
  proof (cases "i < length H")
    case True
    obtain x where x: "x \<in> set (obj_hash ls (put_slot m (H ! i)))" "stored_as x (H ! i)"
      using assms(1) True i(3) put_live_append(1) [OF i(2) True] by (auto simp: store_rel_def nth_append)
    have "x \<in> set (obj_hash (ls_add_obj ls od) (put_slot m (H ! i)))"
      using ls.put_keeps [OF assms(2) ok x(1)] put_live_append(2) [OF i(2) True] x(2) d m
      by (auto simp: by_name_conflict_def put_slot_def stored_as_def)
    then show ?thesis using True x(2) by (auto simp: nth_append)
  next
    case False
    then have "(H @ [r]) ! i = r" using i(1) by (simp add: nth_append)
    then show ?thesis using assms(4) ls.put_mem [OF assms(2) ok] m d by (auto simp: put_slot_def)
  qed
  moreover have "\<exists>r'\<in>set (H @ [r]). fst r' = p \<and> stored_as y r'" if "y \<in> set (obj_hash (ls_add_obj ls od) j)" for y j
    using from' [OF that] assms(1,4,5) by (fastforce simp: store_rel_def)
  moreover have "refcnt x = 0" if "x \<in> set (ls_objs (ls_add_obj ls od))" for x
    using that from' [of x] rc assms(6) ls_inv_obj(3) [OF assms(2)] unfolding ls_objs_iff [OF inv'] by blast
  moreover have "size_hash (ls_add_obj ls od) = m" using m by simp
  ultimately show ?thesis unfolding store_rel_def by blast
qed

definition cluster_inv :: "sspace \<Rightarrow> global_dimension \<Rightarrow> nat \<Rightarrow> put_rec list \<Rightarrow> (int \<Rightarrow> ds_gspace) \<Rightarrow> bool" where
  "cluster_inv ss0 gd m H cl \<longleftrightarrow> cluster_ok ss0 gd cl \<and>
     (\<forall>k<num_entries (dht ss0). dir_rel ss0 m H k (self_of (g_ssd (cl (int k)))) \<and>
        store_rel m H (int k) (g_ls (cl (int k))))"

lemma member_inv:
  assumes "srv_member ss0 gd r g"
  shows "de_inv (self_of (g_ssd g))" "ls_inv (g_ls g)" "g_brk g \<notin> ls_addrs (g_ls g)"
  using assms by (auto simp: srv_member_def srv_inv_def spaces_inv_def spaces_def space_inv_def store_inv_def)

text \<open>A put that a server accepts: it names a member, its box meets the domain.\<close>

definition put_ok :: "nat \<Rightarrow> global_dimension \<Rightarrow> int \<Rightarrow> hdr_obj_put \<Rightarrow> bool" where
  "put_ok n gd p hdr \<longleftrightarrow> 0 \<le> p \<and> p < int n \<and> hp_gdim hdr = gd \<and> od_version (hp_odsc hdr) \<noteq> - 1 \<and>
     num_dims (od_bb (hp_odsc hdr)) = ndim gd \<and>
     (\<exists>x. in_bbox (gdim_domain gd) x \<and> in_bbox (od_bb (hp_odsc hdr)) x)"

lemma cluster_inv_put:
  assumes "cluster_inv ss0 gd m H cl" "bb_glb_domain (dht ss0) = gdim_domain gd"
    "put_ok (num_entries (dht ss0)) gd p hdr"
  shows "\<exists>cl'. cluster_put p cid hdr bytes cl = Some cl' \<and> cluster_inv ss0 gd m (H @ [(p, hdr, bytes)]) cl'"
proof -
  let ?r = "(p, hdr, bytes)" and ?n = "num_entries (dht ss0)"
  have ok: "cluster_ok ss0 gd cl" using assms(1) by (simp add: cluster_inv_def)
  have p: "0 \<le> p" "p < int ?n" "hp_gdim hdr = gd" "od_version (put_desc ?r) \<noteq> - 1"
    using assms(3) by (auto simp: put_ok_def put_desc_def)
  have d: "put_desc ?r = (hp_odsc hdr)\<lparr>od_owner := p\<rparr>" by (simp add: put_desc_def)
  have h: "hash_v2 ss0 (od_bb (hp_odsc hdr)) \<noteq> []"
    using bisect.hash_nonempty [of ss0 "od_bb (hp_odsc hdr)"] ok assms(2,3)
    by (auto simp: cluster_ok_def put_ok_def gdim_domain_def)
  obtain cl' od where cl': "cluster_put p cid hdr bytes cl = Some cl'" "cluster_ok ss0 gd cl'"
    "\<forall>r. self_of (g_ssd (cl' (int r))) = (if r \<in> set (hash_v2 ss0 (od_bb (put_desc ?r)))
       then snd (dht_add_entry True (self_of (g_ssd (cl (int r)))) (put_desc ?r)) else self_of (g_ssd (cl (int r))))"
    "obj_desc od = put_desc ?r" "\<forall>k < unat (obj_data_size (put_desc ?r)). data od k = bytes k"
    "od_addr od = g_brk (cl p)" "refcnt od = 0"
    "\<forall>r. g_ls (cl' r) = (if r = p then ls_add_obj (g_ls (cl p)) od else g_ls (cl r))"
    using cluster_put_ok [OF ok p(1-3) h, of cid bytes] unfolding d by blast
  have st: "stored_as od ?r" using cl'(4,5) by (simp add: stored_as_def)
  have "dir_rel ss0 m (H @ [?r]) k (self_of (g_ssd (cl' (int k)))) \<and> store_rel m (H @ [?r]) (int k) (g_ls (cl' (int k)))"
    if k: "k < ?n" for k
  proof -
    have mk: "srv_member ss0 gd (int k) (cl (int k))" using ok k by (simp add: cluster_ok_def)
    have rel: "dir_rel ss0 m H k (self_of (g_ssd (cl (int k))))" "store_rel m H (int k) (g_ls (cl (int k)))"
      using assms(1) k by (auto simp: cluster_inv_def)
    have D: "dir_rel ss0 m (H @ [?r]) k (self_of (g_ssd (cl' (int k))))"
      using dir_rel_put [OF rel(1) member_inv(1) [OF mk] p(4)] spec [OF cl'(3), of k] by simp
    have "store_rel m (H @ [?r]) (int k) (g_ls (cl' (int k)))"
    proof (cases "int k = p")
      case True
      have "od_addr od \<notin> ls_addrs (g_ls (cl (int k)))" using member_inv(3) [OF mk] cl'(6) True by simp
      from store_rel_put [OF rel(2) member_inv(2) [OF mk] this st] show ?thesis
        using True spec [OF cl'(8), of p] cl'(7) by simp
    next
      case False
      then show ?thesis using store_rel_other [OF rel(2), of ?r] spec [OF cl'(8), of "int k"] by simp
    qed
    with D show ?thesis by blast
  qed
  then show ?thesis using cl'(1,2) by (auto simp: cluster_inv_def)
qed

subsection \<open>Starting the servers\<close>

definition conf_gdim :: "ds_conf \<Rightarrow> global_dimension" where
  "conf_gdim conf = \<lparr>ndim = nat (cf_ndim conf), sizes = cf_dims conf\<rparr>"

text \<open>The static \<open>ds_conf\<close> at program start, and a process in which nothing fails.\<close>

definition conf_zero :: ds_conf where
  "conf_zero = \<lparr>cf_ndim = 0, cf_dims = (\<lambda>_. 0), cf_max_versions = 0, cf_max_readers = 0, cf_lock_type = 0,
     cf_hash_version = 0\<rparr>"

definition fresh_process :: "ds_gspace \<Rightarrow> bool" where
  "fresh_process g0 \<longleftrightarrow> g_pending g0 = [] \<and> g_freed g0 = [] \<and> g_cache g0 = [] \<and> g_rc g0 = (\<lambda>_. 0) \<and>
     (\<forall>k. e_ss_ok (g_ss_env g0 k) \<and> (\<forall>i. e_malloc_ok (g_ss_env g0 k) i))"

text \<open>\<open>n\<close> servers started with one configuration file that selects the bisection.\<close>

definition cluster_boot :: "nat \<Rightarrow> nat \<Rightarrow> string \<Rightarrow> ds_conf \<Rightarrow> (int \<Rightarrow> ds_gspace) \<Rightarrow> bool" where
  "cluster_boot max_ndim n conf_text conf cl \<longleftrightarrow>
     parse_conf max_ndim conf_text (conf_default conf_zero) = Some (0, conf) \<and> cf_hash_version conf = 2 \<and>
     0 < cf_max_versions conf \<and> dom_ok (gdim_domain (conf_gdim conf)) \<and> 0 < n \<and> n < 2 ^ 31 \<and>
     (\<forall>r. 0 \<le> r \<and> r < int n \<longrightarrow> (\<exists>g0. fresh_process g0 \<and>
        dsg_alloc max_ndim n r True True conf_text conf_zero g0 = Some (Some (cl r))))"

lemma v2_space_same_geom:
  "v2_space bb n m leaves ss0 \<Longrightarrow> v2_space bb n m leaves ss \<Longrightarrow> same_geom (ssd_init ss0 k) (ssd_init ss r)"
  by (auto simp: same_geom_def v2_space_def ssd_init_def Let_def)

lemma v2_space_init: "v2_space bb n m leaves ss \<Longrightarrow> v2_space bb n m leaves (ssd_init ss r)"
  by (simp add: v2_space_def ssd_init_def)

lemma boot_server:
  assumes "cluster_boot max_ndim n conf_text conf cl" "0 \<le> r" "r < int n"
  defines "m \<equiv> nat (cf_max_versions conf)" and "bb \<equiv> gdim_domain (conf_gdim conf)"
  obtains ss where "v2_space bb n m (v2_leaves bb n 0) ss" "g_ssd (cl r) = ssd_init ss (nat r)"
    "srv_inv (cl r)" "g_id (cl r) = r" "g_rc (cl r) = (\<lambda>_. 0)" "g_default_gdim (cl r) = conf_gdim conf"
    "g_cache (cl r) = []" "g_freed (cl r) = []" "ls_alloc True m = Some (g_ls (cl r))"
proof -
  obtain g0 where g0: "fresh_process g0" "dsg_alloc max_ndim n r True True conf_text conf_zero g0 = Some (Some (cl r))"
    using assms(1-3) unfolding cluster_boot_def by blast
  have B: "parse_conf max_ndim conf_text (conf_default conf_zero) = Some (0, conf)" "cf_hash_version conf = 2"
    "0 < cf_max_versions conf" "dom_ok bb" "0 < n" "n < 2 ^ 31"
    using assms(1) by (auto simp: cluster_boot_def bb_def)
  obtain conf' ssd where a: "ssd_alloc (g_ss_env g0 (g_brk g0)\<lparr>e_addr := g_brk g0\<rparr>)
      (gdim_domain \<lparr>ndim = nat (cf_ndim conf'), sizes = cf_dims conf'\<rparr>) n (nat (cf_max_versions conf'))
      (hash_version_of (cf_hash_version conf')) = Some (Some ssd)"
    and p: "\<exists>err. parse_conf max_ndim conf_text (conf_default conf_zero) = Some (err, conf')"
    and c: "g_conf (cl r) = conf'" "g_ssd (cl r) = ssd_init ssd (nat r)" "g_id (cl r) = r"
    "ls_alloc True (nat (cf_max_versions conf')) = Some (g_ls (cl r))"
    "g_default_gdim (cl r) = \<lparr>ndim = nat (cf_ndim conf'), sizes = cf_dims conf'\<rparr>"
    "g_rc (cl r) = g_rc g0" "g_freed (cl r) = g_freed g0" "g_cache (cl r) = g_cache g0"
    using dsg_alloc_cases [OF g0(2)] by blast
  have conf: "conf' = conf" using p B(1) by simp
  have a': "ssd_alloc (g_ss_env g0 (g_brk g0)\<lparr>e_addr := g_brk g0\<rparr>) bb n m ssd_hash_version_v2 = Some (Some ssd)"
    using a B(2) unfolding conf by (simp add: bb_def m_def conf_gdim_def hash_version_of_def)
  have "e_ss_ok (g_ss_env g0 (g_brk g0))" "\<forall>i. e_malloc_ok (g_ss_env g0 (g_brk g0)) i"
    using g0(1) by (auto simp: fresh_process_def)
  from ssd_alloc_v2_leaves [OF B(4-6) this, of "g_brk g0" "e_dim (g_ss_env g0 (g_brk g0))" "e_tab (g_ss_env g0 (g_brk g0))" m]
  have "v2_space bb n m (v2_leaves bb n 0) ssd" using a' by (simp add: ssd_alloc_def)
  moreover have "srv_inv (cl r)"
    using dsg_alloc_inv [OF g0(2) _ assms(2,3)] g0(1) B(3) c(1) conf by (simp add: fresh_process_def)
  ultimately show thesis
    using that [of ssd] c(2-8) g0(1) unfolding conf by (simp add: fresh_process_def m_def conf_gdim_def)
qed

lemma boot_inv:
  assumes "cluster_boot max_ndim n conf_text conf cl"
  obtains ss0 where "cluster_inv ss0 (conf_gdim conf) (nat (cf_max_versions conf)) [] cl"
    "bb_glb_domain (dht ss0) = gdim_domain (conf_gdim conf)" "num_entries (dht ss0) = n"
proof -
  let ?m = "nat (cf_max_versions conf)" and ?gd = "conf_gdim conf" and ?ss0 = "g_ssd (cl 0)"
  let ?bb = "gdim_domain ?gd"
  have n: "0 < n" using assms by (simp add: cluster_boot_def)
  obtain ss where ss: "v2_space ?bb n ?m (v2_leaves ?bb n 0) ss" "?ss0 = ssd_init ss (nat 0)"
    using boot_server [OF assms, of 0] n by auto
  have v: "v2_space ?bb n ?m (v2_leaves ?bb n 0) ?ss0" using v2_space_init [OF ss(1)] ss(2) by simp
  then have d: "bb_glb_domain (dht ?ss0) = ?bb" "num_entries (dht ?ss0) = n" by (auto simp: v2_space_def)
  then have "v2_ok ?ss0" using v n by (auto simp: v2_ok_def)
  have mem: "srv_member ?ss0 ?gd r (cl r) \<and> dir_rel ?ss0 ?m [] (nat r) (self_of (g_ssd (cl r))) \<and>
      store_rel ?m [] r (g_ls (cl r))" if r: "0 \<le> r" "r < int n" for r
  proof -
    obtain ssr where c: "v2_space ?bb n ?m (v2_leaves ?bb n 0) ssr" "g_ssd (cl r) = ssd_init ssr (nat r)"
      "srv_inv (cl r)" "g_id (cl r) = r" "g_rc (cl r) = (\<lambda>_. 0)" "g_default_gdim (cl r) = ?gd"
      "g_cache (cl r) = []" "g_freed (cl r) = []" "ls_alloc True ?m = Some (g_ls (cl r))"
      using boot_server [OF assms r] by blast
    have "same_geom ?ss0 (g_ssd (cl r))" using v2_space_same_geom [OF ss(1) c(1)] ss(2) c(2) by simp
    then have "srv_member ?ss0 ?gd r (cl r)" using c(3-8) by (simp add: srv_member_def cached_for_def sh_coherent_def)
    moreover have "dir_rel ?ss0 ?m [] (nat r) (self_of (g_ssd (cl r)))"
      using c(1,2) r by (simp add: dir_rel_def self_of_def v2_space_def ssd_init_def Let_def)
    moreover have "g_ls (cl r) = \<lparr>num_obj = 0, size_hash = ?m, obj_hash = (\<lambda>_. []), freed = []\<rparr>"
      using c(9) by (simp add: ls_alloc_def)
    then have "store_rel ?m [] r (g_ls (cl r))" by (simp add: store_rel_def ls_objs_def)
    ultimately show ?thesis by blast
  qed
  have "cluster_ok ?ss0 ?gd cl" using \<open>v2_ok ?ss0\<close> mem d(2) by (auto simp: cluster_ok_def)
  moreover have "dir_rel ?ss0 ?m [] k (self_of (g_ssd (cl (int k)))) \<and> store_rel ?m [] (int k) (g_ls (cl (int k)))"
    if "k < n" for k using mem [of "int k"] that by simp
  ultimately have "cluster_inv ?ss0 ?gd ?m [] cl" using d(2) by (simp add: cluster_inv_def)
  then show thesis using that d by blast
qed

subsection \<open>The requests of a get\<close>

lemma map_pad:
  assumes "length t \<le> n"
  shows "map (\<lambda>i. if i < length t then t ! i else f i) [0..<n] = t @ map f [length t..<n]"
  by (rule nth_equalityI) (use assms in \<open>auto simp: nth_append\<close>)

lemma takeWhile_sentinel: "takeWhile (\<lambda>q. q \<noteq> - 1) (map int xs @ - 1 # ys) = map int xs"
  by (induction xs) auto

lemma member_peers:
  assumes "srv_member ss0 gd r g" "v2_ok ss0" "oh_gdim oh = gd"
  shows "\<exists>g' tab. dsgrpc_obj_send_dht_peers cid oh g = Some (0, g') \<and>
    member_step ss0 g [(cid, M_dht_peers tab)] g' \<and> g_ssd g' = g_ssd g \<and> length tab = num_entries (dht ss0) + 1 \<and>
    takeWhile (\<lambda>q. q \<noteq> - 1) tab = map int (hash_v2 ss0 (od_bb (oh_odsc oh)))"
proof -
  let ?h = "hash_v2 ss0 (od_bb (oh_odsc oh))"
  obtain g1 where g1: "srv_hash g (ss_addr (g_ssd g)) (od_bb (oh_odsc oh)) = Some (map (Pair (ss_addr (g_ssd g))) ?h, g1)"
    "member_step ss0 g [] g1" "g_ssd g1 = g_ssd g" using member_hash [OF assms(1,2)] by blast
  note m1 = member_step_member [OF g1(2) assms(1)]
  obtain g2 where g2: "attempt g1 = (0, g2)" "member_step ss0 g1 [] g2" "g_ssd g2 = g_ssd g1" using member_attempt [OF m1] by blast
  note m2 = member_step_member [OF g2(2) m1]
  let ?t = "map int ?h @ [- 1]"
  let ?tab = "map (\<lambda>i. if i < length ?t then ?t ! i else g_ints g2 i) [0..<g_size_sp g2 + 1]"
  obtain g3 where g3: "srv_send cid (M_dht_peers ?tab) g2 = (0, g3)" "member_step ss0 g2 [(cid, M_dht_peers ?tab)] g3" "g_ssd g3 = g_ssd g2"
    using member_send [OF m2] by blast
  have n: "num_entries (dht (g_ssd g2)) = g_size_sp g2" "same_geom ss0 (g_ssd g2)"
    using m2 by (auto simp: srv_member_def srv_inv_def spaces_inv_def spaces_def space_inv_def)
  then have "length ?h \<le> g_size_sp g2"
    using length_filter_le [of _ "[0..<num_entries (dht ss0)]"] by (simp add: hash_v2_def same_geom_def)
  then have "?tab = ?t @ map (g_ints g2) [length ?t..<g_size_sp g2 + 1]"
    by (intro map_pad) simp
  then have "?tab = map int ?h @ - 1 # map (g_ints g2) [length ?t..<g_size_sp g2 + 1]" by simp
  then have "takeWhile (\<lambda>q. q \<noteq> - 1) ?tab = map int ?h"
    by (simp only: takeWhile_sentinel)
  moreover have "dsgrpc_obj_send_dht_peers cid oh g = Some (0, g3)"
    using member_lookup [OF assms(1)] assms(3) g1(1,3) member_ranks [OF m1 assms(2), of "od_bb (oh_odsc oh)"] g2(1) g3(1)
    by (simp add: dsgrpc_obj_send_dht_peers_def)
  moreover have "member_step ss0 g [(cid, M_dht_peers ?tab)] g3"
    using member_step_trans [OF g1(2) member_step_trans [OF g2(2) g3(2)]] by simp
  moreover have "g_ssd g3 = g_ssd g" using g1(3) g2(3) g3(3) by simp
  moreover have "length ?tab = num_entries (dht ss0) + 1" using n by (simp add: same_geom_def)
  ultimately show ?thesis by blast
qed

text \<open>What the directory of a server replies to a query.\<close>

definition desc_reply :: "dht_entry \<Rightarrow> hdr_obj_get \<Rightarrow> srv_msg" where
  "desc_reply de oh =
     (let ds = dht_find_entry_all de (oh_odsc oh)
      in if ds = [] then M_obj_get_desc_fail (oh_qid oh) (dht_find_versions de (oh_odsc oh))
         else M_obj_get_desc (oh_qid oh) (map (reply_desc (oh_odsc oh)) ds))"

lemma member_get_desc:
  assumes "srv_member ss0 gd r g" "oh_gdim oh = gd"
  shows "\<exists>g'. dsgrpc_obj_get_desc cid oh g = Some (0, g') \<and>
    member_step ss0 g [(cid, desc_reply (self_of (g_ssd g)) oh)] g' \<and> g_ssd g' = g_ssd g"
proof -
  let ?de = "self_of (g_ssd g)"
  let ?ds = "dht_find_entry_all ?de (oh_odsc oh)"
  have l: "lookup_sspace g (oh_gdim oh) = Some (ss_addr (g_ssd g), g)" using member_lookup [OF assms(1)] assms(2) by simp
  have e: "self_entry g (ss_addr (g_ssd g)) = Some ?de" by (simp add: self_entry_def member_find_space self_of_def)
  obtain g1 where g1: "attempt g = (0, g1)" "member_step ss0 g [] g1" "g_ssd g1 = g_ssd g"
    using member_attempt [OF assms(1)] by blast
  obtain g2 where g2: "srv_send cid (desc_reply ?de oh) g = (0, g2)" "member_step ss0 g [(cid, desc_reply ?de oh)] g2"
    "g_ssd g2 = g_ssd g" using member_send [OF assms(1)] by blast
  obtain g3 where g3: "srv_send cid (desc_reply ?de oh) g1 = (0, g3)" "member_step ss0 g1 [(cid, desc_reply ?de oh)] g3"
    "g_ssd g3 = g_ssd g1" using member_send [OF member_step_member [OF g1(2) assms(1)]] by blast
  show ?thesis
  proof (cases "?ds = []")
    case True
    then show ?thesis
      using l e g2 by (auto simp: dsgrpc_obj_get_desc_def obj_desc_not_found_def desc_reply_def Let_def)
  next
    case False
    then have "dsgrpc_obj_get_desc cid oh g = Some (0, g3)"
      using l e g1(1) g3(1) by (simp add: dsgrpc_obj_get_desc_def desc_reply_def Let_def)
    then show ?thesis using member_step_trans [OF g1(2) g3(2)] g1(3) g3(3) by auto
  qed
qed

text \<open>The data a server sends for a stored object: the cells of the requested box that the object covers.\<close>

definition part_cells :: "obj_descriptor \<Rightarrow> (nat \<Rightarrow> byte) \<Rightarrow> obj_data \<Rightarrow> bool" where
  "part_cells odsc A od \<longleftrightarrow> (\<forall>x t. in_bbox (od_bb odsc) x \<and> in_bbox (od_bb (obj_desc od)) x \<and> t < unat (od_size odsc) \<longrightarrow>
     A (unat (od_size odsc) * cell_index (od_bb odsc) x + t) = cell_byte od x t)"

lemma member_get:
  assumes "srv_member ss0 gd r g" "ls_find (g_ls g) (oh_odsc oh) = Some od"
    "\<And>to. obj_desc to = oh_odsc oh \<Longrightarrow> copy_compat to od"
  shows "\<exists>g' A. dsgrpc_obj_get cid oh g = Some (0, g') \<and>
    member_step ss0 g [(cid, M_obj_data (obj_data_size (oh_odsc oh)) A)] g' \<and> g_ssd g' = g_ssd g \<and>
    part_cells (oh_odsc oh) A od"
proof -
  obtain g1 where g1: "attempt g = (0, g1)" "member_step ss0 g [] g1" "g_ssd g1 = g_ssd g"
    using member_attempt [OF assms(1)] by blast
  let ?to = "\<lparr>od_addr = g_brk g1, obj_desc = oh_odsc oh, od_gdim = gdim_zero, data = g_buf g1, own_data = True,
    obj_ref = None, refcnt = 0, f_free = False\<rparr>"
  have c: "copy_compat ?to od" by (rule assms(3)) simp
  obtain A where A: "ssd_copy (g_mem g1 0) ?to od = Some (?to\<lparr>data := A\<rparr>)"
    "\<forall>x t. in_bbox (od_bb (oh_odsc oh)) x \<and> t < unat (od_size (oh_odsc oh)) \<longrightarrow>
       cell_byte (?to\<lparr>data := A\<rparr>) x t = (if in_bbox (od_bb (obj_desc od)) x then cell_byte od x t else cell_byte ?to x t)"
    using ssd_copy_cells [OF c, of "g_mem g1 0"] by auto
  let ?m = "M_obj_data (obj_data_size (oh_odsc oh)) A"
  let ?g2 = "g1\<lparr>g_brk := g_brk g1 + 1\<rparr>"
  obtain err g3 where g3: "srv_send cid ?m ?g2 = (err, g3)" by fastforce
  have r: "dsgrpc_obj_get cid oh g = Some (err, g3)"
    using assms(2) g1(1) A(1) g3 by (simp add: dsgrpc_obj_get_def obj_data_alloc_def)
  have s: "err = 0" "g_ssd g3 = g_ssd g" "g_cache g3 = g_cache g" "g_default_gdim g3 = g_default_gdim g"
    "g_sent g3 = g_sent g @ [(cid, ?m)]" "g_freed g3 = g_freed g"
    using g1(1) g3 assms(1) by (auto simp: srv_send_def attempt_def srv_member_def)
  have "member_step ss0 g [(cid, ?m)] g3"
    using member_step_plain [OF assms(1) dir_step_get [OF r]] s by simp
  moreover have "part_cells (oh_odsc oh) A od"
    using A(2) unfolding part_cells_def cell_byte_def by simp
  ultimately show ?thesis using r s(1,2) by blast
qed

subsection \<open>Runs\<close>

lemma send_sel:
  assumes "srv_send peer msg g = (err, g')"
  shows "g_ssd g' = g_ssd g \<and> g_cache g' = g_cache g \<and> g_default_gdim g' = g_default_gdim g \<and> g_freed g' = g_freed g \<and>
    (\<exists>ms. g_sent g' = g_sent g @ ms)"
  using assms by (cases "g_rc g (g_calls g) = 0") (auto simp: srv_send_def attempt_def)

lemma get_sel:
  assumes "dsgrpc_obj_get cid oh g = Some (err, g')"
  shows "g_ssd g' = g_ssd g \<and> g_cache g' = g_cache g \<and> g_default_gdim g' = g_default_gdim g \<and> g_freed g' = g_freed g \<and>
    (\<exists>ms. g_sent g' = g_sent g @ ms)"
proof (cases "ls_find (g_ls g) (oh_odsc oh)")
  case (Some od)
  obtain rc g1 where at: "attempt g = (rc, g1)" by fastforce
  then have g1: "g_ssd g1 = g_ssd g" "g_cache g1 = g_cache g" "g_default_gdim g1 = g_default_gdim g" "g_freed g1 = g_freed g"
    "g_sent g1 = g_sent g" by (auto simp: attempt_def)
  show ?thesis
  proof (cases "rc = 0")
    case True
    obtain msg where "srv_send cid msg (g1\<lparr>g_brk := g_brk g1 + 1\<rparr>) = (err, g')"
      using assms Some at True by (auto simp: dsgrpc_obj_get_def obj_data_alloc_def bind_eq_Some_conv)
    from send_sel [OF this] show ?thesis using g1 by simp
  next
    case False
    then show ?thesis using assms Some at g1 by (auto simp: dsgrpc_obj_get_def obj_data_alloc_def)
  qed
qed (use assms in \<open>simp add: dsgrpc_obj_get_def\<close>)

text \<open>The requests of a get on the shared domain.\<close>

definition query_rpc :: "global_dimension \<Rightarrow> srv_rpc \<Rightarrow> bool" where
  "query_rpc gd rpc \<longleftrightarrow>
     (case rpc of
        ss_obj_get_dht_peers cid oh \<Rightarrow> oh_gdim oh = gd
      | ss_obj_get_desc cid oh \<Rightarrow> oh_gdim oh = gd
      | ss_obj_get cid oh \<Rightarrow> True
      | _ \<Rightarrow> False)"

lemma member_query:
  assumes "srv_member ss0 gd r g" "v2_ok ss0" "query_rpc gd rpc" "dsg_service rpc g = Some (err, g')"
  shows "\<exists>ms. member_step ss0 g ms g' \<and> g_ssd g' = g_ssd g"
proof (cases rpc)
  case (ss_obj_get_dht_peers cid oh)
  then show ?thesis
    using member_peers [OF assms(1,2), of oh cid] assms(3,4) by (auto simp: query_rpc_def dsg_service_def)
next
  case (ss_obj_get_desc cid oh)
  then show ?thesis
    using member_get_desc [OF assms(1), of oh cid] assms(3,4) by (auto simp: query_rpc_def dsg_service_def)
next
  case (ss_obj_get cid oh)
  then have g: "dsgrpc_obj_get cid oh g = Some (err, g')" using assms(4) by (simp add: dsg_service_def)
  obtain ms where "g_sent g' = g_sent g @ ms" using get_sel [OF g] by blast
  then have "member_step ss0 g ms g'"
    using member_step_plain [OF assms(1) dir_step_get [OF g]] get_sel [OF g] by blast
  then show ?thesis using get_sel [OF g] by blast
qed (use assms(3) in \<open>simp_all add: query_rpc_def\<close>)

text \<open>Puts one after the other, with the requests of gets in between.\<close>

inductive cluster_run ::
  "nat \<Rightarrow> global_dimension \<Rightarrow> (int \<Rightarrow> ds_gspace) \<Rightarrow> put_rec list \<Rightarrow> (int \<Rightarrow> ds_gspace) \<Rightarrow> bool" for n gd cl0 where
  start: "cluster_run n gd cl0 [] cl0"
| put: "cluster_run n gd cl0 H cl \<Longrightarrow> put_ok n gd p hdr \<Longrightarrow> cluster_put p cid hdr bytes cl = Some cl' \<Longrightarrow>
    cluster_run n gd cl0 (H @ [(p, hdr, bytes)]) cl'"
| query: "cluster_run n gd cl0 H cl \<Longrightarrow> 0 \<le> r \<Longrightarrow> r < int n \<Longrightarrow> query_rpc gd rpc \<Longrightarrow>
    dsg_service rpc (cl r) = Some (err, g) \<Longrightarrow> cluster_run n gd cl0 H (cl(r := g))"

lemma cluster_inv_step:
  assumes "cluster_inv ss0 gd m H cl" "0 \<le> r" "r < int (num_entries (dht ss0))"
    "member_step ss0 (cl r) ms g" "g_ssd g = g_ssd (cl r)"
  shows "cluster_inv ss0 gd m H (cl(r := g))"
proof -
  have "srv_member ss0 gd r (cl r)" using assms(1-3) by (simp add: cluster_inv_def cluster_ok_def)
  from member_step_member [OF assms(4) this] have "srv_member ss0 gd r g" .
  moreover have "g_ls g = g_ls (cl r)" using assms(4) by (simp add: member_step_def dir_step_def same_store_def)
  ultimately show ?thesis using assms(1,5) by (auto simp: cluster_inv_def cluster_ok_def)
qed

lemma cluster_run_inv:
  assumes "cluster_run n gd cl0 H cl" "cluster_inv ss0 gd m [] cl0"
    "bb_glb_domain (dht ss0) = gdim_domain gd" "num_entries (dht ss0) = n"
  shows "cluster_inv ss0 gd m H cl"
  using assms(1)
proof induction
  case (put H cl p hdr cid bytes cl')
  then show ?case
    using cluster_inv_put [OF put.IH assms(3), of p hdr cid bytes] assms(4) by auto
next
  case (query H cl r rpc err g)
  have m: "srv_member ss0 gd r (cl r)" "v2_ok ss0"
    using query.IH query.hyps(2,3) assms(4) by (auto simp: cluster_inv_def cluster_ok_def)
  obtain ms where "member_step ss0 (cl r) ms g" "g_ssd g = g_ssd (cl r)"
    using member_query [OF m query.hyps(4,5)] by blast
  then show ?case using cluster_inv_step [OF query.IH query.hyps(2)] query.hyps(3) assms(4) by blast
qed (rule assms(2))

end
