(* ===== verification/DS_Client.thy ===== *)
theory DS_Client
  imports DS_Server
begin

text \<open>
  The client (src/src/dc_gspace.c): its state \<open>struct dcg_space\<close>, the query transactions that
  serve a get, the handlers for the replies of servers, and the operations of the interface.
  \<^item> the transport runs handlers and completion routines while the client waits: \<open>dc_process\<close>
    takes the next event, an operation is given the events in the order of their arrival; the
    result \<open>None\<close> is undefined behaviour, or waiting for an event that never comes;
  \<^item> the k-th call that can fail has the outcome \<open>c_rc k\<close>, as in \<open>DS_Server\<close>;
  \<^item> a pointer to a transaction is its \<open>q_id\<close>, a pointer to an object its address;
    \<open>c_buf\<close> is the content of freshly allocated memory;
  \<^item> \<open>c_comp\<close>, \<open>c_var_array\<close> and \<open>c_meta\<close> are the locals of \<open>dcg_obj_get_meta\<close> that completion
    routines write (\<open>c_comp\<close> says that \<open>comp_flg\<close> is no longer -2).
  Modelled is the build without \<open>SHMEM_OBJECTS\<close>, \<open>DS_SYNC_MSG\<close> and \<open>DS_HAVE_ACTIVESPACE\<close>; timing
  messages and logging are left out.
\<close>

subsection \<open>State\<close>

definition EAGAIN :: int where
  "EAGAIN = 11"

definition ENODATA :: int where
  "ENODATA = 61"

record query_cache_entry =
  qc_obj :: obj_descriptor
  qc_odsc_tab :: "obj_descriptor list"

record query_dht =
  qh_size :: nat
  qh_num_peer :: nat
  qh_num_req_posted :: nat
  qh_num_rep_received :: nat
  qh_peerid_tab :: "nat \<Rightarrow> int"

record query_tran_entry =
  q_id :: int
  q_obj :: obj_descriptor
  size_od :: int
  num_od :: int
  num_parts_rec :: int
  od_list :: "obj_data list"
  qh :: query_dht
  q_gdim :: global_dimension
  f_alloc_data :: bool
  f_peer_received :: bool
  f_odsc_recv :: bool
  f_complete :: bool
  f_err :: bool

record dcg_lock =
  cl_req :: bool
  cl_ack :: bool
  cl_lock_num :: int
  cl_name :: string

text \<open>Requests to servers. A request that expects data names the object the data is for.\<close>

datatype cl_msg =
    C_put hdr_obj_put nat
  | C_get_dht_peers hdr_obj_get
  | C_get_desc hdr_obj_get
  | C_get hdr_obj_get nat
  | C_filter int obj_descriptor nat
  | C_next_meta string int
  | C_latest_meta string int
  | C_var_meta string int int
  | C_lock lockhdr
  | C_remove string u32
  | C_ss_info
  | C_kill

record dcg_space =
  c_id :: int
  c_num_sp :: nat
  c_min_rank :: int
  c_qc :: "query_cache_entry list"
  c_qt :: "query_tran_entry list"
  c_qt_num :: int
  c_f_ss_info :: bool
  c_info_dims :: int
  c_info_srv :: int
  c_domain :: bbox
  c_default_gdim :: global_dimension
  c_locks :: "dcg_lock list"
  c_gdims :: "gdim_list_entry list"
  c_num_pending :: int
  c_hash_version :: int
  c_max_versions :: int
  c_num_vers :: nat
  c_versions :: "nat \<Rightarrow> int"
  c_sync_next :: nat
  c_sync_op :: "nat \<Rightarrow> int"
  c_next_qid :: int
  c_mpi_rank :: int
  c_flag_mpi_rank :: bool
  c_comp :: bool
  c_var_array :: "int \<times> int"
  c_meta :: "nat \<Rightarrow> byte"
  c_sent :: "(int \<times> cl_msg) list"
  c_freed :: "nat list"
  c_brk :: nat
  c_rc :: "nat \<Rightarrow> int"
  c_calls :: nat
  c_buf :: "nat \<Rightarrow> byte"

definition c_attempt :: "dcg_space \<Rightarrow> int \<times> dcg_space" where
  "c_attempt d = (c_rc d (c_calls d), d\<lparr>c_calls := c_calls d + 1\<rparr>)"

text \<open>\<open>msg_buf_alloc\<close>, then \<open>rpc_send\<close> or \<open>rpc_receive\<close>.\<close>

definition c_post :: "int \<Rightarrow> cl_msg \<Rightarrow> dcg_space \<Rightarrow> int \<times> dcg_space" where
  "c_post peer msg d =
     (let (rc, d) = c_attempt d in
      if rc \<noteq> 0 then (- ENOMEM, d)
      else let (err, d) = c_attempt d
           in (err, if err < 0 then d else d\<lparr>c_sent := c_sent d @ [(peer, msg)]\<rparr>))"

subsection \<open>Query transactions\<close>

definition qt_gen_qid :: "dcg_space \<Rightarrow> int \<times> dcg_space" where
  "qt_gen_qid d = (c_next_qid d, d\<lparr>c_next_qid := c_next_qid d + 1\<rparr>)"

definition qh_alloc :: "bool \<Rightarrow> nat \<Rightarrow> query_dht option" where
  "qh_alloc malloc_ok qh_num =
     (if malloc_ok
      then Some \<lparr>qh_size = qh_num + 1, qh_num_peer = 0, qh_num_req_posted = 0, qh_num_rep_received = 0,
                 qh_peerid_tab = (\<lambda>_. 0)\<rparr>
      else None)"

definition qte_alloc :: "obj_data \<Rightarrow> bool \<Rightarrow> dcg_space \<Rightarrow> query_tran_entry option \<times> dcg_space" where
  "qte_alloc od alloc_data d =
     (let (rc, d) = c_attempt d in
      if rc \<noteq> 0 then (None, d)
      else let (q, d) = qt_gen_qid d;
               (rc, d) = c_attempt d
           in (map_option (\<lambda>h. \<lparr>q_id = q, q_obj = obj_desc od, size_od = 0, num_od = 0, num_parts_rec = 0,
                               od_list = [], qh = h, q_gdim = od_gdim od, f_alloc_data = alloc_data,
                               f_peer_received = False, f_odsc_recv = False, f_complete = False, f_err = False\<rparr>)
                 (qh_alloc (rc = 0) (c_num_sp d)), d))"

definition qt_find :: "dcg_space \<Rightarrow> int \<Rightarrow> query_tran_entry option" where
  "qt_find d q = find (\<lambda>e. q_id e = q) (c_qt d)"

definition qt_add :: "query_tran_entry \<Rightarrow> dcg_space \<Rightarrow> dcg_space" where
  "qt_add e d = d\<lparr>c_qt := e # c_qt d, c_qt_num := c_qt_num d + 1\<rparr>"

definition qt_remove :: "int \<Rightarrow> dcg_space \<Rightarrow> dcg_space" where
  "qt_remove q d = d\<lparr>c_qt := filter (\<lambda>e. q_id e \<noteq> q) (c_qt d), c_qt_num := c_qt_num d - 1\<rparr>"

text \<open>Assignments through a pointer to a transaction.\<close>

definition qt_set :: "int \<Rightarrow> (query_tran_entry \<Rightarrow> query_tran_entry) \<Rightarrow> dcg_space \<Rightarrow> dcg_space" where
  "qt_set q f d = d\<lparr>c_qt := map (\<lambda>e. if q_id e = q then f e else e) (c_qt d)\<rparr>"

definition qt_find_obj :: "query_tran_entry \<Rightarrow> obj_descriptor \<Rightarrow> obj_descriptor option" where
  "qt_find_obj e odsc = map_option obj_desc (find (\<lambda>od. obj_desc_equals (obj_desc od) odsc) (od_list e))"

definition qt_remove_obj :: "nat \<Rightarrow> query_tran_entry \<Rightarrow> query_tran_entry" where
  "qt_remove_obj a e =
     e\<lparr>od_list := filter (\<lambda>od. od_addr od \<noteq> a) (od_list e), num_od := num_od e - 1, size_od := size_od e - 1\<rparr>"

text \<open>Releasing the data of the parts; with \<open>unlink\<close> also the parts.\<close>

definition qt_free_obj_data :: "bool \<Rightarrow> query_tran_entry \<Rightarrow> query_tran_entry" where
  "qt_free_obj_data unlink e =
     (if unlink then fold (\<lambda>od. qt_remove_obj (od_addr od)) (od_list e) e else e)"

text \<open>The loop over the parts ends at the first failed malloc; the result counts the successes.\<close>

fun alloc_loop :: "obj_data list \<Rightarrow> dcg_space \<Rightarrow> nat \<times> obj_data list \<times> dcg_space" where
  "alloc_loop [] d = (0, [], d)"
| "alloc_loop (od # ods) d =
     (let (rc, d) = c_attempt d in
      if rc \<noteq> 0 then (0, od # ods, d)
      else let (n, ods, d) = alloc_loop ods d in (n + 1, od\<lparr>data := c_buf d\<rparr> # ods, d))"

definition qt_alloc_obj_data :: "query_tran_entry \<Rightarrow> dcg_space \<Rightarrow> int \<times> query_tran_entry \<times> dcg_space" where
  "qt_alloc_obj_data e d =
     (let (n, ods, d) = alloc_loop (od_list e) d;
          e = e\<lparr>od_list := ods\<rparr>
      in if int n \<noteq> num_od e then (- ENOMEM, qt_free_obj_data False e, d) else (0, e, d))"

text \<open>The size only matters to malloc.\<close>

definition qt_alloc_obj_data_with_size ::
  "nat \<Rightarrow> query_tran_entry \<Rightarrow> dcg_space \<Rightarrow> int \<times> query_tran_entry \<times> dcg_space" where
  "qt_alloc_obj_data_with_size n e d = qt_alloc_obj_data e d"

text \<open>A new part has no data yet (NULL).\<close>

definition qt_add_obj :: "obj_descriptor \<Rightarrow> query_tran_entry \<Rightarrow> dcg_space \<Rightarrow> int \<times> query_tran_entry \<times> dcg_space" where
  "qt_add_obj odsc e d =
     (let (rc, d) = c_attempt d in
      case obj_data_alloc_no_data (if rc = 0 then Some (c_brk d) else None) odsc (\<lambda>_. 0) of
        None \<Rightarrow> (- ENOMEM, e, d)
      | Some od \<Rightarrow>
          (0, e\<lparr>od_list := od\<lparr>obj_desc := (obj_desc od)\<lparr>od_st := od_st (q_obj e)\<rparr>\<rparr> # od_list e,
                num_od := num_od e + 1\<rparr>, d\<lparr>c_brk := c_brk d + 1\<rparr>))"

subsection \<open>The query cache\<close>

definition qc_find :: "dcg_space \<Rightarrow> obj_descriptor \<Rightarrow> query_cache_entry option" where
  "qc_find d odsc = find (\<lambda>qce. obj_desc_equals_no_owner (qc_obj qce) odsc) (c_qc d)"

definition qc_add_entry :: "query_cache_entry \<Rightarrow> dcg_space \<Rightarrow> dcg_space" where
  "qc_add_entry qce d = d\<lparr>c_qc := qce # c_qc d\<rparr>"

definition qce_set_obj_desc :: "obj_descriptor \<Rightarrow> obj_data list \<Rightarrow> query_cache_entry" where
  "qce_set_obj_desc q obj_list = \<lparr>qc_obj = q, qc_odsc_tab = map obj_desc obj_list\<rparr>"

fun set_odsc_loop ::
  "obj_descriptor list \<Rightarrow> query_tran_entry \<Rightarrow> dcg_space \<Rightarrow> int \<times> query_tran_entry \<times> dcg_space" where
  "set_odsc_loop [] e d = (0, e, d)"
| "set_odsc_loop (odsc # odscs) e d =
     (case qt_add_obj odsc e d of
        (err, e, d) \<Rightarrow> if err < 0 then (err, e, d) else set_odsc_loop odscs e d)"

definition qte_set_odsc_from_cache ::
  "query_cache_entry \<Rightarrow> query_tran_entry \<Rightarrow> dcg_space \<Rightarrow> int \<times> query_tran_entry \<times> dcg_space" where
  "qte_set_odsc_from_cache qce e d =
     (case set_odsc_loop (qc_odsc_tab qce) e d of
        (err, e, d) \<Rightarrow> if err < 0 then (err, qt_free_obj_data True e, d)
                       else (0, e\<lparr>size_od := int (length (qc_odsc_tab qce))\<rparr>, d))"

subsection \<open>Synchronisation slots\<close>

definition num_op :: nat where
  "num_op = 4095"

text \<open>A slot that is still in use is only reported.\<close>

definition syncop_next :: "dcg_space \<Rightarrow> nat \<times> dcg_space" where
  "syncop_next d =
     (let n = c_sync_next d
      in (n, d\<lparr>c_sync_op := (c_sync_op d)(n := 0), c_sync_next := (n + 1) mod num_op\<rparr>))"

definition dcg_which_peer :: "dcg_space \<Rightarrow> int" where
  "dcg_which_peer d = c_id d mod int (c_num_sp d)"

subsection \<open>Locks\<close>

definition LOCK_NAME_SIZE :: nat where
  "LOCK_NAME_SIZE = 64"

definition lock_get :: "string \<Rightarrow> bool \<Rightarrow> dcg_space \<Rightarrow> dcg_lock option \<times> dcg_space" where
  "lock_get lock_name should_alloc d =
     (case find (\<lambda>l. take (LOCK_NAME_SIZE - 1) (cl_name l) = take (LOCK_NAME_SIZE - 1) lock_name) (c_locks d) of
        Some l \<Rightarrow> (Some l, d)
      | None \<Rightarrow>
          if \<not> should_alloc then (None, d)
          else let (rc, d) = c_attempt d in
            if rc \<noteq> 0 then (None, d)
            else let l = \<lparr>cl_req = False, cl_ack = False, cl_lock_num = 0, cl_name = take (LOCK_NAME_SIZE - 1) lock_name\<rparr>
                 in (Some l, d\<lparr>c_locks := l # c_locks d\<rparr>))"

text \<open>Assignments through a pointer to a lock; the names in the table are distinct.\<close>

definition lock_set :: "string \<Rightarrow> (dcg_lock \<Rightarrow> dcg_lock) \<Rightarrow> dcg_space \<Rightarrow> dcg_space" where
  "lock_set name f d = d\<lparr>c_locks := map (\<lambda>l. if cl_name l = name then f l else l) (c_locks d)\<rparr>"

definition dcg_lock_request :: "dcg_lock \<Rightarrow> lk_type \<Rightarrow> dcg_space \<Rightarrow> int \<times> dcg_space" where
  "dcg_lock_request lock ty d =
     (let (err, d) = c_post 0 (C_lock \<lparr>lk_type = ty, lk_rc = 0, lk_id = 0, lock_num = cl_lock_num lock,
                                      lk_hname = cl_name lock\<rparr>) d
      in if err < 0 then (err, d)
         else (0, lock_set (cl_name lock) (\<lambda>l. l\<lparr>cl_ack := False, cl_req := True\<rparr>) d))"

definition dcgrpc_lock_service :: "lockhdr \<Rightarrow> dcg_space \<Rightarrow> int \<times> dcg_space" where
  "dcgrpc_lock_service lh d =
     (case lock_get (lk_hname lh) False d of
        (None, d) \<Rightarrow> (- ENOENT, d)
      | (Some l, d) \<Rightarrow>
          (0, lock_set (cl_name l) (\<lambda>l. l\<lparr>cl_lock_num := lock_num lh, cl_ack := True, cl_req := False\<rparr>) d))"

subsection \<open>Replies of servers\<close>

definition cq_received_all_parts :: "query_tran_entry \<Rightarrow> bool" where
  "cq_received_all_parts e \<longleftrightarrow>
     fold (\<lambda>od l_vol. l_vol + bbox_volume (od_bb (obj_desc od)))
       (takeWhile (\<lambda>od. od_version (obj_desc od) = od_version (q_obj e)) (od_list e)) 0 =
     bbox_volume (od_bb (q_obj e))"

text \<open>The table of peers has arrived.\<close>

definition get_dht_peers_completion :: "int \<Rightarrow> (nat \<Rightarrow> int) \<Rightarrow> dcg_space \<Rightarrow> int \<times> dcg_space" where
  "get_dht_peers_completion q tab d =
     (0, qt_set q (\<lambda>e. e\<lparr>qh := (qh e)\<lparr>qh_peerid_tab := (\<lambda>i. if i < qh_size (qh e) then tab i else qh_peerid_tab (qh e) i),
                         qh_num_peer := length (takeWhile (\<lambda>i. tab i \<noteq> - 1) [0..<qh_size (qh e)])\<rparr>,
                         f_peer_received := True\<rparr>) d)"

text \<open>\<open>n\<close> bytes, the size of the request, have arrived for the part at address \<open>a\<close>.\<close>

definition obj_data_get_completion :: "int \<Rightarrow> nat \<Rightarrow> nat \<Rightarrow> (nat \<Rightarrow> byte) \<Rightarrow> dcg_space \<Rightarrow> int \<times> dcg_space" where
  "obj_data_get_completion q a n bytes d =
     (0, qt_set q (\<lambda>e. let e = e\<lparr>od_list := map (\<lambda>od. if od_addr od = a
                               then od\<lparr>data := memcpy (data od) 0 bytes 0 n\<rparr> else od) (od_list e),
                             num_parts_rec := num_parts_rec e + 1\<rparr>
                       in if num_parts_rec e = size_od e then e\<lparr>f_complete := True\<rparr> else e) d)"

definition rep_received :: "query_tran_entry \<Rightarrow> query_tran_entry" where
  "rep_received e = e\<lparr>qh := (qh e)\<lparr>qh_num_rep_received := qh_num_rep_received (qh e) + 1\<rparr>\<rparr>"

definition check_odsc_recv :: "query_tran_entry \<Rightarrow> query_tran_entry" where
  "check_odsc_recv e =
     (if qh_num_rep_received (qh e) = qh_num_peer (qh e) then e\<lparr>f_odsc_recv := True\<rparr> else e)"

fun add_desc_loop ::
  "obj_descriptor list \<Rightarrow> query_tran_entry \<Rightarrow> dcg_space \<Rightarrow> int \<times> query_tran_entry \<times> dcg_space" where
  "add_desc_loop [] e d = (0, e, d)"
| "add_desc_loop (odsc # odscs) e d =
     (case qt_find_obj e odsc of
        None \<Rightarrow>
          (case qt_add_obj odsc e d of
             (err, e, d) \<Rightarrow> if err < 0 then (err, e, d) else add_desc_loop odscs e d)
      | Some _ \<Rightarrow> add_desc_loop odscs (e\<lparr>size_od := size_od e - 1\<rparr>) d)"

definition obj_get_desc_completion :: "int \<Rightarrow> obj_descriptor list \<Rightarrow> dcg_space \<Rightarrow> int \<times> dcg_space" where
  "obj_get_desc_completion q od_tab d =
     (case qt_find d q of
        None \<Rightarrow> (- ENOENT, d)
      | Some e \<Rightarrow>
          (case add_desc_loop od_tab ((rep_received e)\<lparr>size_od := size_od e + int (length od_tab)\<rparr>) d of
             (err, e, d) \<Rightarrow>
               if err < 0 then (err, qt_set q (\<lambda>_. e) d)
               else (0, qt_set q (\<lambda>_. check_odsc_recv e) d)))"

text \<open>\<open>dcg->versions\<close> has 64 elements; the code does not check the index.\<close>

fun versions_add :: "u32 list \<Rightarrow> dcg_space \<Rightarrow> dcg_space option" where
  "versions_add [] d = Some d"
| "versions_add (v # vs) d =
     (if list_ex (\<lambda>j. c_versions d j = sint v) [0..<c_num_vers d] then versions_add vs d
      else if c_num_vers d < 64
      then versions_add vs (d\<lparr>c_versions := (c_versions d)(c_num_vers d := sint v), c_num_vers := c_num_vers d + 1\<rparr>)
      else None)"

definition versions_reset :: "dcg_space \<Rightarrow> dcg_space" where
  "versions_reset d = d\<lparr>c_versions := (\<lambda>_. 0), c_num_vers := 0\<rparr>"

text \<open>
  \<open>dcgrpc_obj_get_desc\<close>: a server without descriptors (\<open>rc < 0\<close>) sends the versions it has; otherwise
  the transfer of the table of descriptors is started.
\<close>

definition obj_get_desc_fail :: "int \<Rightarrow> u32 list \<Rightarrow> dcg_space \<Rightarrow> (int \<times> dcg_space) option" where
  "obj_get_desc_fail q vs d =
     (case qt_find d q of
        None \<Rightarrow> Some (- ENOENT, d)
      | Some e \<Rightarrow>
          map_option (Pair 0)
            (versions_add vs (qt_set q (\<lambda>_. (check_odsc_recv (rep_received e))\<lparr>f_err := True\<rparr>) d)))"

definition obj_get_desc_start :: "dcg_space \<Rightarrow> int \<times> dcg_space" where
  "obj_get_desc_start d =
     (let (rc, d) = c_attempt d in
      if rc \<noteq> 0 then (- ENOMEM, d)
      else let (rc, d) = c_attempt d in
        if rc \<noteq> 0 then (- ENOMEM, d)
        else let (rc, d) = c_attempt d in
          if rc \<noteq> 0 then (- ENOMEM, d) else c_attempt d)"

definition dcgrpc_obj_get_desc :: "int \<Rightarrow> int \<Rightarrow> u32 list \<Rightarrow> dcg_space \<Rightarrow> (int \<times> dcg_space) option" where
  "dcgrpc_obj_get_desc rc q vs d = (if rc < 0 then obj_get_desc_fail q vs d else Some (obj_get_desc_start d))"

definition dcgrpc_ss_info :: "hdr_ss_info \<Rightarrow> dcg_space \<Rightarrow> int \<times> dcg_space" where
  "dcgrpc_ss_info hsi d =
     (let n = nat (si_num_dims hsi) in
      (0, d\<lparr>c_info_dims := si_num_dims hsi, c_info_srv := si_num_space_srv hsi,
            c_hash_version := si_hash_version hsi, c_max_versions := si_max_versions hsi,
            c_domain := \<lparr>num_dims = n, lb = (\<lambda>i. if i < n then 0 else lb (c_domain d) i),
                         ub = (\<lambda>i. if i < n then si_dims hsi i - 1 else ub (c_domain d) i)\<rparr>,
            c_default_gdim := \<lparr>ndim = n, sizes = (\<lambda>i. if i < n then si_dims hsi i else sizes (c_default_gdim d) i)\<rparr>,
            c_f_ss_info := True\<rparr>))"

text \<open>The completion of the transfer of a put: the slot is signalled, the object released.\<close>

definition put_done :: "nat \<Rightarrow> nat \<Rightarrow> dcg_space \<Rightarrow> int \<times> dcg_space" where
  "put_done slot a d =
     (0, d\<lparr>c_sync_op := (c_sync_op d)(slot := 1), c_freed := a # c_freed d, c_num_pending := c_num_pending d - 1\<rparr>)"

subsection \<open>Waiting\<close>

datatype dc_event =
    ev_peers int "nat \<Rightarrow> int"
  | ev_get_desc int int "u32 list"
  | ev_desc_tab int "obj_descriptor list"
  | ev_data int nat nat "nat \<Rightarrow> byte"
  | ev_lock lockhdr
  | ev_ss_info hdr_ss_info
  | ev_put_done nat nat
  | ev_nvars int int
  | ev_var_meta "nat \<Rightarrow> byte"
  | ev_none
  | ev_error int

text \<open>\<open>nvars_get_completion\<close>, for both of its uses.\<close>

definition nvars_get_completion :: "dcg_space \<Rightarrow> int \<times> dcg_space" where
  "nvars_get_completion d = (0, d\<lparr>c_comp := True\<rparr>)"

text \<open>What a handler returns is logged and not passed on; an error is a failure of the transport.\<close>

definition dc_process :: "dc_event \<Rightarrow> dcg_space \<Rightarrow> (int \<times> dcg_space) option" where
  "dc_process ev d =
     (case ev of
        ev_peers q tab \<Rightarrow> Some (0, snd (get_dht_peers_completion q tab d))
      | ev_get_desc rc q vs \<Rightarrow> map_option (\<lambda>(_, d). (0, d)) (dcgrpc_obj_get_desc rc q vs d)
      | ev_desc_tab q od_tab \<Rightarrow> Some (0, snd (obj_get_desc_completion q od_tab d))
      | ev_data q a n bytes \<Rightarrow> Some (0, snd (obj_data_get_completion q a n bytes d))
      | ev_lock lh \<Rightarrow> Some (0, snd (dcgrpc_lock_service lh d))
      | ev_ss_info hsi \<Rightarrow> Some (0, snd (dcgrpc_ss_info hsi d))
      | ev_put_done slot a \<Rightarrow> Some (0, snd (put_done slot a d))
      | ev_nvars n v \<Rightarrow> Some (0, snd (nvars_get_completion (d\<lparr>c_var_array := (n, v)\<rparr>)))
      | ev_var_meta bytes \<Rightarrow> Some (0, snd (nvars_get_completion (d\<lparr>c_meta := bytes\<rparr>)))
      | ev_none \<Rightarrow> Some (0, d)
      | ev_error err \<Rightarrow> Some (err, d))"

text \<open>\<open>DC_WAIT_COMPLETION(x)\<close>, and \<open>while (!x) dc_process\<close>.\<close>

fun dc_wait ::
  "(dcg_space \<Rightarrow> bool) \<Rightarrow> dc_event list \<Rightarrow> dcg_space \<Rightarrow> (int \<times> dcg_space \<times> dc_event list) option" where
  "dc_wait x [] d = None"
| "dc_wait x (ev # evs) d = do {
     (err, d) \<leftarrow> dc_process ev d;
     if err < 0 then Some (err, d, evs) else if x d then Some (0, d, evs) else dc_wait x evs d
   }"

definition dc_while ::
  "(dcg_space \<Rightarrow> bool) \<Rightarrow> dc_event list \<Rightarrow> dcg_space \<Rightarrow> (int \<times> dcg_space \<times> dc_event list) option" where
  "dc_while x evs d = (if x d then Some (0, d, evs) else dc_wait x evs d)"

definition qt_flag :: "(query_tran_entry \<Rightarrow> bool) \<Rightarrow> int \<Rightarrow> dcg_space \<Rightarrow> bool" where
  "qt_flag f q d = (case qt_find d q of Some e \<Rightarrow> f e | None \<Rightarrow> False)"

subsection \<open>Get\<close>

definition qt_header :: "dcg_space \<Rightarrow> query_tran_entry \<Rightarrow> hdr_obj_get" where
  "qt_header d e = \<lparr>oh_qid = q_id e, oh_rank = c_id d, oh_rc = 0, oh_odsc = q_obj e, oh_gdim = q_gdim e\<rparr>"

definition get_dht_peers :: "int \<Rightarrow> dcg_space \<Rightarrow> (int \<times> dcg_space) option" where
  "get_dht_peers q d = do {
     e \<leftarrow> qt_find d q;
     Some (c_post (dcg_which_peer d) (C_get_dht_peers (qt_header d e)) d)
   }"

text \<open>The table is read up to the marker -1, without a check of its size.\<close>

fun get_desc_loop :: "int list \<Rightarrow> query_tran_entry \<Rightarrow> dcg_space \<Rightarrow> (int \<times> dcg_space) option" where
  "get_desc_loop [] e d = None"
| "get_desc_loop (p # ps) e d =
     (if p = - 1 then Some (0, d)
      else let (err, d) = c_post p (C_get_desc (qt_header d e)) d
           in if err < 0 then Some (err, d)
              else get_desc_loop ps e
                     (qt_set (q_id e) (\<lambda>e. e\<lparr>qh := (qh e)\<lparr>qh_num_req_posted := qh_num_req_posted (qh e) + 1\<rparr>\<rparr>) d))"

definition get_obj_descriptors :: "int \<Rightarrow> dcg_space \<Rightarrow> (int \<times> dcg_space) option" where
  "get_obj_descriptors q d = do {
     e \<leftarrow> qt_find d q;
     get_desc_loop (map (qh_peerid_tab (qh e)) [0..<qh_size (qh e)]) e (qt_set q (\<lambda>e. e\<lparr>f_odsc_recv := False\<rparr>) d)
   }"

text \<open>Requests for the parts; after a failure no further request is sent.\<close>

fun data_get_loop :: "query_tran_entry \<Rightarrow> obj_data list \<Rightarrow> dcg_space \<Rightarrow> int \<times> dcg_space" where
  "data_get_loop e [] d = (0, d)"
| "data_get_loop e (od # ods) d =
     (let odsc = (obj_desc od)\<lparr>od_version := od_version (q_obj e)\<rparr>;
          (err, d) = c_post (od_owner (obj_desc od))
             (C_get \<lparr>oh_qid = q_id e, oh_rank = 0, oh_rc = 0, oh_odsc = odsc, oh_gdim = q_gdim e\<rparr> (od_addr od)) d
      in if err < 0 then (err, d) else data_get_loop e ods d)"

definition dcg_obj_data_get :: "int \<Rightarrow> dcg_space \<Rightarrow> (int \<times> dcg_space) option" where
  "dcg_obj_data_get q d = do {
     e \<leftarrow> qt_find d q;
     let (err, e, d) = qt_alloc_obj_data e d;
     let d = qt_set q (\<lambda>_. e) d;
     Some (if err < 0 then (err, d) else data_get_loop e (od_list e) d)
   }"

definition dcg_obj_assemble :: "bbox \<Rightarrow> int \<Rightarrow> obj_data \<Rightarrow> dcg_space \<Rightarrow> obj_data option" where
  "dcg_obj_assemble bbcom0 q od d = do {
     e \<leftarrow> qt_find d q;
     ssd_copy_list bbcom0 od (od_list e)
   }"

text \<open>The labels at the end of \<open>dcg_obj_get\<close>.\<close>

definition out_no_data :: "int \<Rightarrow> dcg_space \<Rightarrow> dcg_space" where
  "out_no_data q d = qt_remove q (qt_set q (qt_free_obj_data True) d)"

definition dcg_obj_get ::
  "bbox \<Rightarrow> obj_data \<Rightarrow> dc_event list \<Rightarrow> dcg_space \<Rightarrow> (int \<times> obj_data \<times> dcg_space \<times> dc_event list) option" where
  "dcg_obj_get bbcom0 od evs d =
     (case qte_alloc od True d of
        (None, d) \<Rightarrow> Some (- ENOMEM, od, d, evs)
      | (Some e, d) \<Rightarrow>
          let q = q_id e; d = versions_reset (qt_add e d) in do {
            (err, d) \<leftarrow> get_dht_peers q d;
            if err < 0 then Some (err, od, qt_remove q d, evs)
            else do {
              (err, d, evs) \<leftarrow> dc_wait (qt_flag f_peer_received q) evs d;
              if err < 0 then Some (err, od, d, evs)
              else do {
                (err, d) \<leftarrow> get_obj_descriptors q d;
                if err < 0 then Some (err, od, if err = - EAGAIN then out_no_data q d else qt_remove q d, evs)
                else do {
                  (err, d, evs) \<leftarrow> dc_wait (qt_flag f_odsc_recv q) evs d;
                  if err < 0 then Some (err, od, d, evs)
                  else if qt_flag f_err q d then Some (- EAGAIN, od, out_no_data q d, evs)
                  else do {
                    (err, d) \<leftarrow> dcg_obj_data_get q d;
                    if err < 0 then Some (err, od, out_no_data q d, evs)
                    else do {
                      (err, d, evs) \<leftarrow> dc_while (qt_flag f_complete q) evs d;
                      if \<not> qt_flag f_complete q d then Some (- ENODATA, od, out_no_data q d, evs)
                      else do {
                        od \<leftarrow> dcg_obj_assemble bbcom0 q od d;
                        Some (0, od, out_no_data q d, evs)
                      }
                    }
                  }
                }
              }
            }
          })"

subsection \<open>Put\<close>

definition put_to :: "int \<Rightarrow> obj_data \<Rightarrow> dcg_space \<Rightarrow> int \<times> dcg_space" where
  "put_to peer od d =
     (let (n, d) = syncop_next d;
          (err, d) = c_post peer (C_put \<lparr>hp_odsc = obj_desc od, hp_gdim = od_gdim od\<rparr> (od_addr od)) d
      in if err < 0 then (err, d) else (int n, d\<lparr>c_num_pending := c_num_pending d + 1\<rparr>))"

definition dcg_obj_put :: "obj_data \<Rightarrow> dcg_space \<Rightarrow> int \<times> dcg_space" where
  "dcg_obj_put od d =
     put_to (if c_flag_mpi_rank d then c_mpi_rank d mod int (c_num_sp d) else dcg_which_peer d) od d"

definition dcg_obj_put_to_server :: "obj_data \<Rightarrow> int \<Rightarrow> dcg_space \<Rightarrow> int \<times> dcg_space" where
  "dcg_obj_put_to_server od server_id d =
     (if server_id < 0 \<or> server_id \<ge> int (c_num_sp d) then (- ENOMEM, d) else put_to server_id od d)"

definition dcg_obj_sync :: "nat \<Rightarrow> dc_event list \<Rightarrow> dcg_space \<Rightarrow> (int \<times> dcg_space \<times> dc_event list) option" where
  "dcg_obj_sync n evs d = dc_while (\<lambda>d. c_sync_op d n = 1) evs d"

definition dcg_set_mpi_rank_hint :: "int \<Rightarrow> dcg_space \<Rightarrow> dcg_space" where
  "dcg_set_mpi_rank_hint r d = d\<lparr>c_mpi_rank := r, c_flag_mpi_rank := True\<rparr>"

definition dcg_unset_mpi_rank_hint :: "dcg_space \<Rightarrow> dcg_space" where
  "dcg_unset_mpi_rank_hint d = d\<lparr>c_mpi_rank := 0, c_flag_mpi_rank := False\<rparr>"

subsection \<open>Versions\<close>

text \<open>
  \<open>memcpy(versions, dcg->versions, dcg->num_vers)\<close> copies as many bytes as there are versions: of
  element \<open>i\<close> of the little-endian array the bytes below \<open>num_vers - 4 * i\<close>.
\<close>

definition dcg_get_versions :: "dcg_space \<Rightarrow> nat \<times> (nat \<Rightarrow> int)" where
  "dcg_get_versions d =
     (c_num_vers d, \<lambda>i. sint (take_bit (8 * (c_num_vers d - 4 * i)) (word_of_int (c_versions d i) :: u32)))"

subsection \<open>Filters\<close>

fun filter_init_loop :: "query_tran_entry \<Rightarrow> obj_data list \<Rightarrow> dcg_space \<Rightarrow> int \<times> dcg_space" where
  "filter_init_loop e [] d = (0, d)"
| "filter_init_loop e (od # ods) d =
     (let (err, d) = c_post (od_owner (obj_desc od))
             (C_filter (q_id e) ((obj_desc od)\<lparr>od_version := od_version (q_obj e)\<rparr>) (od_addr od)) d
      in if err < 0 then (err, d) else filter_init_loop e ods d)"

definition obj_filter_init :: "int \<Rightarrow> dcg_space \<Rightarrow> (int \<times> dcg_space) option" where
  "obj_filter_init q d = do {
     e \<leftarrow> qt_find d q;
     let (err, e, d) = qt_alloc_obj_data_with_size 8 e d;
     let d = qt_set q (\<lambda>_. e) d;
     Some (if err < 0 then (err, d) else filter_init_loop e (od_list e) d)
   }"

text \<open>The comparison \<open>*pa < *pb\<close> of the doubles in two blocks of data is the argument \<open>lt\<close>.\<close>

definition obj_filter_reduce ::
  "((nat \<Rightarrow> byte) \<Rightarrow> (nat \<Rightarrow> byte) \<Rightarrow> bool) \<Rightarrow> query_tran_entry \<Rightarrow> obj_data \<Rightarrow> obj_data" where
  "obj_filter_reduce lt e od =
     snd (fold (\<lambda>odt (first, od). (False,
            if first \<or> lt (data odt) (data od) then od\<lparr>data := memcpy (data od) 0 (data odt) 0 8\<rparr> else od))
          (od_list e) (True, od))"

text \<open>Errors leave the transaction in the table. A cached entry may supply the descriptors.\<close>

definition dcg_obj_filter ::
  "((nat \<Rightarrow> byte) \<Rightarrow> (nat \<Rightarrow> byte) \<Rightarrow> bool) \<Rightarrow> obj_data \<Rightarrow> dc_event list \<Rightarrow> dcg_space \<Rightarrow>
     (int \<times> obj_data \<times> dcg_space \<times> dc_event list) option" where
  "dcg_obj_filter lt od evs d =
     (case qte_alloc od True d of
        (None, d) \<Rightarrow> Some (- ENOMEM, od, d, evs)
      | (Some e, d) \<Rightarrow>
          let q = q_id e; d = qt_add e d in do {
            (err, d, evs) \<leftarrow>
              (case qc_find d (obj_desc od) of
                 Some qce \<Rightarrow>
                   let (err, e, d) = qte_set_odsc_from_cache qce e d in Some (err, qt_set q (\<lambda>_. e) d, evs)
               | None \<Rightarrow> do {
                   (err, d) \<leftarrow> get_dht_peers q d;
                   if err < 0 then Some (err, d, evs)
                   else do {
                     (err, d, evs) \<leftarrow> dc_wait (qt_flag f_peer_received q) evs d;
                     if err < 0 then Some (err, d, evs)
                     else do {
                       (err, d) \<leftarrow> get_obj_descriptors q d;
                       if err < 0 then Some (err, d, evs) else dc_wait (qt_flag f_odsc_recv q) evs d
                     }
                   }
                 });
            if err < 0 then Some (err, od, d, evs)
            else do {
              (err, d) \<leftarrow> obj_filter_init q d;
              if err < 0 then Some (err, od, d, evs)
              else do {
                (err, d, evs) \<leftarrow> dc_wait (qt_flag f_complete q) evs d;
                if err < 0 then Some (err, od, d, evs)
                else do {
                  e \<leftarrow> qt_find d q;
                  Some (0, obj_filter_reduce lt e od, out_no_data q d, evs)
                }
              }
            }
          })"

subsection \<open>Information, removal, shutdown\<close>

definition dcg_ss_info :: "dc_event list \<Rightarrow> dcg_space \<Rightarrow> (int \<times> int option \<times> dcg_space \<times> dc_event list) option" where
  "dcg_ss_info evs d =
     (if c_f_ss_info d then Some (0, Some (c_info_dims d), d, evs)
      else let (err, d) = c_post (dcg_which_peer d) C_ss_info d in
        if err < 0 then Some (err, None, d, evs)
        else do {
          (err, d, evs) \<leftarrow> dc_wait c_f_ss_info evs d;
          Some (if err < 0 then (err, None, d, evs) else (0, Some (c_info_dims d), d, evs))
        })"

fun remove_loop :: "nat list \<Rightarrow> string \<Rightarrow> u32 \<Rightarrow> dcg_space \<Rightarrow> int \<times> dcg_space" where
  "remove_loop [] name ver d = (0, d)"
| "remove_loop (i # is) name ver d =
     (let (err, d) = c_post (int i) (C_remove name ver) d in if err < 0 then (err, d) else remove_loop is name ver d)"

definition dcg_remove :: "string \<Rightarrow> u32 \<Rightarrow> dcg_space \<Rightarrow> int \<times> dcg_space" where
  "dcg_remove name ver d = remove_loop [0..<c_num_sp d] name ver d"

text \<open>A failure ends the process.\<close>

definition dcgrpc_kill :: "dcg_space \<Rightarrow> dcg_space option" where
  "dcgrpc_kill d =
     foldM (\<lambda>i d. let (n, d) = syncop_next d; (err, d) = c_post (int i) C_kill d in if err < 0 then None else Some d)
       [0..<c_num_sp d] d"

subsection \<open>Metadata\<close>

definition dcg_obj_get_nvars :: "int \<Rightarrow> int \<Rightarrow> string \<Rightarrow> dcg_space \<Rightarrow> int \<times> dcg_space" where
  "dcg_obj_get_nvars ty ver name d = c_post 0 (if ty = 0 then C_next_meta name ver else C_latest_meta name ver) d"

definition dcg_obj_get_varBuffer :: "int \<Rightarrow> int \<Rightarrow> string \<Rightarrow> dcg_space \<Rightarrow> int \<times> dcg_space" where
  "dcg_obj_get_varBuffer ver len name d = c_post 0 (C_var_meta name ver len) d"

text \<open>The result is the buffer with its length and version; \<open>None\<close> inside is the NULL that is returned.\<close>

definition dcg_obj_get_meta ::
  "int \<Rightarrow> int \<Rightarrow> string \<Rightarrow> dc_event list \<Rightarrow> dcg_space \<Rightarrow>
     (((nat \<Rightarrow> byte) \<times> int \<times> int) option \<times> dcg_space \<times> dc_event list) option" where
  "dcg_obj_get_meta ty ver name evs d =
     (let (err, d) = dcg_obj_get_nvars ty ver name (d\<lparr>c_comp := False, c_var_array := (0, 0)\<rparr>) in
      if err < 0 then Some (None, d, evs)
      else do {
        (err, d, evs) \<leftarrow> dc_wait c_comp evs d;
        if err < 0 \<or> fst (c_var_array d) = - 3 then Some (None, d, evs)
        else
          let (buf_len, version) = c_var_array d;
              (err, d) = dcg_obj_get_varBuffer version buf_len name (d\<lparr>c_comp := False, c_meta := (\<lambda>_. 0)\<rparr>)
          in if err < 0 then Some (None, d, evs)
             else do {
               (err, d, evs) \<leftarrow> dc_wait c_comp evs d;
               Some (if err < 0 then None else Some (c_meta d, buf_len, version), d, evs)
             }
      })"

subsection \<open>Lock operations\<close>

text \<open>\<open>comm\<close> is the rank in the MPI communicator, or \<open>None\<close> without one; the barrier is a call that can fail.\<close>

definition is_master :: "int option \<Rightarrow> dcg_space \<Rightarrow> bool" where
  "is_master comm d \<longleftrightarrow> (case comm of None \<Rightarrow> c_id d = c_min_rank d | Some r \<Rightarrow> r = 0)"

definition lock_acked :: "string \<Rightarrow> dcg_space \<Rightarrow> bool" where
  "lock_acked name d = list_ex (\<lambda>l. cl_name l = name \<and> cl_ack l) (c_locks d)"

definition dcg_lock_on ::
  "lk_type \<Rightarrow> string \<Rightarrow> int option \<Rightarrow> dc_event list \<Rightarrow> dcg_space \<Rightarrow> (int \<times> dcg_space \<times> dc_event list) option" where
  "dcg_lock_on ty lock_name comm evs d =
     (case lock_get lock_name True d of
        (None, d) \<Rightarrow> Some (- ENOMEM, d, evs)
      | (Some l, d) \<Rightarrow> do {
          (err, d, evs) \<leftarrow>
            (if is_master comm d
             then let (err, d) = dcg_lock_request l ty d in
                  if err < 0 then Some (err, d, evs) else dc_while (lock_acked (cl_name l)) evs d
             else Some (0, d, evs));
          if err < 0 then Some (err, d, evs) else let (err, d) = c_attempt d in Some (err, d, evs)
        })"

definition dcg_unlock_on :: "lk_type \<Rightarrow> string \<Rightarrow> int option \<Rightarrow> dcg_space \<Rightarrow> int \<times> dcg_space" where
  "dcg_unlock_on ty lock_name comm d =
     (case lock_get lock_name True d of
        (None, d) \<Rightarrow> (- ENOMEM, d)
      | (Some l, d) \<Rightarrow>
          let (err, d) = c_attempt d in
          if (case comm of None \<Rightarrow> err < 0 | Some _ \<Rightarrow> err \<noteq> 0) then (err, d)
          else if is_master comm d then dcg_lock_request l ty d else (0, d))"

definition dcg_lock_on_read ::
  "string \<Rightarrow> int option \<Rightarrow> dc_event list \<Rightarrow> dcg_space \<Rightarrow> (int \<times> dcg_space \<times> dc_event list) option" where
  "dcg_lock_on_read = dcg_lock_on lk_read_get"

definition dcg_lock_on_write ::
  "string \<Rightarrow> int option \<Rightarrow> dc_event list \<Rightarrow> dcg_space \<Rightarrow> (int \<times> dcg_space \<times> dc_event list) option" where
  "dcg_lock_on_write = dcg_lock_on lk_write_get"

definition dcg_unlock_on_read :: "string \<Rightarrow> int option \<Rightarrow> dcg_space \<Rightarrow> int \<times> dcg_space" where
  "dcg_unlock_on_read = dcg_unlock_on lk_read_release"

definition dcg_unlock_on_write :: "string \<Rightarrow> int option \<Rightarrow> dcg_space \<Rightarrow> int \<times> dcg_space" where
  "dcg_unlock_on_write = dcg_unlock_on lk_write_release"

subsection \<open>Start and end of a client\<close>

text \<open>
  A process has one \<open>struct dcg_space\<close>, the global \<open>dcg\<close>; the static variables \<open>sync_op\<close>, \<open>qid\<close> and
  \<open>mpi_rank\<close> are fields of the model. \<open>dc\<close> is the outcome of \<open>dc_alloc\<close>: the rank of the client, the
  number of servers and the smallest rank of the application. \<open>calloc\<close> clears the record.
\<close>

definition dcg_alloc ::
  "dcg_space option \<Rightarrow> bool \<Rightarrow> (int \<times> nat \<times> int) option \<Rightarrow> (nat \<Rightarrow> int) \<Rightarrow> (nat \<Rightarrow> byte) \<Rightarrow> dcg_space option" where
  "dcg_alloc dcg malloc_ok dc rc buf =
     (case dcg of
        Some d \<Rightarrow> Some d
      | None \<Rightarrow>
          if \<not> malloc_ok then None
          else map_option (\<lambda>(i, n, m).
            \<lparr>c_id = i, c_num_sp = n, c_min_rank = m, c_qc = [], c_qt = [], c_qt_num = 0, c_f_ss_info = False,
             c_info_dims = 0, c_info_srv = 0, c_domain = \<lparr>num_dims = 0, lb = vec [], ub = vec []\<rparr>,
             c_default_gdim = gdim_zero, c_locks = [], c_gdims = [], c_num_pending = 0, c_hash_version = 1,
             c_max_versions = 0, c_num_vers = 0, c_versions = (\<lambda>_. 0), c_sync_next = 0, c_sync_op = (\<lambda>_. 1),
             c_next_qid = 0, c_mpi_rank = 0, c_flag_mpi_rank = False, c_comp = False, c_var_array = (0, 0),
             c_meta = (\<lambda>_. 0), c_sent = [], c_freed = [], c_brk = 0, c_rc = rc, c_calls = 0, c_buf = buf\<rparr>) dc)"

text \<open>The loop of \<open>dcg_free\<close>: events are processed, errors ignored, until no put is pending.\<close>

fun dcg_free :: "dc_event list \<Rightarrow> dcg_space \<Rightarrow> dcg_space option" where
  "dcg_free evs d =
     (if c_num_pending d = 0 then Some (d\<lparr>c_qc := [], c_locks := [], c_gdims := []\<rparr>)
      else case evs of [] \<Rightarrow> None | ev # evs \<Rightarrow> do { (_, d) \<leftarrow> dc_process ev d; dcg_free evs d })"

declare dcg_free.simps [simp del]

definition dcghlp_get_id :: "dcg_space \<Rightarrow> int" where
  "dcghlp_get_id d = c_id d"

definition dcg_get_rank :: "dcg_space \<Rightarrow> int" where
  "dcg_get_rank d = c_id d - c_min_rank d"

definition dcg_get_num_servers :: "dcg_space \<Rightarrow> nat" where
  "dcg_get_num_servers d = c_num_sp d"

definition dcg_get_num_space_srv :: "dcg_space \<Rightarrow> int" where
  "dcg_get_num_space_srv d = c_info_srv d"

end
