(* ===== verification/DS_Get.thy ===== *)
theory DS_Get
  imports DS_Client
begin

text \<open>
  The get transaction of the client (\<open>dcg_obj_get\<close> in src/src/dc_gspace.c): for every order in which
  the replies of the servers arrive, mixed with other events, the parts are fetched once and the
  object is assembled from them.
\<close>

subsection \<open>A transaction in progress\<close>

text \<open>The transaction \<open>e\<close> is the newest of the table; calls do not fail.\<close>

definition in_tran :: "query_tran_entry list \<Rightarrow> query_tran_entry \<Rightarrow> dcg_space \<Rightarrow> bool" where
  "in_tran es e d \<longleftrightarrow> c_qt d = e # es \<and> q_id e \<notin> q_id ` set es \<and> c_rc d = (\<lambda>_. 0)"

text \<open>What the steps of a transaction leave alone.\<close>

definition tran_frame :: "dcg_space \<Rightarrow> dcg_space \<Rightarrow> bool" where
  "tran_frame d d' \<longleftrightarrow> c_id d' = c_id d \<and> c_num_sp d' = c_num_sp d \<and> c_buf d' = c_buf d \<and>
     c_next_qid d' = c_next_qid d"

lemma tran_frame_refl [simp]: "tran_frame d d"
  by (simp add: tran_frame_def)

lemma tran_frame_trans: "tran_frame d d' \<Longrightarrow> tran_frame d' d'' \<Longrightarrow> tran_frame d d''"
  by (simp add: tran_frame_def)

lemma in_tran_find [simp]: "in_tran es e d \<Longrightarrow> qt_find d (q_id e) = Some e"
  by (simp add: in_tran_def qt_find_def)

lemma in_tran_flag: "in_tran es e d \<Longrightarrow> qt_flag f (q_id e) d = f e"
  by (simp add: qt_flag_def)

lemma map_other: "q \<notin> q_id ` set es \<Longrightarrow> map (\<lambda>e. if q_id e = q then f e else e) es = es"
  by (induction es) auto

lemma in_tran_set:
  "in_tran es e d \<Longrightarrow> q_id (f e) = q_id e \<Longrightarrow> in_tran es (f e) (qt_set (q_id e) f d)"
  by (simp add: in_tran_def qt_set_def map_other)

lemma qt_set_sel [simp]:
  "c_sent (qt_set q f d) = c_sent d" "c_brk (qt_set q f d) = c_brk d" "c_rc (qt_set q f d) = c_rc d"
  "c_calls (qt_set q f d) = c_calls d" "tran_frame d' (qt_set q f d) = tran_frame d' d"
  "qt_header (qt_set q f d) e = qt_header d e"
  by (simp_all add: qt_set_def tran_frame_def qt_header_def)

lemma c_attempt_ok:
  assumes "c_rc d = (\<lambda>_. 0)"
  shows "c_attempt d = (0, d\<lparr>c_calls := c_calls d + 1\<rparr>)"
  using assms by (simp add: c_attempt_def)

lemma c_post_ok:
  assumes "c_rc d = (\<lambda>_. 0)"
  shows "c_post peer msg d = (0, d\<lparr>c_calls := c_calls d + 2, c_sent := c_sent d @ [(peer, msg)]\<rparr>)"
  using assms by (simp add: c_post_def c_attempt_def)

lemma in_tran_calls [simp]:
  "in_tran es e (d\<lparr>c_calls := k\<rparr>) = in_tran es e d"
  "in_tran es e (d\<lparr>c_sent := l\<rparr>) = in_tran es e d"
  "in_tran es e (d\<lparr>c_brk := b\<rparr>) = in_tran es e d"
  by (simp_all add: in_tran_def)

lemma tran_frame_calls [simp]:
  "tran_frame d' (d\<lparr>c_calls := k\<rparr>) = tran_frame d' d"
  "tran_frame d' (d\<lparr>c_sent := l\<rparr>) = tran_frame d' d"
  "tran_frame d' (d\<lparr>c_brk := b\<rparr>) = tran_frame d' d"
  by (simp_all add: tran_frame_def)

subsection \<open>Other events\<close>

text \<open>Events that no query waits for; the announcement of a table of descriptors is one of them.\<close>

definition bystander :: "dc_event \<Rightarrow> bool" where
  "bystander ev \<longleftrightarrow>
     (case ev of
        ev_get_desc rc q vs \<Rightarrow> 0 \<le> rc
      | ev_lock lh \<Rightarrow> True
      | ev_ss_info hsi \<Rightarrow> True
      | ev_put_done slot a \<Rightarrow> True
      | ev_nvars n v \<Rightarrow> True
      | ev_var_meta bytes \<Rightarrow> True
      | ev_none \<Rightarrow> True
      | _ \<Rightarrow> False)"

lemma bystander_step:
  assumes "bystander ev" "in_tran es e d"
  shows "\<exists>d'. dc_process ev d = Some (0, d') \<and> in_tran es e d' \<and> tran_frame d d' \<and> c_brk d' = c_brk d \<and> c_sent d' = c_sent d"
proof (cases ev)
  case (ev_get_desc rc q vs)
  then show ?thesis
    using assms by (auto simp: bystander_def dc_process_def dcgrpc_obj_get_desc_def obj_get_desc_start_def c_attempt_def
        in_tran_def tran_frame_def Let_def)
next
  case (ev_lock lh)
  then show ?thesis
    using assms by (auto simp: dc_process_def dcgrpc_lock_service_def lock_get_def lock_set_def in_tran_def tran_frame_def
        split: option.splits)
next
  case (ev_ss_info hsi)
  then show ?thesis
    using assms by (auto simp: dc_process_def dcgrpc_ss_info_def in_tran_def tran_frame_def Let_def)
qed (use assms in \<open>auto simp: bystander_def dc_process_def put_done_def nvars_get_completion_def in_tran_def tran_frame_def\<close>)

definition replies :: "dc_event list \<Rightarrow> dc_event list" where
  "replies evs = filter (\<lambda>ev. \<not> bystander ev) evs"

lemma replies_simps [simp]:
  "replies [] = []" "replies (ev # evs) = (if bystander ev then replies evs else ev # replies evs)"
  by (simp_all add: replies_def)

definition tran_step :: "dcg_space \<Rightarrow> dcg_space \<Rightarrow> bool" where
  "tran_step d d' \<longleftrightarrow> tran_frame d d' \<and> c_brk d' = c_brk d \<and> c_sent d' = c_sent d"

lemma tran_step_refl [simp]: "tran_step d d"
  by (simp add: tran_step_def)

lemma tran_step_trans: "tran_step d d' \<Longrightarrow> tran_step d' d'' \<Longrightarrow> tran_step d d''"
  using tran_frame_trans by (auto simp: tran_step_def)

text \<open>Waiting passes over bystanders and handles the next reply.\<close>

lemma dc_wait_next:
  assumes "replies evs = ev # evs'" "in_tran es e d" "\<not> f e"
  obtains d1 evs1 where "in_tran es e d1" "tran_step d d1" "replies evs1 = evs'"
    "\<And>d2. dc_process ev d1 = Some (0, d2) \<Longrightarrow>
       dc_wait (qt_flag f (q_id e)) evs d =
         (if qt_flag f (q_id e) d2 then Some (0, d2, evs1) else dc_wait (qt_flag f (q_id e)) evs1 d2)"
  using assms
proof (induction evs arbitrary: d thesis)
  case (Cons v evs)
  show ?case
  proof (cases "bystander v")
    case True
    obtain d' where d': "dc_process v d = Some (0, d')" "in_tran es e d'" "tran_step d d'"
      using bystander_step [OF True Cons.prems(3)] unfolding tran_step_def by blast
    have w: "dc_wait (qt_flag f (q_id e)) (v # evs) d = dc_wait (qt_flag f (q_id e)) evs d'"
      using d'(1) in_tran_flag [OF d'(2), of f] Cons.prems(4) by simp
    have fl: "replies evs = ev # evs'" using Cons.prems(2) True by simp
    show ?thesis
      by (rule Cons.IH [OF _ fl d'(2) Cons.prems(4)])
        (use Cons.prems(1) w d'(3) tran_step_trans in simp)
  next
    case False
    then have "v = ev" "replies evs = evs'" using Cons.prems(2) by auto
    then show ?thesis using Cons.prems(1) [OF Cons.prems(3)] by simp
  qed
qed simp

subsection \<open>Waiting for a number of replies\<close>

text \<open>
  The client waits twice for one reply from each of several servers. Contract of such a phase: a
  reply \<open>x\<close> is the event \<open>ev q x\<close>, it changes the transaction by \<open>step x\<close>, \<open>missing\<close> counts the
  replies that have not arrived, and the flag the client waits for is raised by the last one.
\<close>

locale reply_phase =
  fixes flag :: "query_tran_entry \<Rightarrow> bool"
    and ev :: "int \<Rightarrow> 'x \<Rightarrow> dc_event"
    and step :: "'x \<Rightarrow> query_tran_entry \<Rightarrow> query_tran_entry"
    and missing :: "query_tran_entry \<Rightarrow> int"
    and inv :: "query_tran_entry \<Rightarrow> dcg_space \<Rightarrow> bool"
  assumes step_id: "q_id (step x e) = q_id e"
    and step_missing: "missing (step x e) = missing e - 1"
    and step_flag: "flag (step x e) \<longleftrightarrow> flag e \<or> missing e = 1"
    and inv_stable: "inv e d \<Longrightarrow> tran_step d d' \<Longrightarrow> inv e d'"
    and handled: "in_tran es e d \<Longrightarrow> inv e d \<Longrightarrow>
      \<exists>d'. dc_process (ev (q_id e) x) d = Some (0, d') \<and> in_tran es (step x e) d' \<and> inv (step x e) d' \<and>
        tran_frame d d' \<and> c_sent d' = c_sent d"
begin

lemma all_replies:
  assumes "in_tran es e d" "inv e d" "\<not> flag e" "xs \<noteq> []" "missing e = int (length xs)"
    "replies evs = map (ev (q_id e)) xs @ evs'"
  shows "\<exists>d1 evs1. dc_wait (qt_flag flag (q_id e)) evs d = Some (0, d1, evs1) \<and>
    replies evs1 = evs' \<and> in_tran es (fold step xs e) d1 \<and> inv (fold step xs e) d1 \<and>
    tran_frame d d1 \<and> c_sent d1 = c_sent d"
  using assms
proof (induction xs arbitrary: e d evs)
  case (Cons x xs)
  have r: "replies evs = ev (q_id e) x # (map (ev (q_id e)) xs @ evs')"
    using Cons.prems(6) by simp
  obtain d1 evs1 where w: "in_tran es e d1" "tran_step d d1" "replies evs1 = map (ev (q_id e)) xs @ evs'"
    "\<And>d2. dc_process (ev (q_id e) x) d1 = Some (0, d2) \<Longrightarrow>
       dc_wait (qt_flag flag (q_id e)) evs d =
         (if qt_flag flag (q_id e) d2 then Some (0, d2, evs1) else dc_wait (qt_flag flag (q_id e)) evs1 d2)"
    using dc_wait_next [where f = flag, OF r Cons.prems(1,3)] by metis
  obtain d2 where d2: "dc_process (ev (q_id e) x) d1 = Some (0, d2)" "in_tran es (step x e) d2"
    "inv (step x e) d2" "tran_frame d1 d2" "c_sent d2 = c_sent d1"
    using handled [OF w(1) inv_stable [OF Cons.prems(2) w(2)]] by blast
  have fr: "tran_frame d d2" "c_sent d2 = c_sent d"
    using tran_frame_trans [OF _ d2(4)] w(2) d2(5) by (simp_all add: tran_step_def)
  have fl: "flag (step x e) \<longleftrightarrow> xs = []" using Cons.prems(3,5) step_flag by (cases xs) auto
  then have wt: "dc_wait (qt_flag flag (q_id e)) evs d =
    (if xs = [] then Some (0, d2, evs1) else dc_wait (qt_flag flag (q_id e)) evs1 d2)"
    using w(4) [OF d2(1)] in_tran_flag [OF d2(2), of flag] step_id by simp
  show ?case
  proof (cases "xs = []")
    case True
    then show ?thesis
      using wt w(3) d2(2,3) fr by (intro exI [of _ d2] exI [of _ evs1]) simp
  next
    case False
    have m: "missing (step x e) = int (length xs)" using step_missing Cons.prems(5) by simp
    have r1: "replies evs1 = map (ev (q_id (step x e))) xs @ evs'" using w(3) step_id by simp
    have nf: "\<not> flag (step x e)" using fl False by simp
    obtain d3 evs3 where I: "dc_wait (qt_flag flag (q_id e)) evs1 d2 = Some (0, d3, evs3)"
      "replies evs3 = evs'" "in_tran es (fold step xs (step x e)) d3"
      "inv (fold step xs (step x e)) d3" "tran_frame d2 d3" "c_sent d3 = c_sent d2"
      using Cons.IH [OF d2(2,3) nf False m r1] unfolding step_id by blast
    then show ?thesis
      using wt False fr tran_frame_trans [OF fr(1) I(5)] by (intro exI [of _ d3] exI [of _ evs3]) simp
  qed
qed simp

lemma last_reply: "xs \<noteq> [] \<Longrightarrow> missing e = int (length xs) \<Longrightarrow> flag (fold step xs e)"
proof (induction xs arbitrary: e)
  case (Cons x xs)
  show ?case
  proof (cases "xs = []")
    case True
    then show ?thesis using Cons.prems step_flag by simp
  next
    case False
    then show ?thesis using Cons.IH [of "step x e"] Cons.prems step_missing by simp
  qed
qed simp

end

subsection \<open>The table of peers\<close>

definition peers_in :: "(nat \<Rightarrow> int) \<Rightarrow> query_tran_entry \<Rightarrow> query_tran_entry" where
  "peers_in tab e =
     e\<lparr>qh := (qh e)\<lparr>qh_peerid_tab := (\<lambda>i. if i < qh_size (qh e) then tab i else qh_peerid_tab (qh e) i),
                    qh_num_peer := length (takeWhile (\<lambda>i. tab i \<noteq> - 1) [0..<qh_size (qh e)])\<rparr>,
       f_peer_received := True\<rparr>"

lemma get_dht_peers_ok:
  assumes "in_tran es e d"
  shows "get_dht_peers (q_id e) d =
    Some (0, d\<lparr>c_calls := c_calls d + 2, c_sent := c_sent d @ [(dcg_which_peer d, C_get_dht_peers (qt_header d e))]\<rparr>)"
  using assms by (simp add: get_dht_peers_def c_post_ok in_tran_def qt_find_def)

lemma wait_peers:
  assumes "in_tran es e d" "\<not> f_peer_received e" "replies evs = ev_peers (q_id e) tab # evs'"
  obtains d1 evs1 where "dc_wait (qt_flag f_peer_received (q_id e)) evs d = Some (0, d1, evs1)"
    "replies evs1 = evs'" "in_tran es (peers_in tab e) d1" "tran_step d d1"
proof -
  obtain d1 evs1 where w: "in_tran es e d1" "tran_step d d1" "replies evs1 = evs'"
    "\<And>d2. dc_process (ev_peers (q_id e) tab) d1 = Some (0, d2) \<Longrightarrow>
       dc_wait (qt_flag f_peer_received (q_id e)) evs d =
         (if qt_flag f_peer_received (q_id e) d2 then Some (0, d2, evs1)
          else dc_wait (qt_flag f_peer_received (q_id e)) evs1 d2)"
    using dc_wait_next [where f = f_peer_received, OF assms(3,1,2)] by metis
  have t: "in_tran es (peers_in tab e) (qt_set (q_id e) (peers_in tab) d1)"
    by (rule in_tran_set [OF w(1)]) (simp add: peers_in_def)
  have p: "dc_process (ev_peers (q_id e) tab) d1 = Some (0, qt_set (q_id e) (peers_in tab) d1)"
    by (simp add: dc_process_def get_dht_peers_completion_def peers_in_def [abs_def])
  have "qt_flag f_peer_received (q_id e) (qt_set (q_id e) (peers_in tab) d1)"
    using in_tran_flag [OF t, of f_peer_received] by (simp add: peers_in_def)
  then show ?thesis
    using that [of "qt_set (q_id e) (peers_in tab) d1" evs1] w(4) [OF p] t w(2,3) by (simp add: tran_step_def)
qed

subsection \<open>The requests for descriptors\<close>

lemma get_desc_loop_ok:
  assumes "in_tran es e0 d" "q_id e0 = q_id e" "- 1 \<notin> set ps"
  shows "\<exists>d' k. get_desc_loop (ps @ - 1 # junk) e d = Some (0, d') \<and>
    in_tran es (e0\<lparr>qh := (qh e0)\<lparr>qh_num_req_posted := k\<rparr>\<rparr>) d' \<and> tran_frame d d' \<and> c_brk d' = c_brk d \<and>
    c_sent d' = c_sent d @ map (\<lambda>p. (p, C_get_desc (qt_header d e))) ps"
  using assms
proof (induction ps arbitrary: e0 d)
  case Nil
  then show ?case by (intro exI [of _ d] exI [of _ "qh_num_req_posted (qh e0)"]) simp
next
  case (Cons p ps)
  let ?f = "\<lambda>e :: query_tran_entry. e\<lparr>qh := (qh e)\<lparr>qh_num_req_posted := qh_num_req_posted (qh e) + 1\<rparr>\<rparr>"
  let ?d = "d\<lparr>c_calls := c_calls d + 2, c_sent := c_sent d @ [(p, C_get_desc (qt_header d e))]\<rparr>"
  have c: "c_post p (C_get_desc (qt_header d e)) d = (0, ?d)"
    using Cons.prems(1) by (simp add: c_post_ok in_tran_def)
  have t: "in_tran es (?f e0) (qt_set (q_id e0) ?f ?d)"
    by (rule in_tran_set) (use Cons.prems(1) in simp_all)
  have q: "q_id (?f e0) = q_id e" "- 1 \<notin> set ps" using Cons.prems by simp_all
  obtain d' k where I: "get_desc_loop (ps @ - 1 # junk) e (qt_set (q_id e0) ?f ?d) = Some (0, d')"
    "in_tran es ((?f e0)\<lparr>qh := (qh (?f e0))\<lparr>qh_num_req_posted := k\<rparr>\<rparr>) d'" "tran_frame (qt_set (q_id e0) ?f ?d) d'"
    "c_brk d' = c_brk (qt_set (q_id e0) ?f ?d)"
    "c_sent d' = c_sent (qt_set (q_id e0) ?f ?d) @ map (\<lambda>p. (p, C_get_desc (qt_header (qt_set (q_id e0) ?f ?d) e))) ps"
    using Cons.IH [OF t q] by blast
  have h: "qt_header ?d e = qt_header d e" by (simp add: qt_header_def)
  have fr: "tran_frame d d'" by (rule tran_frame_trans [OF _ I(3)]) simp
  show ?case
    using I c Cons.prems(2,3) h fr by (intro exI [of _ d'] exI [of _ k]) (simp add: Let_def)
qed

subsection \<open>The tables of descriptors\<close>

text \<open>The parts of the query: every descriptor once, the newest first, at consecutive addresses.\<close>

definition new_part :: "storage_type \<Rightarrow> nat \<Rightarrow> obj_descriptor \<Rightarrow> obj_data" where
  "new_part st a odsc =
     \<lparr>od_addr = a, obj_desc = odsc\<lparr>od_st := st\<rparr>, od_gdim = gdim_zero, data = (\<lambda>_. 0), own_data = False,
      obj_ref = None, refcnt = 0, f_free = False\<rparr>"

fun add_parts :: "storage_type \<Rightarrow> nat \<Rightarrow> obj_descriptor list \<Rightarrow> obj_data list \<Rightarrow> obj_data list" where
  "add_parts st b [] ods = ods"
| "add_parts st b (x # xs) ods =
     add_parts st b xs
       (if \<exists>od\<in>set ods. obj_desc_equals (obj_desc od) x then ods else new_part st (b + length ods) x # ods)"

lemma add_parts_append: "add_parts st b (xs @ ys) ods = add_parts st b ys (add_parts st b xs ods)"
  by (induction xs arbitrary: ods) auto

lemma add_parts_addr:
  assumes "map od_addr ods = rev [b..<b + length ods]"
  shows "map od_addr (add_parts st b xs ods) = rev [b..<b + length (add_parts st b xs ods)]"
  using assms by (induction xs arbitrary: ods) (simp_all add: new_part_def)

lemma add_parts_keeps: "set ods \<subseteq> set (add_parts st b xs ods)"
  by (induction xs arbitrary: ods) (auto split: if_splits, fastforce+)

lemma add_parts_desc:
  "od \<in> set (add_parts st b xs ods) \<Longrightarrow> od \<in> set ods \<or> (\<exists>a x. x \<in> set xs \<and> od = new_part st a x)"
proof (induction xs arbitrary: ods)
  case (Cons x xs)
  then show ?case by (fastforce split: if_splits)
qed simp

lemma add_parts_complete:
  assumes "x \<in> set xs" "\<And>x. x \<in> set xs \<Longrightarrow> od_st x = st"
  shows "\<exists>od\<in>set (add_parts st b xs ods). obj_desc_equals (obj_desc od) x"
  using assms
proof (induction xs arbitrary: ods)
  case (Cons y xs)
  have st: "od_st y = st" using Cons.prems(2) by simp
  let ?ods = "if \<exists>od\<in>set ods. obj_desc_equals (obj_desc od) y then ods else new_part st (b + length ods) y # ods"
  show ?case
  proof (cases "x = y")
    case True
    have "\<exists>od\<in>set ?ods. obj_desc_equals (obj_desc od) y"
      using st by (auto simp: new_part_def obj_desc_equals_def bbox_equals_def)
    then show ?thesis using True add_parts_keeps [of ?ods st b xs] unfolding add_parts.simps by blast
  next
    case False
    then show ?thesis using Cons.IH [of ?ods] Cons.prems by simp
  qed
qed simp

definition with_parts :: "obj_data list \<Rightarrow> query_tran_entry \<Rightarrow> query_tran_entry" where
  "with_parts ods e = e\<lparr>od_list := ods, num_od := int (length ods), size_od := int (length ods)\<rparr>"

lemma qt_find_obj_none: "qt_find_obj e x = None \<longleftrightarrow> \<not> (\<exists>od\<in>set (od_list e). obj_desc_equals (obj_desc od) x)"
  by (auto simp: qt_find_obj_def find_None_iff)

lemma qt_add_obj_ok:
  assumes "c_rc d = (\<lambda>_. 0)"
  shows "qt_add_obj x e d =
    (0, e\<lparr>od_list := new_part (od_st (q_obj e)) (c_brk d) x # od_list e, num_od := num_od e + 1\<rparr>,
     d\<lparr>c_calls := c_calls d + 1, c_brk := c_brk d + 1\<rparr>)"
  using assms by (simp add: qt_add_obj_def c_attempt_ok obj_data_alloc_no_data_def new_part_def)

lemma add_desc_loop_ok:
  assumes "in_tran es e0 d" "num_od e = int (length (od_list e))"
    "size_od e = int (length (od_list e)) + int (length tab)" "c_brk d = b + length (od_list e)"
  shows "\<exists>k. add_desc_loop tab e d =
    (0, with_parts (add_parts (od_st (q_obj e)) b tab (od_list e)) e,
     d\<lparr>c_calls := k, c_brk := b + length (add_parts (od_st (q_obj e)) b tab (od_list e))\<rparr>)"
  using assms
proof (induction tab arbitrary: e d)
  case Nil
  have "with_parts (od_list e) e = e" "d\<lparr>c_calls := c_calls d, c_brk := b + length (od_list e)\<rparr> = d"
    using Nil by (simp_all add: with_parts_def)
  then show ?case by (intro exI [of _ "c_calls d"]) simp
next
  case (Cons x tab)
  have rc: "c_rc d = (\<lambda>_. 0)" using Cons.prems(1) by (simp add: in_tran_def)
  show ?case
  proof (cases "qt_find_obj e x = None")
    case True
    let ?e = "e\<lparr>od_list := new_part (od_st (q_obj e)) (c_brk d) x # od_list e, num_od := num_od e + 1\<rparr>"
    let ?d = "d\<lparr>c_calls := c_calls d + 1, c_brk := c_brk d + 1\<rparr>"
    obtain k where "add_desc_loop tab ?e ?d =
      (0, with_parts (add_parts (od_st (q_obj ?e)) b tab (od_list ?e)) ?e,
       ?d\<lparr>c_calls := k, c_brk := b + length (add_parts (od_st (q_obj ?e)) b tab (od_list ?e))\<rparr>)"
      using Cons.IH [of ?d ?e] Cons.prems by auto
    moreover have "\<not> (\<exists>od\<in>set (od_list e). obj_desc_equals (obj_desc od) x)" using True qt_find_obj_none by metis
    ultimately show ?thesis
      using True Cons.prems(4) by (intro exI [of _ k]) (simp add: qt_add_obj_ok [OF rc] with_parts_def)
  next
    case False
    let ?e = "e\<lparr>size_od := size_od e - 1\<rparr>"
    obtain k where "add_desc_loop tab ?e d =
      (0, with_parts (add_parts (od_st (q_obj ?e)) b tab (od_list ?e)) ?e,
       d\<lparr>c_calls := k, c_brk := b + length (add_parts (od_st (q_obj ?e)) b tab (od_list ?e))\<rparr>)"
      using Cons.IH [of d ?e] Cons.prems by auto
    moreover have "\<exists>od\<in>set (od_list e). obj_desc_equals (obj_desc od) x" using False qt_find_obj_none by metis
    ultimately show ?thesis
      using False by (intro exI [of _ k]) (auto simp: with_parts_def)
  qed
qed

text \<open>One table of descriptors.\<close>

definition desc_in :: "nat \<Rightarrow> obj_descriptor list \<Rightarrow> query_tran_entry \<Rightarrow> query_tran_entry" where
  "desc_in b tab e =
     check_odsc_recv (with_parts (add_parts (od_st (q_obj e)) b tab (od_list e)) (rep_received e))"

text \<open>The counters of a transaction agree with its parts.\<close>

definition parts_ok :: "nat \<Rightarrow> query_tran_entry \<Rightarrow> dcg_space \<Rightarrow> bool" where
  "parts_ok b e d \<longleftrightarrow>
     num_od e = int (length (od_list e)) \<and> size_od e = int (length (od_list e)) \<and> c_brk d = b + length (od_list e)"

lemma desc_in_sel [simp]:
  "q_id (desc_in b tab e) = q_id e" "q_obj (desc_in b tab e) = q_obj e" "q_gdim (desc_in b tab e) = q_gdim e"
  "od_list (desc_in b tab e) = add_parts (od_st (q_obj e)) b tab (od_list e)"
  "f_err (desc_in b tab e) = f_err e" "f_complete (desc_in b tab e) = f_complete e"
  "num_parts_rec (desc_in b tab e) = num_parts_rec e"
  "qh_num_rep_received (qh (desc_in b tab e)) = qh_num_rep_received (qh e) + 1"
  "qh_num_peer (qh (desc_in b tab e)) = qh_num_peer (qh e)"
  "f_odsc_recv (desc_in b tab e) \<longleftrightarrow>
     f_odsc_recv e \<or> qh_num_rep_received (qh e) + 1 = qh_num_peer (qh e)"
  by (simp_all add: desc_in_def check_odsc_recv_def with_parts_def rep_received_def)

lemma desc_event:
  assumes "in_tran es e d" "parts_ok b e d"
  obtains d' where "dc_process (ev_desc_tab (q_id e) tab) d = Some (0, d')" "in_tran es (desc_in b tab e) d'"
    "parts_ok b (desc_in b tab e) d'" "tran_frame d d'" "c_sent d' = c_sent d"
proof -
  let ?e = "(rep_received e)\<lparr>size_od := size_od e + int (length tab)\<rparr>"
  obtain k where k: "add_desc_loop tab ?e d =
    (0, with_parts (add_parts (od_st (q_obj ?e)) b tab (od_list ?e)) ?e,
     d\<lparr>c_calls := k, c_brk := b + length (add_parts (od_st (q_obj ?e)) b tab (od_list ?e))\<rparr>)"
    using add_desc_loop_ok [OF assms(1), of ?e tab b] assms(2) by (auto simp: parts_ok_def rep_received_def)
  let ?d = "d\<lparr>c_calls := k, c_brk := b + length (add_parts (od_st (q_obj e)) b tab (od_list e))\<rparr>"
  have p: "dc_process (ev_desc_tab (q_id e) tab) d = Some (0, qt_set (q_id e) (\<lambda>_. desc_in b tab e) ?d)"
    unfolding dc_process_def obj_get_desc_completion_def dc_event.case in_tran_find [OF assms(1)] option.case k
    by (simp add: desc_in_def rep_received_def with_parts_def)
  have t: "in_tran es (desc_in b tab e) (qt_set (q_id e) (\<lambda>_. desc_in b tab e) ?d)"
    by (rule in_tran_set [where f = "\<lambda>_. desc_in b tab e"]) (use assms(1) in simp_all)
  have "num_od (desc_in b tab e) = int (length (od_list (desc_in b tab e)))"
    "size_od (desc_in b tab e) = int (length (od_list (desc_in b tab e)))"
    by (simp_all add: desc_in_def check_odsc_recv_def with_parts_def)
  then show ?thesis using that [OF p t] by (simp add: parts_ok_def)
qed

interpretation descs: reply_phase f_odsc_recv ev_desc_tab "desc_in b"
  "\<lambda>e. int (qh_num_peer (qh e)) - int (qh_num_rep_received (qh e))" "parts_ok b" for b
proof unfold_locales
  fix es e d and x :: "obj_descriptor list"
  assume "in_tran es e d" "parts_ok b e d"
  then show "\<exists>d'. dc_process (ev_desc_tab (q_id e) x) d = Some (0, d') \<and> in_tran es (desc_in b x e) d' \<and>
    parts_ok b (desc_in b x e) d' \<and> tran_frame d d' \<and> c_sent d' = c_sent d"
    using desc_event by metis
qed (auto simp: parts_ok_def tran_step_def)

lemma fold_desc_in_sel [simp]:
  "q_id (fold (desc_in b) tabs e) = q_id e" "q_obj (fold (desc_in b) tabs e) = q_obj e"
  "q_gdim (fold (desc_in b) tabs e) = q_gdim e"
  "od_list (fold (desc_in b) tabs e) = add_parts (od_st (q_obj e)) b (concat tabs) (od_list e)"
  "f_err (fold (desc_in b) tabs e) = f_err e" "f_complete (fold (desc_in b) tabs e) = f_complete e"
  "num_parts_rec (fold (desc_in b) tabs e) = num_parts_rec e"
  by (induction tabs arbitrary: e) (simp_all add: add_parts_append)

subsection \<open>The parts\<close>

lemma alloc_loop_ok:
  assumes "c_rc d = (\<lambda>_. 0)"
  shows "\<exists>k. alloc_loop ods d = (length ods, map (\<lambda>od. od\<lparr>data := c_buf d\<rparr>) ods, d\<lparr>c_calls := k\<rparr>)"
  using assms
proof (induction ods arbitrary: d)
  case Nil
  show ?case by (intro exI [of _ "c_calls d"]) simp
next
  case (Cons od ods)
  obtain k where "alloc_loop ods (d\<lparr>c_calls := c_calls d + 1\<rparr>) =
    (length ods, map (\<lambda>od. od\<lparr>data := c_buf d\<rparr>) ods, d\<lparr>c_calls := k\<rparr>)"
    using Cons.IH [of "d\<lparr>c_calls := c_calls d + 1\<rparr>"] Cons.prems by auto
  then show ?case by (intro exI [of _ k]) (simp add: c_attempt_ok [OF Cons.prems])
qed

definition part_request :: "query_tran_entry \<Rightarrow> obj_data \<Rightarrow> int \<times> cl_msg" where
  "part_request e od =
     (od_owner (obj_desc od),
      C_get \<lparr>oh_qid = q_id e, oh_rank = 0, oh_rc = 0, oh_odsc = (obj_desc od)\<lparr>od_version := od_version (q_obj e)\<rparr>,
             oh_gdim = q_gdim e\<rparr> (od_addr od))"

lemma data_get_loop_ok:
  assumes "c_rc d = (\<lambda>_. 0)"
  shows "\<exists>k. data_get_loop e ods d = (0, d\<lparr>c_calls := k, c_sent := c_sent d @ map (part_request e) ods\<rparr>)"
  using assms
proof (induction ods arbitrary: d)
  case Nil
  show ?case by (intro exI [of _ "c_calls d"]) simp
next
  case (Cons od ods)
  let ?d = "d\<lparr>c_calls := c_calls d + 2, c_sent := c_sent d @ [part_request e od]\<rparr>"
  obtain k where "data_get_loop e ods ?d = (0, ?d\<lparr>c_calls := k, c_sent := c_sent ?d @ map (part_request e) ods\<rparr>)"
    using Cons.IH [of ?d] Cons.prems by auto
  then show ?case by (intro exI [of _ k]) (simp add: c_post_ok [OF Cons.prems] part_request_def)
qed

definition alloc_parts :: "(nat \<Rightarrow> byte) \<Rightarrow> query_tran_entry \<Rightarrow> query_tran_entry" where
  "alloc_parts buf e = e\<lparr>od_list := map (\<lambda>od. od\<lparr>data := buf\<rparr>) (od_list e)\<rparr>"

lemma dcg_obj_data_get_ok:
  assumes "in_tran es e d" "num_od e = int (length (od_list e))"
  obtains d' where "dcg_obj_data_get (q_id e) d = Some (0, d')" "in_tran es (alloc_parts (c_buf d) e) d'"
    "tran_frame d d'" "c_sent d' = c_sent d @ map (part_request e) (od_list e)"
proof -
  have rc: "c_rc d = (\<lambda>_. 0)" using assms(1) by (simp add: in_tran_def)
  obtain k where k: "alloc_loop (od_list e) d =
    (length (od_list e), map (\<lambda>od. od\<lparr>data := c_buf d\<rparr>) (od_list e), d\<lparr>c_calls := k\<rparr>)"
    using alloc_loop_ok [OF rc] by blast
  let ?e = "alloc_parts (c_buf d) e"
  have a: "qt_alloc_obj_data e d = (0, ?e, d\<lparr>c_calls := k\<rparr>)"
    using k assms(2) by (simp add: qt_alloc_obj_data_def alloc_parts_def)
  let ?d = "qt_set (q_id e) (\<lambda>_. ?e) (d\<lparr>c_calls := k\<rparr>)"
  have q: "q_id ?e = q_id e" by (simp add: alloc_parts_def)
  have t: "in_tran es ?e ?d"
    by (rule in_tran_set [where f = "\<lambda>_. ?e"]) (use assms(1) q in simp_all)
  obtain l where l: "data_get_loop ?e (od_list ?e) ?d =
    (0, ?d\<lparr>c_calls := l, c_sent := c_sent ?d @ map (part_request ?e) (od_list ?e)\<rparr>)"
    using data_get_loop_ok [of ?d ?e "od_list ?e"] t unfolding in_tran_def by blast
  have m: "map (part_request ?e) (od_list ?e) = map (part_request e) (od_list e)"
    by (simp add: alloc_parts_def part_request_def)
  have "dcg_obj_data_get (q_id e) d = Some (data_get_loop ?e (od_list ?e) ?d)"
    using assms(1) by (simp add: dcg_obj_data_get_def a)
  then show ?thesis
    using that [of "?d\<lparr>c_calls := l, c_sent := c_sent d @ map (part_request e) (od_list e)\<rparr>"] l t m by simp
qed

text \<open>The data of one part.\<close>

definition part_in :: "nat \<times> nat \<times> (nat \<Rightarrow> byte) \<Rightarrow> query_tran_entry \<Rightarrow> query_tran_entry" where
  "part_in = (\<lambda>(a, n, bytes) e.
     let e = e\<lparr>od_list := map (\<lambda>od. if od_addr od = a then od\<lparr>data := memcpy (data od) 0 bytes 0 n\<rparr> else od) (od_list e),
               num_parts_rec := num_parts_rec e + 1\<rparr>
     in if num_parts_rec e = size_od e then e\<lparr>f_complete := True\<rparr> else e)"

definition ev_part :: "int \<Rightarrow> nat \<times> nat \<times> (nat \<Rightarrow> byte) \<Rightarrow> dc_event" where
  "ev_part q = (\<lambda>(a, n, bytes). ev_data q a n bytes)"

interpretation parts: reply_phase f_complete ev_part part_in "\<lambda>e. size_od e - num_parts_rec e" "\<lambda>_ _. True"
proof unfold_locales
  fix es e d and x :: "nat \<times> nat \<times> (nat \<Rightarrow> byte)"
  assume t: "in_tran es e d"
  obtain a n bytes where x: "x = (a, n, bytes)" by (cases x)
  have "in_tran es (part_in x e) (qt_set (q_id e) (part_in x) d)"
    by (rule in_tran_set [OF t]) (simp add: part_in_def x Let_def)
  moreover have "dc_process (ev_part (q_id e) x) d = Some (0, qt_set (q_id e) (part_in x) d)"
    by (simp add: dc_process_def ev_part_def x obj_data_get_completion_def part_in_def)
  ultimately show "\<exists>d'. dc_process (ev_part (q_id e) x) d = Some (0, d') \<and> in_tran es (part_in x e) d' \<and> True \<and>
    tran_frame d d' \<and> c_sent d' = c_sent d"
    by (intro exI [of _ "qt_set (q_id e) (part_in x) d"]) simp
qed (auto simp: part_in_def Let_def split: prod.splits)

text \<open>After the data of every part has arrived once, each part holds the bytes sent for it.\<close>

lemma fold_part_in_list:
  "od_list (fold part_in (map (\<lambda>a. (a, n a, B a)) as) e) =
     fold (\<lambda>a. map (\<lambda>od. if od_addr od = a then od\<lparr>data := memcpy (data od) 0 (B a) 0 (n a)\<rparr> else od)) as (od_list e)"
  by (induction as arbitrary: e) (simp_all add: part_in_def Let_def)

lemma fold_parts:
  assumes "distinct as"
  shows "fold (\<lambda>a. map (\<lambda>od. if od_addr od = a then od\<lparr>data := memcpy (data od) 0 (B a) 0 (n a)\<rparr> else od)) as ods =
    map (\<lambda>od. if od_addr od \<in> set as then od\<lparr>data := memcpy (data od) 0 (B (od_addr od)) 0 (n (od_addr od))\<rparr> else od) ods"
  using assms by (induction as arbitrary: ods) auto

lemma fold_part_in_id [simp]: "q_id (fold part_in xs e) = q_id e"
  by (induction xs arbitrary: e) (auto simp: part_in_def Let_def split: prod.splits)

subsection \<open>The whole transaction\<close>

definition client_ok :: "dcg_space \<Rightarrow> bool" where
  "client_ok d \<longleftrightarrow> c_rc d = (\<lambda>_. 0) \<and> (\<forall>e\<in>set (c_qt d). q_id e < c_next_qid d)"

definition new_tran :: "obj_data \<Rightarrow> dcg_space \<Rightarrow> query_tran_entry" where
  "new_tran od d =
     \<lparr>q_id = c_next_qid d, q_obj = obj_desc od, size_od = 0, num_od = 0, num_parts_rec = 0, od_list = [],
      qh = \<lparr>qh_size = c_num_sp d + 1, qh_num_peer = 0, qh_num_req_posted = 0, qh_num_rep_received = 0,
            qh_peerid_tab = (\<lambda>_. 0)\<rparr>,
      q_gdim = od_gdim od, f_alloc_data = True, f_peer_received = False, f_odsc_recv = False,
      f_complete = False, f_err = False\<rparr>"

definition get_header :: "obj_data \<Rightarrow> dcg_space \<Rightarrow> hdr_obj_get" where
  "get_header od d =
     \<lparr>oh_qid = c_next_qid d, oh_rank = c_id d, oh_rc = 0, oh_odsc = obj_desc od, oh_gdim = od_gdim od\<rparr>"

definition get_parts :: "obj_data \<Rightarrow> dcg_space \<Rightarrow> obj_descriptor list list \<Rightarrow> obj_data list" where
  "get_parts od d tabs = add_parts (od_st (obj_desc od)) (c_brk d) (concat tabs) []"

lemma start_tran:
  assumes "client_ok d"
  obtains d1 where "qte_alloc od True d = (Some (new_tran od d), d1)"
    "in_tran (c_qt d) (new_tran od d) (versions_reset (qt_add (new_tran od d) d1))"
    "c_sent d1 = c_sent d" "c_brk d1 = c_brk d" "c_id d1 = c_id d" "c_num_sp d1 = c_num_sp d" "c_buf d1 = c_buf d"
    "c_next_qid d1 = c_next_qid d + 1"
proof -
  let ?d = "d\<lparr>c_calls := c_calls d + 2, c_next_qid := c_next_qid d + 1\<rparr>"
  have rc: "c_rc d = (\<lambda>_. 0)" using assms by (simp add: client_ok_def)
  have "qte_alloc od True d = (Some (new_tran od d), ?d)"
    using rc by (simp add: qte_alloc_def c_attempt_def qt_gen_qid_def qh_alloc_def new_tran_def)
  moreover have "in_tran (c_qt d) (new_tran od d) (versions_reset (qt_add (new_tran od d) ?d))"
    using assms by (auto simp: in_tran_def versions_reset_def qt_add_def client_ok_def new_tran_def)
  ultimately show ?thesis using that by simp
qed

lemma remove_tran:
  assumes "in_tran es e d"
  shows "c_qt (out_no_data (q_id e) d) = es" "c_rc (out_no_data (q_id e) d) = (\<lambda>_. 0)"
    "c_sent (out_no_data (q_id e) d) = c_sent d" "c_next_qid (out_no_data (q_id e) d) = c_next_qid d"
proof -
  have id: "q_id (fold (\<lambda>od. qt_remove_obj (od_addr od)) ods e') = q_id e'" for ods and e' :: query_tran_entry
    by (induction ods arbitrary: e') (simp_all add: qt_remove_obj_def)
  have t: "in_tran es (qt_free_obj_data True e) (qt_set (q_id e) (qt_free_obj_data True) d)"
    by (rule in_tran_set [OF assms]) (simp add: qt_free_obj_data_def id)
  have "filter (\<lambda>x. q_id x \<noteq> q_id e) es = es"
    using assms by (auto simp: in_tran_def filter_id_conv image_iff)
  then show "c_qt (out_no_data (q_id e) d) = es" "c_rc (out_no_data (q_id e) d) = (\<lambda>_. 0)"
    "c_sent (out_no_data (q_id e) d) = c_sent d" "c_next_qid (out_no_data (q_id e) d) = c_next_qid d"
    using t assms by (simp_all add: out_no_data_def qt_remove_def in_tran_def qt_free_obj_data_def id qt_set_def)
qed

lemma get_obj_descriptors_ok:
  assumes "in_tran es e d" "map (qh_peerid_tab (qh e)) [0..<qh_size (qh e)] = ps @ - 1 # junk" "- 1 \<notin> set ps"
  obtains d' k where "get_obj_descriptors (q_id e) d = Some (0, d')"
    "in_tran es (e\<lparr>f_odsc_recv := False, qh := (qh e)\<lparr>qh_num_req_posted := k\<rparr>\<rparr>) d'" "tran_frame d d'"
    "c_brk d' = c_brk d" "c_sent d' = c_sent d @ map (\<lambda>p. (p, C_get_desc (qt_header d e))) ps"
proof -
  let ?f = "\<lambda>e :: query_tran_entry. e\<lparr>f_odsc_recv := False\<rparr>"
  have t: "in_tran es (?f e) (qt_set (q_id e) ?f d)" by (rule in_tran_set [OF assms(1)]) simp
  have q: "q_id (?f e) = q_id e" by simp
  obtain d' k where I: "get_desc_loop (ps @ - 1 # junk) e (qt_set (q_id e) ?f d) = Some (0, d')"
    "in_tran es ((?f e)\<lparr>qh := (qh (?f e))\<lparr>qh_num_req_posted := k\<rparr>\<rparr>) d'" "tran_frame (qt_set (q_id e) ?f d) d'"
    "c_brk d' = c_brk (qt_set (q_id e) ?f d)"
    "c_sent d' = c_sent (qt_set (q_id e) ?f d) @ map (\<lambda>p. (p, C_get_desc (qt_header (qt_set (q_id e) ?f d) e))) ps"
    using get_desc_loop_ok [OF t q assms(3)] by blast
  have "tran_frame d d'" by (rule tran_frame_trans [OF _ I(3)]) simp
  then show ?thesis
    using that [of d' k] I assms(1,2) by (simp add: get_obj_descriptors_def)
qed

lemma peer_table:
  assumes "takeWhile (\<lambda>p. p \<noteq> - 1) (map tab [0..<n + 1]) = ps" "length ps \<le> n"
  obtains junk where "map tab [0..<n + 1] = ps @ - 1 # junk" "- 1 \<notin> set ps"
    "length (takeWhile (\<lambda>i. tab i \<noteq> - 1) [0..<n + 1]) = length ps"
proof -
  define l where "l = map tab [0..<n + 1]"
  define r where "r = dropWhile (\<lambda>p. p \<noteq> - 1) l"
  have a: "l = ps @ r" using assms(1) takeWhile_dropWhile_id unfolding l_def r_def by metis
  have "length l = n + 1" by (simp add: l_def)
  then have ne: "r \<noteq> []" using a assms(2) by auto
  then have "hd r = - 1" using hd_dropWhile unfolding r_def by blast
  then have "map tab [0..<n + 1] = ps @ - 1 # tl r" using a ne unfolding l_def [symmetric] by (metis list.collapse)
  moreover have "- 1 \<notin> set ps" using assms(1) set_takeWhileD by force
  moreover have "length (takeWhile (\<lambda>i. tab i \<noteq> - 1) [0..<n + 1]) = length ps"
    using assms(1) by (metis (no_types, lifting) comp_def length_map takeWhile_cong takeWhile_map)
  ultimately show ?thesis using that by blast
qed

text \<open>The state of the transaction when it waits for the tables of descriptors.\<close>

definition asked_tran :: "obj_data \<Rightarrow> dcg_space \<Rightarrow> (nat \<Rightarrow> int) \<Rightarrow> nat \<Rightarrow> query_tran_entry" where
  "asked_tran od d tab k =
     (let e = peers_in tab (new_tran od d) in e\<lparr>f_odsc_recv := False, qh := (qh e)\<lparr>qh_num_req_posted := k\<rparr>\<rparr>)"

text \<open>The first half of a get: up to the arrival of all tables of descriptors.\<close>

lemma get_first_half:
  assumes "client_ok d" "takeWhile (\<lambda>p. p \<noteq> - 1) (map tab [0..<c_num_sp d + 1]) = ps" "length ps \<le> c_num_sp d"
    "ps \<noteq> []" "length tabs = length ps"
    "replies evs = ev_peers (c_next_qid d) tab # map (ev_desc_tab (c_next_qid d)) tabs @ evs'"
  obtains d1 d2 d3 d4 d5 k evs3 evs5 where
    "qte_alloc od True d = (Some (new_tran od d), d1)"
    "get_dht_peers (c_next_qid d) (versions_reset (qt_add (new_tran od d) d1)) = Some (0, d2)"
    "dc_wait (qt_flag f_peer_received (c_next_qid d)) evs d2 = Some (0, d3, evs3)"
    "get_obj_descriptors (c_next_qid d) d3 = Some (0, d4)"
    "dc_wait (qt_flag f_odsc_recv (c_next_qid d)) evs3 d4 = Some (0, d5, evs5)"
    "replies evs5 = evs'" "in_tran (c_qt d) (fold (desc_in (c_brk d)) tabs (asked_tran od d tab k)) d5"
    "parts_ok (c_brk d) (fold (desc_in (c_brk d)) tabs (asked_tran od d tab k)) d5"
    "c_buf d5 = c_buf d" "c_next_qid d5 = c_next_qid d + 1"
    "c_sent d5 = c_sent d @ (dcg_which_peer d, C_get_dht_peers (get_header od d)) #
       map (\<lambda>p. (p, C_get_desc (get_header od d))) ps"
proof -
  let ?e0 = "new_tran od d" and ?e1 = "peers_in tab (new_tran od d)"
  have id: "q_id ?e0 = c_next_qid d" "q_id ?e1 = c_next_qid d" by (simp_all add: new_tran_def peers_in_def)
  obtain d1 where d1: "qte_alloc od True d = (Some ?e0, d1)"
    "in_tran (c_qt d) ?e0 (versions_reset (qt_add ?e0 d1))"
    "c_sent d1 = c_sent d" "c_brk d1 = c_brk d" "c_id d1 = c_id d" "c_num_sp d1 = c_num_sp d" "c_buf d1 = c_buf d"
    "c_next_qid d1 = c_next_qid d + 1"
    using start_tran [OF assms(1)] by metis
  let ?d1 = "versions_reset (qt_add ?e0 d1)"
  have s1: "c_sent ?d1 = c_sent d" "c_brk ?d1 = c_brk d" "c_id ?d1 = c_id d" "c_num_sp ?d1 = c_num_sp d"
    "c_buf ?d1 = c_buf d" "c_next_qid ?d1 = c_next_qid d + 1"
    using d1 by (simp_all add: versions_reset_def qt_add_def)
  have hd: "qt_header ?d1 ?e0 = get_header od d" "dcg_which_peer ?d1 = dcg_which_peer d"
    using s1 by (simp_all add: qt_header_def get_header_def new_tran_def dcg_which_peer_def)
  let ?d2 = "?d1\<lparr>c_calls := c_calls ?d1 + 2, c_sent := c_sent d @ [(dcg_which_peer d, C_get_dht_peers (get_header od d))]\<rparr>"
  have d2: "get_dht_peers (c_next_qid d) ?d1 = Some (0, ?d2)"
    using get_dht_peers_ok [OF d1(2)] unfolding id hd s1(1) .
  have t2: "in_tran (c_qt d) ?e0 ?d2" using d1(2) by simp
  have np: "\<not> f_peer_received ?e0" by (simp add: new_tran_def)
  have r: "replies evs = ev_peers (q_id ?e0) tab # (map (ev_desc_tab (c_next_qid d)) tabs @ evs')"
    using assms(6) id(1) by simp
  obtain d3 evs3 where d3: "dc_wait (qt_flag f_peer_received (c_next_qid d)) evs ?d2 = Some (0, d3, evs3)"
    "replies evs3 = map (ev_desc_tab (c_next_qid d)) tabs @ evs'" "in_tran (c_qt d) ?e1 d3" "tran_step ?d2 d3"
    using wait_peers [OF t2 np r] unfolding id(1) by metis
  have qh1: "qh_size (qh ?e1) = c_num_sp d + 1"
    "qh_num_peer (qh ?e1) = length (takeWhile (\<lambda>i. tab i \<noteq> - 1) [0..<c_num_sp d + 1])"
    "qh_num_rep_received (qh ?e1) = 0" "od_list ?e1 = []" "num_od ?e1 = 0" "size_od ?e1 = 0"
    "map (qh_peerid_tab (qh ?e1)) [0..<c_num_sp d + 1] = map tab [0..<c_num_sp d + 1]"
    by (simp_all add: peers_in_def new_tran_def)
  obtain junk where j: "map tab [0..<c_num_sp d + 1] = ps @ - 1 # junk" "- 1 \<notin> set ps"
    "length (takeWhile (\<lambda>i. tab i \<noteq> - 1) [0..<c_num_sp d + 1]) = length ps"
    using peer_table [OF assms(2,3)] by metis
  have pt: "map (qh_peerid_tab (qh ?e1)) [0..<qh_size (qh ?e1)] = ps @ - 1 # junk"
    using j(1) unfolding qh1(1,7) .
  obtain d4 k where d4: "get_obj_descriptors (c_next_qid d) d3 = Some (0, d4)"
    "in_tran (c_qt d) (asked_tran od d tab k) d4" "tran_frame d3 d4"
    "c_brk d4 = c_brk d3" "c_sent d4 = c_sent d3 @ map (\<lambda>p. (p, C_get_desc (qt_header d3 ?e1))) ps"
    using get_obj_descriptors_ok [OF d3(3) pt j(2)] unfolding id(2) asked_tran_def Let_def by metis
  let ?e4 = "asked_tran od d tab k"
  have e4: "q_id ?e4 = c_next_qid d" "parts_ok (c_brk d) ?e4 d4" "\<not> f_odsc_recv ?e4"
    "int (qh_num_peer (qh ?e4)) - int (qh_num_rep_received (qh ?e4)) = int (length tabs)"
    using id(2) qh1 j(3) assms(5) d3(4) d4(4) s1(2)
    by (simp_all add: asked_tran_def Let_def parts_ok_def tran_step_def)
  have tn: "tabs \<noteq> []" using assms(4,5) by auto
  have r4: "replies evs3 = map (ev_desc_tab (q_id ?e4)) tabs @ evs'" using d3(2) e4(1) by simp
  obtain d5 evs5 where d5: "dc_wait (qt_flag f_odsc_recv (c_next_qid d)) evs3 d4 = Some (0, d5, evs5)"
    "replies evs5 = evs'" "in_tran (c_qt d) (fold (desc_in (c_brk d)) tabs ?e4) d5"
    "parts_ok (c_brk d) (fold (desc_in (c_brk d)) tabs ?e4) d5" "tran_frame d4 d5" "c_sent d5 = c_sent d4"
    using descs.all_replies [OF d4(2) e4(2,3) tn e4(4) r4] unfolding e4(1) by blast
  have fr: "tran_frame ?d2 d5"
    using tran_frame_trans [OF tran_frame_trans [OF _ d4(3)] d5(5)] d3(4) by (simp add: tran_step_def)
  have s5: "c_buf d5 = c_buf d" "c_next_qid d5 = c_next_qid d + 1"
    using fr s1(5,6) by (simp_all add: tran_frame_def)
  have hd3: "qt_header d3 ?e1 = get_header od d"
    using d3(4) s1(3) by (simp add: qt_header_def get_header_def peers_in_def new_tran_def tran_step_def tran_frame_def)
  have "c_sent d5 = c_sent d @ (dcg_which_peer d, C_get_dht_peers (get_header od d)) #
       map (\<lambda>p. (p, C_get_desc (get_header od d))) ps"
    using d5(6) d4(5) d3(4) hd3 by (simp add: tran_step_def)
  then show ?thesis using that [OF d1(1) d2 d3(1) d4(1) d5(1,2,3,4) s5] by blast
qed

definition filled :: "(nat \<Rightarrow> byte) \<Rightarrow> (nat \<Rightarrow> nat) \<Rightarrow> (nat \<Rightarrow> nat \<Rightarrow> byte) \<Rightarrow> obj_data \<Rightarrow> obj_data" where
  "filled buf n B od = od\<lparr>data := memcpy buf 0 (B (od_addr od)) 0 (n (od_addr od))\<rparr>"

text \<open>The second half: the data of the parts, in any order.\<close>

lemma get_second_half:
  assumes "in_tran es e d" "parts_ok b e d" "\<not> f_complete e" "num_parts_rec e = 0" "od_list e \<noteq> []"
    "distinct (map od_addr (od_list e))" "mset as = mset (map od_addr (od_list e))"
    "replies evs = map (\<lambda>a. ev_data (q_id e) a (n a) (B a)) as @ evs'"
  obtains d1 d2 evs2 e2 where "dcg_obj_data_get (q_id e) d = Some (0, d1)"
    "dc_while (qt_flag f_complete (q_id e)) evs d1 = Some (0, d2, evs2)" "replies evs2 = evs'"
    "in_tran es e2 d2" "q_id e2 = q_id e" "f_complete e2" "od_list e2 = map (filled (c_buf d) n B) (od_list e)"
    "tran_frame d d2" "c_sent d2 = c_sent d @ map (part_request e) (od_list e)"
proof -
  have no: "num_od e = int (length (od_list e))" using assms(2) by (simp add: parts_ok_def)
  obtain d1 where d1: "dcg_obj_data_get (q_id e) d = Some (0, d1)" "in_tran es (alloc_parts (c_buf d) e) d1"
    "tran_frame d d1" "c_sent d1 = c_sent d @ map (part_request e) (od_list e)"
    using dcg_obj_data_get_ok [OF assms(1) no] by metis
  let ?e = "alloc_parts (c_buf d) e" and ?xs = "map (\<lambda>a. (a, n a, B a)) as"
  have e: "q_id ?e = q_id e" "\<not> f_complete ?e" "od_list ?e = map (\<lambda>od. od\<lparr>data := c_buf d\<rparr>) (od_list e)"
    using assms(3) by (simp_all add: alloc_parts_def)
  have len: "length as = length (od_list e)" using assms(7) mset_eq_length by fastforce
  have m: "size_od ?e - num_parts_rec ?e = int (length ?xs)" "?xs \<noteq> []"
    using assms(2,4,5) len by (auto simp: alloc_parts_def parts_ok_def)
  have r: "replies evs = map (ev_part (q_id ?e)) ?xs @ evs'" using assms(8) e(1) by (simp add: ev_part_def)
  have c: "\<not> qt_flag f_complete (q_id e) d1" using in_tran_flag [OF d1(2), of f_complete] e(1,2) by simp
  obtain d2 evs2 where d2: "dc_wait (qt_flag f_complete (q_id e)) evs d1 = Some (0, d2, evs2)"
    "replies evs2 = evs'" "in_tran es (fold part_in ?xs ?e) d2" "tran_frame d1 d2" "c_sent d2 = c_sent d1"
    using parts.all_replies [OF d1(2) TrueI e(2) m(2,1) r] unfolding e(1) by blast
  have fc: "f_complete (fold part_in ?xs ?e)" by (rule parts.last_reply [OF m(2,1)])
  have ds: "distinct as" "set as = od_addr ` set (od_list e)"
    using assms(6,7) by (metis mset_eq_imp_distinct_iff, metis mset_eq_setD set_map)
  have "od_list (fold part_in ?xs ?e) = map (filled (c_buf d) n B) (od_list e)"
    unfolding fold_part_in_list fold_parts [OF ds(1)] e(3) ds(2) by (simp add: filled_def)
  then show ?thesis
    using that [OF d1(1) _ d2(2,3) _ fc] c d2(1) e(1) tran_frame_trans [OF d1(3) d2(4)] d2(5) d1(4)
    by (simp add: dc_while_def)
qed

lemma get_parts_addr: "distinct (map od_addr (get_parts od d tabs))"
  using add_parts_addr [of "[]" "c_brk d"] by (simp add: get_parts_def)

definition get_requests :: "obj_data \<Rightarrow> dcg_space \<Rightarrow> int list \<Rightarrow> obj_descriptor list list \<Rightarrow> (int \<times> cl_msg) list" where
  "get_requests od d ps tabs =
     (dcg_which_peer d, C_get_dht_peers (get_header od d)) #
     map (\<lambda>p. (p, C_get_desc (get_header od d))) ps @ map (part_request (new_tran od d)) (get_parts od d tabs)"

lemma dcg_obj_get_run:
  assumes "client_ok d" "takeWhile (\<lambda>p. p \<noteq> - 1) (map tab [0..<c_num_sp d + 1]) = ps" "length ps \<le> c_num_sp d"
    "ps \<noteq> []" "length tabs = length ps" "get_parts od d tabs \<noteq> []"
    "mset as = mset (map od_addr (get_parts od d tabs))"
    "replies evs = ev_peers (c_next_qid d) tab # map (ev_desc_tab (c_next_qid d)) tabs @
       map (\<lambda>a. ev_data (c_next_qid d) a (n a) (B a)) as"
    "ssd_copy_list c0 od (map (filled (c_buf d) n B) (get_parts od d tabs)) = Some od'"
  shows "\<exists>d' rest. dcg_obj_get c0 od evs d = Some (0, od', d', rest) \<and> replies rest = [] \<and> client_ok d' \<and>
    c_qt d' = c_qt d \<and> c_sent d' = c_sent d @ get_requests od d ps tabs"
proof -
  obtain d1 d2 d3 d4 d5 k evs3 evs5 where H:
    "qte_alloc od True d = (Some (new_tran od d), d1)"
    "get_dht_peers (c_next_qid d) (versions_reset (qt_add (new_tran od d) d1)) = Some (0, d2)"
    "dc_wait (qt_flag f_peer_received (c_next_qid d)) evs d2 = Some (0, d3, evs3)"
    "get_obj_descriptors (c_next_qid d) d3 = Some (0, d4)"
    "dc_wait (qt_flag f_odsc_recv (c_next_qid d)) evs3 d4 = Some (0, d5, evs5)"
    "replies evs5 = map (\<lambda>a. ev_data (c_next_qid d) a (n a) (B a)) as"
    "in_tran (c_qt d) (fold (desc_in (c_brk d)) tabs (asked_tran od d tab k)) d5"
    "parts_ok (c_brk d) (fold (desc_in (c_brk d)) tabs (asked_tran od d tab k)) d5"
    "c_buf d5 = c_buf d" "c_next_qid d5 = c_next_qid d + 1"
    "c_sent d5 = c_sent d @ (dcg_which_peer d, C_get_dht_peers (get_header od d)) #
       map (\<lambda>p. (p, C_get_desc (get_header od d))) ps"
    by (rule get_first_half [OF assms(1-5,8)]) (rule that)
  define e where "e = fold (desc_in (c_brk d)) tabs (asked_tran od d tab k)"
  have e: "q_id e = c_next_qid d" "q_obj e = obj_desc od" "q_gdim e = od_gdim od" "od_list e = get_parts od d tabs"
    "\<not> f_err e" "\<not> f_complete e" "num_parts_rec e = 0"
    by (simp_all add: e_def asked_tran_def Let_def peers_in_def new_tran_def get_parts_def)
  have pr: "part_request e = part_request (new_tran od d)"
    using e by (auto simp: part_request_def new_tran_def fun_eq_iff)
  have t5: "in_tran (c_qt d) e d5" "parts_ok (c_brk d) e d5" using H(7,8) by (simp_all add: e_def)
  have ne: "od_list e \<noteq> []" "distinct (map od_addr (od_list e))" "mset as = mset (map od_addr (od_list e))"
    using assms(6,7) get_parts_addr e(4) by auto
  have r: "replies evs5 = map (\<lambda>a. ev_data (q_id e) a (n a) (B a)) as @ []" using H(6) e(1) by simp
  obtain d6 d7 evs7 e7 where G: "dcg_obj_data_get (c_next_qid d) d5 = Some (0, d6)"
    "dc_while (qt_flag f_complete (c_next_qid d)) evs5 d6 = Some (0, d7, evs7)" "replies evs7 = []"
    "in_tran (c_qt d) e7 d7" "q_id e7 = c_next_qid d" "f_complete e7"
    "od_list e7 = map (filled (c_buf d) n B) (get_parts od d tabs)"
    "tran_frame d5 d7" "c_sent d7 = c_sent d5 @ map (part_request e) (get_parts od d tabs)"
    by (rule get_second_half [OF t5 e(6,7) ne r, unfolded e(1,4) H(9)]) (rule that)
  have fl: "\<not> qt_flag f_err (c_next_qid d) d5" "qt_flag f_complete (c_next_qid d) d7"
    using in_tran_flag [OF t5(1), of f_err] in_tran_flag [OF G(4), of f_complete] e(1,5) G(5,6) by auto
  have asm: "dcg_obj_assemble c0 (c_next_qid d) od d7 = Some od'"
    using in_tran_find [OF G(4)] G(5,7) assms(9) by (simp add: dcg_obj_assemble_def)
  have id: "q_id (new_tran od d) = c_next_qid d" by (simp add: new_tran_def)
  have run: "dcg_obj_get c0 od evs d = Some (0, od', out_no_data (c_next_qid d) d7, evs7)"
    using H(1-5) G(1,2) fl asm id by (simp add: dcg_obj_get_def Let_def)
  note rem = remove_tran [OF G(4), unfolded G(5)]
  have "client_ok (out_no_data (c_next_qid d) d7)"
    using rem assms(1) H(10) G(8) by (auto simp: client_ok_def tran_frame_def intro: less_trans)
  moreover have "c_sent (out_no_data (c_next_qid d) d7) = c_sent d @ get_requests od d ps tabs"
    using rem(3) G(9) H(11) pr by (simp add: get_requests_def)
  ultimately show ?thesis using run G(3) rem(1) by blast
qed

end
