(* ===== verification/DS_System.thy ===== *)
theory DS_System
  imports DS_Cluster DS_Get
begin

text \<open>
  Servers and client together: the messages of a get connect the transaction of the client
  (\<open>DS_Get\<close>) with the servers it asks (\<open>DS_Cluster\<close>). A query for a version of a variable that was put
  completely returns the bytes that were put.
\<close>

subsection \<open>Messages\<close>

text \<open>A request of the client as the call of the server, and the answer of the server as an event of the client.\<close>

definition request_rpc :: "int \<Rightarrow> cl_msg \<Rightarrow> srv_rpc option" where
  "request_rpc cid req =
     (case req of
        C_get_dht_peers oh \<Rightarrow> Some (ss_obj_get_dht_peers cid oh)
      | C_get_desc oh \<Rightarrow> Some (ss_obj_get_desc cid oh)
      | C_get oh a \<Rightarrow> Some (ss_obj_get cid oh)
      | _ \<Rightarrow> None)"

definition client_event :: "cl_msg \<Rightarrow> srv_msg \<Rightarrow> dc_event option" where
  "client_event req msg =
     (case req of
        C_get_dht_peers oh \<Rightarrow> (case msg of M_dht_peers tab \<Rightarrow> Some (ev_peers (oh_qid oh) (\<lambda>i. tab ! i)) | _ \<Rightarrow> None)
      | C_get_desc oh \<Rightarrow>
          (case msg of
             M_obj_get_desc q ds \<Rightarrow> Some (ev_desc_tab q ds)
           | M_obj_get_desc_fail q vs \<Rightarrow> Some (ev_get_desc (- ENOENT) q vs)
           | _ \<Rightarrow> None)
      | C_get oh a \<Rightarrow> (case msg of M_obj_data n A \<Rightarrow> Some (ev_data (oh_qid oh) a (unat n) A) | _ \<Rightarrow> None)
      | _ \<Rightarrow> None)"

text \<open>A server handles a request; the one message it sends back is the answer.\<close>

definition serve :: "int \<Rightarrow> cl_msg \<Rightarrow> ds_gspace \<Rightarrow> (dc_event \<times> ds_gspace) option" where
  "serve cid req g = do {
     rpc \<leftarrow> request_rpc cid req;
     (err, g') \<leftarrow> dsg_service rpc g;
     case drop (length (g_sent g)) (g_sent g') of
       [(c, msg)] \<Rightarrow> if c = cid then map_option (\<lambda>ev. (ev, g')) (client_event req msg) else None
     | _ \<Rightarrow> None
   }"

lemma serve_step:
  assumes "request_rpc cid req = Some rpc" "dsg_service rpc g = Some (err, g')"
    "member_step ss0 g [(cid, msg)] g'" "client_event req msg = Some ev"
  shows "serve cid req g = Some (ev, g')"
  using assms by (simp add: serve_def member_step_def)

lemma serve_peers:
  assumes "srv_member ss0 gd r g" "v2_ok ss0" "oh_gdim oh = gd"
  obtains g' tab where "serve cid (C_get_dht_peers oh) g = Some (ev_peers (oh_qid oh) (\<lambda>i. tab ! i), g')"
    "length tab = num_entries (dht ss0) + 1"
    "takeWhile (\<lambda>q. q \<noteq> - 1) tab = map int (hash_v2 ss0 (od_bb (oh_odsc oh)))"
proof -
  obtain g' tab where m: "dsgrpc_obj_send_dht_peers cid oh g = Some (0, g')"
    "member_step ss0 g [(cid, M_dht_peers tab)] g'" "length tab = num_entries (dht ss0) + 1"
    "takeWhile (\<lambda>q. q \<noteq> - 1) tab = map int (hash_v2 ss0 (od_bb (oh_odsc oh)))"
    using member_peers [OF assms] by blast
  have "serve cid (C_get_dht_peers oh) g = Some (ev_peers (oh_qid oh) (\<lambda>i. tab ! i), g')"
    by (rule serve_step [where rpc = "ss_obj_get_dht_peers cid oh" and err = 0, OF _ _ m(2)]) (use m(1) in \<open>simp_all add: request_rpc_def client_event_def dsg_service_def\<close>)
  then show ?thesis using that m by blast
qed

lemma serve_desc:
  assumes "srv_member ss0 gd r g" "oh_gdim oh = gd" "dht_find_entry_all (self_of (g_ssd g)) (oh_odsc oh) \<noteq> []"
  obtains g' where "serve cid (C_get_desc oh) g = Some (ev_desc_tab (oh_qid oh)
    (map (reply_desc (oh_odsc oh)) (dht_find_entry_all (self_of (g_ssd g)) (oh_odsc oh))), g')"
proof -
  obtain g' where m: "dsgrpc_obj_get_desc cid oh g = Some (0, g')"
    "member_step ss0 g [(cid, desc_reply (self_of (g_ssd g)) oh)] g'"
    using member_get_desc [OF assms(1,2)] by blast
  have "serve cid (C_get_desc oh) g = Some (ev_desc_tab (oh_qid oh)
    (map (reply_desc (oh_odsc oh)) (dht_find_entry_all (self_of (g_ssd g)) (oh_odsc oh))), g')"
    by (rule serve_step [where rpc = "ss_obj_get_desc cid oh" and err = 0, OF _ _ m(2)])
      (use m(1) assms(3) in \<open>simp_all add: request_rpc_def client_event_def desc_reply_def dsg_service_def\<close>)
  then show ?thesis using that by blast
qed

lemma serve_get:
  assumes "srv_member ss0 gd r g" "ls_find (g_ls g) (oh_odsc oh) = Some od"
    "\<And>to. obj_desc to = oh_odsc oh \<Longrightarrow> copy_compat to od"
  obtains g' A where "serve cid (C_get oh a) g = Some (ev_data (oh_qid oh) a (unat (obj_data_size (oh_odsc oh))) A, g')"
    "part_cells (oh_odsc oh) A od"
proof -
  obtain g' A where m: "dsgrpc_obj_get cid oh g = Some (0, g')"
    "member_step ss0 g [(cid, M_obj_data (obj_data_size (oh_odsc oh)) A)] g'" "part_cells (oh_odsc oh) A od"
    using member_get [OF assms] by blast
  have "serve cid (C_get oh a) g = Some (ev_data (oh_qid oh) a (unat (obj_data_size (oh_odsc oh))) A, g')"
    by (rule serve_step [where rpc = "ss_obj_get cid oh" and err = 0, OF _ _ m(2)]) (use m(1) in \<open>simp_all add: request_rpc_def client_event_def dsg_service_def\<close>)
  then show ?thesis using that m(3) by blast
qed

subsection \<open>A field that was put completely\<close>

definition is_part :: "obj_descriptor \<Rightarrow> put_rec \<Rightarrow> bool" where
  "is_part Q r \<longleftrightarrow> od_name (put_desc r) = od_name Q \<and> od_version (put_desc r) = od_version Q"

text \<open>Byte \<open>t\<close> of the element that a put gives for cell \<open>x\<close>.\<close>

definition put_byte :: "put_rec \<Rightarrow> coord \<Rightarrow> nat \<Rightarrow> byte" where
  "put_byte r x t = snd (snd r) (unat (od_size (put_desc r)) * cell_index (od_bb (put_desc r)) x + t)"

definition query_ok :: "global_dimension \<Rightarrow> obj_descriptor \<Rightarrow> bool" where
  "query_ok gd Q \<longleftrightarrow> 1 \<le> num_dims (od_bb Q) \<and> num_dims (od_bb Q) \<le> 9 \<and> num_dims (od_bb Q) = ndim gd \<and>
     obj_fits (od_bb Q) (unat (od_size Q)) \<and> (\<forall>x. in_bbox (od_bb Q) x \<longrightarrow> in_bbox (gdim_domain gd) x)"

text \<open>
  The puts of the queried version are not replaced by later puts and not cut by each other, have its
  element size, fit into memory, and cover the box of the query.
\<close>

definition complete_field :: "nat \<Rightarrow> put_rec list \<Rightarrow> obj_descriptor \<Rightarrow> bool" where
  "complete_field m H Q \<longleftrightarrow>
     (\<forall>i<length H. is_part Q (H ! i) \<longrightarrow> put_live m H i \<and> od_size (put_desc (H ! i)) = od_size Q \<and>
        num_dims (od_bb (put_desc (H ! i))) = num_dims (od_bb Q) \<and>
        obj_fits (od_bb (put_desc (H ! i))) (unat (od_size Q))) \<and>
     (\<forall>x. in_bbox (od_bb Q) x \<longrightarrow> (\<exists>r\<in>set H. is_part Q r \<and> in_bbox (od_bb (put_desc r)) x))"

lemma complete_field_part:
  assumes "complete_field m H Q" "r \<in> set H" "is_part Q r"
  shows "od_size (put_desc r) = od_size Q" "num_dims (od_bb (put_desc r)) = num_dims (od_bb Q)"
    "obj_fits (od_bb (put_desc r)) (unat (od_size Q))"
  using assms unfolding complete_field_def in_set_conv_nth by blast+

lemma parts_disjoint:
  assumes "complete_field m H Q" "i < length H" "j < length H" "is_part Q (H ! i)" "is_part Q (H ! j)"
    "in_bbox (od_bb (put_desc (H ! i))) x" "in_bbox (od_bb (put_desc (H ! j))) x"
  shows "i = j"
  using assms
proof (induction i j rule: linorder_wlog)
  case (le i j)
  show ?case
  proof (rule ccontr)
    assume "i \<noteq> j"
    then have "i < j" using le by simp
    moreover have "put_slot m (H ! j) = put_slot m (H ! i)" using le by (simp add: put_slot_def is_part_def)
    moreover have "put_live m H i" using le by (simp add: complete_field_def)
    ultimately have "\<not> obj_desc_by_name_intersect (put_desc (H ! j)) (put_desc (H ! i))"
      using le by (simp add: put_live_def)
    moreover have "bbox_does_intersect (od_bb (put_desc (H ! j))) (od_bb (put_desc (H ! i)))"
      using le by (intro bbox_does_intersectI [where x = x]) (auto simp: complete_field_def)
    ultimately show False using le by (simp add: obj_desc_by_name_intersect_def is_part_def)
  qed
qed metis

lemma part_unique:
  assumes "complete_field m H Q" "r \<in> set H" "r' \<in> set H" "is_part Q r" "is_part Q r'"
    "in_bbox (od_bb (put_desc r)) x" "in_bbox (od_bb (put_desc r')) x"
  shows "r = r'"
  using assms parts_disjoint [OF assms(1)] unfolding in_set_conv_nth by metis

text \<open>
  An entry a box is hashed to also gets every box around a certain cell of it, even if the leaf that
  meets the box is an empty one.
\<close>

lemma hash_v2_corner:
  assumes "v2_ok ss" "k \<in> set (hash_v2 ss b)" "bbox_wf b" "num_dims b = num_dims (bb_glb_domain (dht ss))"
  obtains x where "in_bbox b x" "\<And>b'. num_dims b' = num_dims b \<Longrightarrow> in_bbox b' x \<Longrightarrow> k \<in> set (hash_v2 ss b')"
proof -
  have k: "k < num_entries (dht ss)" using assms(2) by (auto simp: hash_v2_def)
  obtain E where E: "E \<in> set (de_boxes (ent_tab (dht ss) k))" "bbox_does_intersect b E"
    using assms(2) by (auto simp: hash_v2_def list_ex_iff)
  let ?x = "\<lambda>i. max (lb E i) (lb b i)"
  have I: "lb b i \<le> ub b i" "bbox_intersect_ondim b E i" if "i < num_dims b" for i
    using that assms(3) E(2) by (auto simp: bbox_wf_def bbox_does_intersect_def list_all_iff)
  have "in_bbox b ?x"
    using I by (auto simp: in_bbox_def bbox_intersect_ondim_def max_def)
  moreover have "k \<in> set (hash_v2 ss b')" if b': "num_dims b' = num_dims b" "in_bbox b' ?x" for b'
  proof -
    have "bbox_intersect_ondim b' E i" if i: "i < num_dims b" for i
      using I [OF i] b' i by (auto simp: in_bbox_def bbox_intersect_ondim_def max_def split: if_splits)
    then have "bbox_does_intersect b' E" using b'(1) by (simp add: bbox_does_intersect_def list_all_iff)
    then show ?thesis using k E(1) by (auto simp: hash_v2_def list_ex_iff)
  qed
  ultimately show ?thesis using that by blast
qed

subsection \<open>What the servers answer\<close>

text \<open>A part of the answer: the descriptor of a put, cut to the query.\<close>

definition part_desc :: "obj_descriptor \<Rightarrow> put_rec \<Rightarrow> obj_descriptor" where
  "part_desc Q r = reply_desc Q (put_desc r)"

definition part_of :: "put_rec list \<Rightarrow> obj_descriptor \<Rightarrow> obj_descriptor \<Rightarrow> bool" where
  "part_of H Q x \<longleftrightarrow> (\<exists>r\<in>set H. is_part Q r \<and> bbox_does_intersect (od_bb (put_desc r)) (od_bb Q) \<and> x = part_desc Q r)"

lemma part_desc_sel [simp]:
  "od_name (part_desc Q r) = od_name (put_desc r)" "od_version (part_desc Q r) = od_version (put_desc r)"
  "od_owner (part_desc Q r) = od_owner (put_desc r)" "od_size (part_desc Q r) = od_size (put_desc r)"
  "od_st (part_desc Q r) = od_st Q" "num_dims (od_bb (part_desc Q r)) = num_dims (od_bb Q)"
  by (simp_all add: part_desc_def reply_desc_def)

lemma in_part_desc:
  assumes "num_dims (od_bb (put_desc r)) = num_dims (od_bb Q)"
  shows "in_bbox (od_bb (part_desc Q r)) x \<longleftrightarrow> in_bbox (od_bb Q) x \<and> in_bbox (od_bb (put_desc r)) x"
  using in_bbox_intersect [of "od_bb Q" "od_bb (put_desc r)" "od_bb (put_desc r)" x] assms
  by (simp add: part_desc_def reply_desc_def)

lemma dir_finds_parts:
  assumes "dir_rel ss0 m H k de" "x \<in> set (dht_find_entry_all de Q)"
  obtains r where "r \<in> set H" "is_part Q r" "bbox_does_intersect (od_bb (put_desc r)) (od_bb Q)" "x = put_desc r"
proof -
  have x: "x \<in> set (odsc_hash de (de_index de Q))" "obj_desc_equals_intersect x Q"
    using assms(2) by (auto simp: dht_find_entry_all_def)
  obtain r where "r \<in> set H" "x = put_desc r" using assms(1) x(1) unfolding dir_rel_def by blast
  then show ?thesis using that [of r] x(2) by (simp add: is_part_def obj_desc_equals_intersect_def)
qed

lemma dir_finds_all:
  assumes "dir_rel ss0 m H k de" "complete_field m H Q" "r \<in> set H" "is_part Q r"
    "k \<in> set (hash_v2 ss0 (od_bb (put_desc r)))" "bbox_does_intersect (od_bb (put_desc r)) (od_bb Q)"
  shows "put_desc r \<in> set (dht_find_entry_all de Q)"
proof -
  obtain i where i: "i < length H" "H ! i = r" using assms(3) unfolding in_set_conv_nth by blast
  have "put_desc r \<in> set (odsc_hash de (put_slot m r))"
    using assms(1,2,4,5) i unfolding dir_rel_def complete_field_def by blast
  moreover have "de_index de Q = put_slot m r"
    using assms(1,4) by (simp add: de_index_def put_slot_def is_part_def dir_rel_def)
  ultimately show ?thesis
    using assms(4,6) by (simp add: dht_find_entry_all_def obj_desc_equals_intersect_def is_part_def)
qed

lemma dir_nonempty:
  assumes "dir_rel ss0 m H k de" "complete_field m H Q" "query_ok gd Q" "v2_ok ss0"
    "bb_glb_domain (dht ss0) = gdim_domain gd" "k \<in> set (hash_v2 ss0 (od_bb Q))"
  shows "dht_find_entry_all de Q \<noteq> []"
proof -
  have q: "bbox_wf (od_bb Q)" "num_dims (od_bb Q) = num_dims (bb_glb_domain (dht ss0))"
    using assms(3,5) by (auto simp: query_ok_def obj_fits_def gdim_domain_def)
  obtain x where x: "in_bbox (od_bb Q) x"
    "\<And>b'. num_dims b' = num_dims (od_bb Q) \<Longrightarrow> in_bbox b' x \<Longrightarrow> k \<in> set (hash_v2 ss0 b')"
    using hash_v2_corner [OF assms(4,6) q] by blast
  obtain r where r: "r \<in> set H" "is_part Q r" "in_bbox (od_bb (put_desc r)) x"
    using assms(2) x(1) by (auto simp: complete_field_def)
  note nd = complete_field_part(2) [OF assms(2) r(1,2)]
  have "bbox_does_intersect (od_bb (put_desc r)) (od_bb Q)" using nd r(3) x(1) by (rule bbox_does_intersectI)
  then have "put_desc r \<in> set (dht_find_entry_all de Q)"
    using dir_finds_all [OF assms(1,2) r(1,2)] x(2) [OF nd r(3)] by blast
  then show ?thesis by auto
qed

lemma obj_fits_subset:
  assumes "obj_fits b se" "bbox_wf c" "num_dims c = num_dims b" "\<And>i. i < num_dims b \<Longrightarrow> lb b i \<le> lb c i \<and> ub c i \<le> ub b i"
  shows "obj_fits c se"
proof -
  have "bbox_vol c \<le> bbox_vol b"
    unfolding bbox_vol_def assms(3)
  proof (rule prod_mono)
    fix i assume "i \<in> {..<num_dims b}"
    then have i: "lb b i \<le> lb c i" "ub c i \<le> ub b i" using assms(4) by auto
    then have "unat (lb b i) \<le> unat (lb c i)" "unat (ub c i) \<le> unat (ub b i)" by (simp_all add: word_le_nat_alt)
    then show "0 \<le> unat (ub c i) - unat (lb c i) + 1 \<and> unat (ub c i) - unat (lb c i) + 1 \<le> unat (ub b i) - unat (lb b i) + 1"
      by simp
  qed
  then show ?thesis
    using assms(1,2) le_less_trans [OF mult_le_mono1] by (auto simp: obj_fits_def)
qed

lemma part_desc_fits:
  assumes "complete_field m H Q" "r \<in> set H" "is_part Q r" "query_ok gd Q"
    "bbox_does_intersect (od_bb (put_desc r)) (od_bb Q)"
  shows "obj_fits (od_bb (part_desc Q r)) (unat (od_size Q))" "\<exists>x. in_bbox (od_bb (part_desc Q r)) x"
proof -
  note p = complete_field_part [OF assms(1-3)]
  have q: "obj_fits (od_bb Q) (unat (od_size Q))" using assms(4) by (simp add: query_ok_def)
  have "\<exists>x. in_bbox (od_bb (put_desc r)) x \<and> in_bbox (od_bb Q) x"
    using assms(5) bbox_does_intersect_iff [of "od_bb (put_desc r)" "od_bb Q"] p(2,3) q by (auto simp: obj_fits_def)
  then show ex: "\<exists>x. in_bbox (od_bb (part_desc Q r)) x" using in_part_desc [OF p(2)] by blast
  show "obj_fits (od_bb (part_desc Q r)) (unat (od_size Q))"
    by (rule obj_fits_subset [OF q])
      (use ex bbox_wf_nonempty in \<open>auto simp: part_desc_def reply_desc_def\<close>)
qed

lemma store_finds_part:
  assumes "store_rel m H (fst r) ls" "complete_field m H Q" "query_ok gd Q" "r \<in> set H" "is_part Q r"
    "bbox_does_intersect (od_bb (put_desc r)) (od_bb Q)"
  obtains od where "ls_find ls (part_desc Q r) = Some od" "stored_as od r"
proof -
  let ?P = "\<lambda>od. obj_desc_equals_intersect (part_desc Q r) (obj_desc od)"
  note nd = complete_field_part(2) [OF assms(2,4,5)]
  obtain x where x: "in_bbox (od_bb (part_desc Q r)) x" using part_desc_fits(2) [OF assms(2,4,5,3,6)] by blast
  have xr: "in_bbox (od_bb (put_desc r)) x" using x in_part_desc [OF nd] by blast
  obtain i where i: "i < length H" "H ! i = r" using assms(4) unfolding in_set_conv_nth by blast
  have idx: "ls_index ls (part_desc Q r) = put_slot m r"
    using assms(1) by (simp add: ls_index_def put_slot_def store_rel_def)
  have "put_live m H i" using assms(2,5) i by (auto simp: complete_field_def)
  then obtain od where od: "od \<in> set (obj_hash ls (put_slot m r))" "stored_as od r"
    using assms(1) i unfolding store_rel_def by blast
  have "?P od"
    using od(2) bbox_does_intersectI [OF _ x xr] nd
    by (simp add: stored_as_def obj_desc_equals_intersect_def)
  then obtain od' where od': "ls_find ls (part_desc Q r) = Some od'"
    using od(1) idx by (cases "ls_find ls (part_desc Q r)") (auto simp: ls_find_def find_None_iff)
  then have m: "?P od'" "od' \<in> set (obj_hash ls (put_slot m r))"
    using idx by (auto simp: ls_find_def find_Some_iff)
  obtain r' where r': "r' \<in> set H" "stored_as od' r'" using assms(1) m(2) unfolding store_rel_def by blast
  then have p': "is_part Q r'" using m(1) assms(5) by (simp add: stored_as_def is_part_def obj_desc_equals_intersect_def)
  note nd' = complete_field_part [OF assms(2) r'(1) p']
  have "bbox_does_intersect (od_bb (part_desc Q r)) (od_bb (put_desc r'))"
    using m(1) r'(2) by (simp add: stored_as_def obj_desc_equals_intersect_def)
  then obtain y where "in_bbox (od_bb (part_desc Q r)) y" "in_bbox (od_bb (put_desc r')) y"
    using bbox_does_intersect_iff [of "od_bb (part_desc Q r)" "od_bb (put_desc r')"] nd'
      part_desc_fits(1) [OF assms(2,4,5,3,6)] by (auto simp: obj_fits_def)
  then have "r = r'"
    using part_unique [OF assms(2,4) r'(1) assms(5) p'] in_part_desc [OF nd] by blast
  then show ?thesis using that od' r'(2) by blast
qed

lemma unat_obj_data_size:
  assumes "obj_fits (od_bb odsc) (unat (od_size odsc))"
  shows "unat (obj_data_size odsc) = unat (od_size odsc) * bbox_vol (od_bb odsc)"
proof -
  have "unat (od_size odsc) * bbox_vol (od_bb odsc) < 2 ^ 64" using assms by (simp add: obj_fits_def mult.commute)
  moreover have "obj_data_size odsc = of_nat (unat (od_size odsc) * bbox_vol (od_bb odsc))"
    using assms of_nat_bbox_vol [of "od_bb odsc"] by (simp add: obj_data_size_def obj_fits_def)
  ultimately show ?thesis by (simp only: unat_of_nat) simp
qed

lemma cell_pos_less:
  assumes "obj_fits (od_bb odsc) (unat (od_size odsc))" "in_bbox (od_bb odsc) x" "t < unat (od_size odsc)"
  shows "unat (od_size odsc) * cell_index (od_bb odsc) x + t < unat (obj_data_size odsc)"
proof -
  have "unat (od_size odsc) * cell_index (od_bb odsc) x + t < unat (od_size odsc) * (cell_index (od_bb odsc) x + 1)"
    using assms(3) by simp
  also have "\<dots> \<le> unat (od_size odsc) * bbox_vol (od_bb odsc)"
    using cell_index_less [OF assms(1,2)] by (intro mult_le_mono2) simp
  finally show ?thesis using unat_obj_data_size [OF assms(1)] by simp
qed

subsection \<open>Answers\<close>

text \<open>
  The answer to a request comes from the server it was sent to, in any state the servers can be in
  after the puts \<open>H\<close>, whatever else was asked in between. The answers to requests that were sent
  together arrive in any order.
\<close>

definition answers ::
  "nat \<Rightarrow> global_dimension \<Rightarrow> (int \<Rightarrow> ds_gspace) \<Rightarrow> put_rec list \<Rightarrow> int \<Rightarrow> int \<times> cl_msg \<Rightarrow> dc_event \<Rightarrow> bool" where
  "answers n gd cl0 H cid req ev \<longleftrightarrow>
     (\<exists>cl g. cluster_run n gd cl0 H cl \<and> serve cid (snd req) (cl (fst req)) = Some (ev, g))"

definition answered ::
  "nat \<Rightarrow> global_dimension \<Rightarrow> (int \<Rightarrow> ds_gspace) \<Rightarrow> put_rec list \<Rightarrow> int \<Rightarrow> (int \<times> cl_msg) list \<Rightarrow> dc_event list \<Rightarrow> bool" where
  "answered n gd cl0 H cid rs evs \<longleftrightarrow> (\<exists>rs'. mset rs' = mset rs \<and> list_all2 (answers n gd cl0 H cid) rs' evs)"

fun peers_of :: "nat \<Rightarrow> dc_event \<Rightarrow> int list" where
  "peers_of n (ev_peers q tab) = takeWhile (\<lambda>p. p \<noteq> - 1) (map tab [0..<n + 1])"
| "peers_of n ev = []"

fun descs_of :: "dc_event \<Rightarrow> obj_descriptor list" where
  "descs_of (ev_desc_tab q ds) = ds"
| "descs_of ev = []"

definition get_net ::
  "nat \<Rightarrow> global_dimension \<Rightarrow> (int \<Rightarrow> ds_gspace) \<Rightarrow> put_rec list \<Rightarrow> obj_data \<Rightarrow> dcg_space \<Rightarrow> dc_event list \<Rightarrow> bool" where
  "get_net n gd cl0 H od d evs \<longleftrightarrow>
     (\<exists>ev evs1 evs2. replies evs = ev # evs1 @ evs2 \<and>
        answers n gd cl0 H (c_id d) (dcg_which_peer d, C_get_dht_peers (get_header od d)) ev \<and>
        answered n gd cl0 H (c_id d) (map (\<lambda>p. (p, C_get_desc (get_header od d))) (peers_of n ev)) evs1 \<and>
        answered n gd cl0 H (c_id d) (map (part_request (new_tran od d)) (get_parts od d (map descs_of evs1))) evs2)"

text \<open>What is known of all states with the same puts.\<close>

definition started :: "sspace \<Rightarrow> nat \<Rightarrow> global_dimension \<Rightarrow> nat \<Rightarrow> (int \<Rightarrow> ds_gspace) \<Rightarrow> put_rec list \<Rightarrow> bool" where
  "started ss0 n gd m cl0 H \<longleftrightarrow> (\<forall>cl. cluster_run n gd cl0 H cl \<longrightarrow> cluster_inv ss0 gd m H cl) \<and> v2_ok ss0 \<and>
     bb_glb_domain (dht ss0) = gdim_domain gd \<and> num_entries (dht ss0) = n"

lemma startedD:
  assumes "started ss0 n gd m cl0 H" "cluster_run n gd cl0 H cl" "0 \<le> p" "p < int n"
  shows "srv_member ss0 gd p (cl p)" "dir_rel ss0 m H (nat p) (self_of (g_ssd (cl p)))" "store_rel m H p (g_ls (cl p))"
proof -
  have i: "cluster_inv ss0 gd m H cl" "nat p < num_entries (dht ss0)" "int (nat p) = p"
    using assms by (auto simp: started_def)
  then show "srv_member ss0 gd p (cl p)" "dir_rel ss0 m H (nat p) (self_of (g_ssd (cl p)))"
    "store_rel m H p (g_ls (cl p))"
    unfolding cluster_inv_def cluster_ok_def by (metis of_nat_0_le_iff of_nat_less_iff)+
qed

lemma answers_peers:
  assumes "started ss0 n gd m cl0 H" "answers n gd cl0 H cid (p, C_get_dht_peers oh) ev" "0 \<le> p" "p < int n" "oh_gdim oh = gd"
  shows "\<exists>tab. ev = ev_peers (oh_qid oh) tab \<and> peers_of n ev = map int (hash_v2 ss0 (od_bb (oh_odsc oh)))"
proof -
  obtain cl g where a: "cluster_run n gd cl0 H cl" "serve cid (C_get_dht_peers oh) (cl p) = Some (ev, g)"
    using assms(2) by (auto simp: answers_def)
  note m = startedD [OF assms(1) a(1) assms(3,4)]
  have v: "v2_ok ss0" "num_entries (dht ss0) = n" using assms(1) by (auto simp: started_def)
  obtain g' tab where t: "serve cid (C_get_dht_peers oh) (cl p) = Some (ev_peers (oh_qid oh) (\<lambda>i. tab ! i), g')"
    "length tab = n + 1" "takeWhile (\<lambda>q. q \<noteq> - 1) tab = map int (hash_v2 ss0 (od_bb (oh_odsc oh)))"
    using serve_peers [OF m(1) v(1) assms(5)] v(2) by metis
  have "map (\<lambda>i. tab ! i) [0..<n + 1] = tab" using map_nth [of tab] t(2) by simp
  then show ?thesis using a(2) t(1,3) by (intro exI [of _ "\<lambda>i. tab ! i"]) auto
qed

lemma answers_desc:
  assumes "started ss0 n gd m cl0 H" "answers n gd cl0 H cid (int k, C_get_desc oh) ev"
    "k \<in> set (hash_v2 ss0 (od_bb (oh_odsc oh)))" "oh_gdim oh = gd" "complete_field m H (oh_odsc oh)" "query_ok gd (oh_odsc oh)"
  shows "ev = ev_desc_tab (oh_qid oh) (descs_of ev)" "descs_of ev \<noteq> []" "\<forall>x\<in>set (descs_of ev). part_of H (oh_odsc oh) x"
    "\<And>r. r \<in> set H \<Longrightarrow> is_part (oh_odsc oh) r \<Longrightarrow> k \<in> set (hash_v2 ss0 (od_bb (put_desc r))) \<Longrightarrow>
       bbox_does_intersect (od_bb (put_desc r)) (od_bb (oh_odsc oh)) \<Longrightarrow> part_desc (oh_odsc oh) r \<in> set (descs_of ev)"
proof -
  let ?Q = "oh_odsc oh"
  obtain cl g where a: "cluster_run n gd cl0 H cl" "serve cid (C_get_desc oh) (cl (int k)) = Some (ev, g)"
    using assms(2) by (auto simp: answers_def)
  have v: "v2_ok ss0" "bb_glb_domain (dht ss0) = gdim_domain gd" "num_entries (dht ss0) = n"
    using assms(1) by (auto simp: started_def)
  have k: "0 \<le> int k" "int k < int n" using assms(3) v(3) by (auto simp: hash_v2_def)
  note m = startedD [OF assms(1) a(1) k, unfolded nat_int]
  let ?de = "self_of (g_ssd (cl (int k)))"
  have ne: "dht_find_entry_all ?de ?Q \<noteq> []" by (rule dir_nonempty [OF m(2) assms(5,6) v(1,2) assms(3)])
  obtain g' where "serve cid (C_get_desc oh) (cl (int k)) =
    Some (ev_desc_tab (oh_qid oh) (map (reply_desc ?Q) (dht_find_entry_all ?de ?Q)), g')"
    using serve_desc [OF m(1) assms(4) ne] by blast
  then have ev: "ev = ev_desc_tab (oh_qid oh) (map (reply_desc ?Q) (dht_find_entry_all ?de ?Q))" using a(2) by simp
  then show "ev = ev_desc_tab (oh_qid oh) (descs_of ev)" "descs_of ev \<noteq> []" using ne by simp_all
  show "\<forall>x\<in>set (descs_of ev). part_of H ?Q x"
  proof
    fix x assume "x \<in> set (descs_of ev)"
    then obtain y where y: "y \<in> set (dht_find_entry_all ?de ?Q)" "x = reply_desc ?Q y" using ev by auto
    obtain r where "r \<in> set H" "is_part ?Q r" "bbox_does_intersect (od_bb (put_desc r)) (od_bb ?Q)" "y = put_desc r"
      using dir_finds_parts [OF m(2) y(1)] by blast
    then show "part_of H ?Q x" using y(2) by (auto simp: part_of_def part_desc_def)
  qed
  show "part_desc ?Q r \<in> set (descs_of ev)"
    if "r \<in> set H" "is_part ?Q r" "k \<in> set (hash_v2 ss0 (od_bb (put_desc r)))"
      "bbox_does_intersect (od_bb (put_desc r)) (od_bb ?Q)" for r
    using dir_finds_all [OF m(2) assms(5) that] ev by (simp add: part_desc_def)
qed

lemma answered_nth:
  assumes "answered n gd cl0 H cid rs evs"
  shows "length evs = length rs" "ev \<in> set evs \<Longrightarrow> \<exists>req\<in>set rs. answers n gd cl0 H cid req ev"
    "req \<in> set rs \<Longrightarrow> \<exists>ev\<in>set evs. answers n gd cl0 H cid req ev"
proof -
  obtain rs' where r: "mset rs' = mset rs" "list_all2 (answers n gd cl0 H cid) rs' evs"
    using assms by (auto simp: answered_def)
  have l: "length rs' = length rs" "set rs' = set rs" using r(1) mset_eq_length mset_eq_setD by blast+
  show "length evs = length rs" using r(2) l(1) by (simp add: list_all2_lengthD)
  show "ev \<in> set evs \<Longrightarrow> \<exists>req\<in>set rs. answers n gd cl0 H cid req ev"
    using r(2) l(2) by (metis in_set_conv_nth list_all2_conv_all_nth)
  show "req \<in> set rs \<Longrightarrow> \<exists>ev\<in>set evs. answers n gd cl0 H cid req ev"
    using r(2) l(2) by (metis in_set_conv_nth list_all2_conv_all_nth)
qed

lemma answered_descs:
  assumes "started ss0 n gd m cl0 H" "oh_gdim oh = gd" "complete_field m H (oh_odsc oh)" "query_ok gd (oh_odsc oh)"
    "answered n gd cl0 H cid (map (\<lambda>p. (p, C_get_desc oh)) (map int (hash_v2 ss0 (od_bb (oh_odsc oh))))) evs"
  shows "evs = map (ev_desc_tab (oh_qid oh)) (map descs_of evs)"
    "length evs = length (hash_v2 ss0 (od_bb (oh_odsc oh)))"
    "\<And>ev. ev \<in> set evs \<Longrightarrow> descs_of ev \<noteq> [] \<and> (\<forall>x\<in>set (descs_of ev). part_of H (oh_odsc oh) x)"
    "\<And>r x. r \<in> set H \<Longrightarrow> is_part (oh_odsc oh) r \<Longrightarrow> in_bbox (od_bb (oh_odsc oh)) x \<Longrightarrow> in_bbox (od_bb (put_desc r)) x \<Longrightarrow>
       part_desc (oh_odsc oh) r \<in> set (concat (map descs_of evs))"
proof -
  let ?Q = "oh_odsc oh" and ?h = "hash_v2 ss0 (od_bb (oh_odsc oh))"
  have E: "ev = ev_desc_tab (oh_qid oh) (descs_of ev)" "descs_of ev \<noteq> []" "\<forall>x\<in>set (descs_of ev). part_of H ?Q x"
    if ev: "ev \<in> set evs" for ev
  proof -
    obtain k where "k \<in> set ?h" "answers n gd cl0 H cid (int k, C_get_desc oh) ev"
      using answered_nth(2) [OF assms(5) ev] by auto
    from answers_desc(1-3) [OF assms(1) this(2,1) assms(2-4)]
    show "ev = ev_desc_tab (oh_qid oh) (descs_of ev)" "descs_of ev \<noteq> []" "\<forall>x\<in>set (descs_of ev). part_of H ?Q x" .
  qed
  show "evs = map (ev_desc_tab (oh_qid oh)) (map descs_of evs)"
    using E(1) by (simp add: map_idI comp_def)
  show "length evs = length ?h" using answered_nth(1) [OF assms(5)] by simp
  show "descs_of ev \<noteq> [] \<and> (\<forall>x\<in>set (descs_of ev). part_of H ?Q x)" if "ev \<in> set evs" for ev
    using E(2,3) [OF that] by blast
  show "part_desc ?Q r \<in> set (concat (map descs_of evs))"
    if r: "r \<in> set H" "is_part ?Q r" "in_bbox (od_bb ?Q) x" "in_bbox (od_bb (put_desc r)) x" for r x
  proof -
    have v: "v2_ok ss0" "bb_glb_domain (dht ss0) = gdim_domain gd" using assms(1) by (auto simp: started_def)
    have nd: "num_dims (od_bb (put_desc r)) = num_dims (od_bb ?Q)" "num_dims (od_bb ?Q) = num_dims (bb_glb_domain (dht ss0))"
      "in_bbox (bb_glb_domain (dht ss0)) x"
      using complete_field_part(2) [OF assms(3) r(1,2)] assms(4) v(2) r(3) by (auto simp: query_ok_def gdim_domain_def)
    obtain k where k: "k \<in> set ?h" "k \<in> set (hash_v2 ss0 (od_bb (put_desc r)))"
      using bisect.rendezvous [OF v(1), of "od_bb ?Q" "od_bb (put_desc r)" x] nd r(3,4) by auto
    obtain ev where ev: "ev \<in> set evs" "answers n gd cl0 H cid (int k, C_get_desc oh) ev"
      using answered_nth(3) [OF assms(5), of "(int k, C_get_desc oh)"] k(1) by auto
    have "bbox_does_intersect (od_bb (put_desc r)) (od_bb ?Q)" using nd(1) r(4,3) by (rule bbox_does_intersectI)
    then have "part_desc ?Q r \<in> set (descs_of ev)"
      using answers_desc(4) [OF assms(1) ev(2) k(1) assms(2-4) r(1,2) k(2)] by blast
    then show ?thesis using ev(1) by auto
  qed
qed

lemma cluster_run_puts: "cluster_run n gd cl0 H cl \<Longrightarrow> r \<in> set H \<Longrightarrow> 0 \<le> fst r \<and> fst r < int n"
  by (induction rule: cluster_run.induct) (auto simp: put_ok_def)

lemma part_compat:
  assumes "complete_field m H Q" "query_ok gd Q" "r \<in> set H" "is_part Q r"
    "bbox_does_intersect (od_bb (put_desc r)) (od_bb Q)"
  shows "obj_desc to = part_desc Q r \<Longrightarrow> obj_desc src = put_desc r \<Longrightarrow> copy_compat to src"
    "obj_desc to = Q \<Longrightarrow> obj_desc src = part_desc Q r \<Longrightarrow> copy_compat to src"
proof -
  note p = complete_field_part [OF assms(1,3,4)]
  note f = part_desc_fits [OF assms(1,3,4,2,5)]
  obtain x where x: "in_bbox (od_bb (part_desc Q r)) x" using f(2) by blast
  then have xs: "in_bbox (od_bb Q) x" "in_bbox (od_bb (put_desc r)) x" using in_part_desc [OF p(2)] by auto
  have q: "1 \<le> num_dims (od_bb Q)" "num_dims (od_bb Q) \<le> 9" "obj_fits (od_bb Q) (unat (od_size Q))"
    using assms(2) by (auto simp: query_ok_def)
  have "bbox_does_intersect (od_bb (part_desc Q r)) (od_bb (put_desc r))"
    by (rule bbox_does_intersectI [OF _ x xs(2)]) (simp add: p(2))
  then show "obj_desc to = part_desc Q r \<Longrightarrow> obj_desc src = put_desc r \<Longrightarrow> copy_compat to src"
    using p f(1) q by (simp add: copy_compat_def Let_def)
  have "bbox_does_intersect (od_bb Q) (od_bb (part_desc Q r))"
    by (rule bbox_does_intersectI [OF _ xs(1) x]) simp
  then show "obj_desc to = Q \<Longrightarrow> obj_desc src = part_desc Q r \<Longrightarrow> copy_compat to src"
    using p f(1) q by (simp add: copy_compat_def Let_def)
qed

text \<open>The data of a part holds the bytes of the put it is cut from.\<close>

definition part_data :: "obj_descriptor \<Rightarrow> put_rec \<Rightarrow> (nat \<Rightarrow> byte) \<Rightarrow> bool" where
  "part_data Q r A \<longleftrightarrow> (\<forall>x t. in_bbox (od_bb (part_desc Q r)) x \<and> t < unat (od_size Q) \<longrightarrow>
     A (unat (od_size Q) * cell_index (od_bb (part_desc Q r)) x + t) = put_byte r x t)"

lemma answers_part:
  assumes "started ss0 n gd m cl0 H" "complete_field m H (q_obj e)" "query_ok gd (q_obj e)"
    "r \<in> set H" "is_part (q_obj e) r" "bbox_does_intersect (od_bb (put_desc r)) (od_bb (q_obj e))"
    "obj_desc od = part_desc (q_obj e) r" "answers n gd cl0 H cid (part_request e od) ev"
  shows "\<exists>A. ev = ev_data (q_id e) (od_addr od) (unat (obj_data_size (obj_desc od))) A \<and> part_data (q_obj e) r A"
proof -
  let ?Q = "q_obj e"
  let ?oh = "\<lparr>oh_qid = q_id e, oh_rank = 0, oh_rc = 0, oh_odsc = part_desc ?Q r, oh_gdim = q_gdim e\<rparr>"
  have ver: "od_version (put_desc r) = od_version ?Q" using assms(5) by (simp add: is_part_def)
  have "(part_desc ?Q r)\<lparr>od_version := od_version ?Q\<rparr> = part_desc ?Q r"
    using ver by (simp add: part_desc_def reply_desc_def)
  moreover have own: "od_owner (put_desc r) = fst r" by (simp add: put_desc_def split: prod.splits)
  ultimately have req: "part_request e od = (fst r, C_get ?oh (od_addr od))" using assms(7) by (simp add: part_request_def)
  obtain cl g where a: "cluster_run n gd cl0 H cl" "serve cid (C_get ?oh (od_addr od)) (cl (fst r)) = Some (ev, g)"
    using assms(8) req by (auto simp: answers_def)
  have p: "0 \<le> fst r" "fst r < int n" using cluster_run_puts [OF a(1) assms(4)] by auto
  note s = startedD [OF assms(1) a(1) p]
  obtain src where src: "ls_find (g_ls (cl (fst r))) (part_desc ?Q r) = Some src" "stored_as src r"
    using store_finds_part [OF s(3) assms(2-6)] by blast
  have d: "obj_desc src = put_desc r" using src(2) by (simp add: stored_as_def)
  have f: "ls_find (g_ls (cl (fst r))) (oh_odsc ?oh) = Some src" using src(1) by simp
  have c: "\<And>to. obj_desc to = oh_odsc ?oh \<Longrightarrow> copy_compat to src"
    using part_compat(1) [OF assms(2-6) _ d] by simp
  obtain A where A: "ev = ev_data (q_id e) (od_addr od) (unat (obj_data_size (part_desc ?Q r))) A"
    "part_cells (part_desc ?Q r) A src"
    using serve_get [OF s(1) f c, of cid "od_addr od"] a(2) by auto
  note pt = complete_field_part [OF assms(2,4,5)]
  have "part_data ?Q r A"
    unfolding part_data_def
  proof (intro allI impI)
    fix x t assume xt: "in_bbox (od_bb (part_desc ?Q r)) x \<and> t < unat (od_size ?Q)"
    then have x: "in_bbox (od_bb (put_desc r)) x" "t < unat (od_size (put_desc r))"
      using in_part_desc [OF pt(2)] pt(1) by auto
    have "A (unat (od_size ?Q) * cell_index (od_bb (part_desc ?Q r)) x + t) = cell_byte src x t"
      using A(2) xt x(1) d pt(1) by (simp add: part_cells_def)
    also have "\<dots> = put_byte r x t"
      using src(2) cell_pos_less [of "put_desc r" x t] pt(1,3) x by (simp add: cell_byte_def put_byte_def stored_as_def)
    finally show "A (unat (od_size ?Q) * cell_index (od_bb (part_desc ?Q r)) x + t) = put_byte r x t" .
  qed
  then show ?thesis using A(1) assms(7) by auto
qed

lemma list_all2_choice:
  assumes "list_all2 R xs ys" "distinct (map f xs)" "\<And>x y. x \<in> set xs \<Longrightarrow> R x y \<Longrightarrow> \<exists>b. y = g (f x) b \<and> P x b"
  shows "\<exists>B. ys = map (\<lambda>a. g a (B a)) (map f xs) \<and> (\<forall>x\<in>set xs. P x (B (f x)))"
  using assms
proof (induction rule: list_all2_induct)
  case (Cons x xs y ys)
  obtain b where b: "y = g (f x) b" "P x b" using Cons.prems(2) [of x y] Cons.hyps(1) by auto
  obtain B where B: "ys = map (\<lambda>a. g a (B a)) (map f xs)" "\<forall>x\<in>set xs. P x (B (f x))"
    using Cons.IH Cons.prems by auto
  have "\<forall>z\<in>set xs. f z \<noteq> f x" using Cons.prems(1) by (metis distinct.simps(2) image_eqI list.simps(9) set_map)
  then show ?case using b B by (intro exI [of _ "B(f x := b)"]) auto
qed simp

definition req_addr :: "int \<times> cl_msg \<Rightarrow> nat" where
  "req_addr req = (case snd req of C_get oh a \<Rightarrow> a | _ \<Rightarrow> 0)"

lemma req_addr_part [simp]: "req_addr (part_request e od) = od_addr od"
  by (simp add: req_addr_def part_request_def)

lemma answered_parts:
  assumes "started ss0 n gd m cl0 H" "complete_field m H (q_obj e)" "query_ok gd (q_obj e)"
    "distinct (map od_addr ods)" "\<forall>od\<in>set ods. part_of H (q_obj e) (obj_desc od)"
    "answered n gd cl0 H cid (map (part_request e) ods) evs"
  shows "\<exists>as N B. evs = map (\<lambda>a. ev_data (q_id e) a (N a) (B a)) as \<and> mset as = mset (map od_addr ods) \<and>
    (\<forall>od\<in>set ods. N (od_addr od) = unat (obj_data_size (obj_desc od)) \<and>
       (\<exists>r\<in>set H. is_part (q_obj e) r \<and> bbox_does_intersect (od_bb (put_desc r)) (od_bb (q_obj e)) \<and>
          obj_desc od = part_desc (q_obj e) r \<and> part_data (q_obj e) r (B (od_addr od))))"
proof -
  let ?part = "\<lambda>a. the (find (\<lambda>od. od_addr od = a) ods)"
  let ?N = "\<lambda>a. unat (obj_data_size (obj_desc (?part a)))"
  have part: "?part (od_addr od) = od" if "od \<in> set ods" for od
  proof -
    have "find (\<lambda>x. od_addr x = od_addr od) ods \<noteq> None" using that unfolding find_None_iff by blast
    then obtain od' where "find (\<lambda>x. od_addr x = od_addr od) ods = Some od'" by blast
    moreover from this have "od' \<in> set ods" "od_addr od' = od_addr od" by (auto simp: find_Some_iff)
    ultimately show ?thesis using assms(4) that by (auto simp: distinct_map inj_on_def)
  qed
  obtain rs where rs: "mset rs = mset (map (part_request e) ods)" "list_all2 (answers n gd cl0 H cid) rs evs"
    using assms(6) by (auto simp: answered_def)
  let ?P = "\<lambda>req A. \<exists>od\<in>set ods. req = part_request e od \<and>
    (\<exists>r\<in>set H. is_part (q_obj e) r \<and> bbox_does_intersect (od_bb (put_desc r)) (od_bb (q_obj e)) \<and>
       obj_desc od = part_desc (q_obj e) r \<and> part_data (q_obj e) r A)"
  have "mset (map req_addr rs) = image_mset req_addr (mset (map (part_request e) ods))" using rs(1) by simp
  also have "\<dots> = mset (map od_addr ods)" by (simp add: multiset.map_comp comp_def)
  finally have m: "mset (map req_addr rs) = mset (map od_addr ods)" .
  have d: "distinct (map req_addr rs)" using m assms(4) mset_eq_imp_distinct_iff by blast
  have sr: "set rs = part_request e ` set ods" using mset_eq_setD [OF rs(1)] by simp
  have ch: "\<exists>A. ev = ev_data (q_id e) (req_addr req) (?N (req_addr req)) A \<and> ?P req A"
    if rq: "req \<in> set rs" "answers n gd cl0 H cid req ev" for req ev
  proof -
    obtain od where od: "od \<in> set ods" "req = part_request e od" using rq(1) unfolding sr by blast
    obtain r where r: "r \<in> set H" "is_part (q_obj e) r" "bbox_does_intersect (od_bb (put_desc r)) (od_bb (q_obj e))"
      "obj_desc od = part_desc (q_obj e) r" using bspec [OF assms(5) od(1)] unfolding part_of_def by blast
    obtain A where A: "ev = ev_data (q_id e) (od_addr od) (unat (obj_data_size (obj_desc od))) A" "part_data (q_obj e) r A"
      using answers_part [OF assms(1-3) r rq(2) [unfolded od(2)]] by blast
    have "?P req A" using od r A(2) by blast
    then show ?thesis using A(1) unfolding od(2) req_addr_part part [OF od(1)] by blast
  qed
  obtain B where B: "evs = map (\<lambda>a. ev_data (q_id e) a (?N a) (B a)) (map req_addr rs)"
    "\<forall>req\<in>set rs. ?P req (B (req_addr req))"
    using list_all2_choice [where g = "\<lambda>a A. ev_data (q_id e) a (?N a) A" and P = ?P, OF rs(2) d ch] by blast
  have "\<exists>r\<in>set H. is_part (q_obj e) r \<and> bbox_does_intersect (od_bb (put_desc r)) (od_bb (q_obj e)) \<and>
    obj_desc od = part_desc (q_obj e) r \<and> part_data (q_obj e) r (B (od_addr od))" if od: "od \<in> set ods" for od
  proof -
    obtain od' where od': "od' \<in> set ods" "part_request e od = part_request e od'"
      "\<exists>r\<in>set H. is_part (q_obj e) r \<and> bbox_does_intersect (od_bb (put_desc r)) (od_bb (q_obj e)) \<and>
       obj_desc od' = part_desc (q_obj e) r \<and> part_data (q_obj e) r (B (od_addr od))"
      using bspec [OF B(2), of "part_request e od"] od unfolding sr req_addr_part by blast
    have "od' = od" using part [OF od] part [OF od'(1)] od'(2) by (metis req_addr_part)
    then show ?thesis using od'(3) by simp
  qed
  moreover have "?N (od_addr od) = unat (obj_data_size (obj_desc od))" if "od \<in> set ods" for od
    by (simp only: part [OF that])
  ultimately show ?thesis
    using B(1) m by (intro exI [of _ "map req_addr rs"] exI [of _ ?N] exI [of _ B] conjI ballI)
qed

subsection \<open>Get\<close>

lemma part_of_st: "part_of H Q x \<Longrightarrow> od_st x = od_st Q"
  by (auto simp: part_of_def)

lemma get_parts_part_of:
  assumes "\<forall>tab\<in>set tabs. \<forall>x\<in>set tab. part_of H (obj_desc od) x" "x \<in> set (get_parts od d tabs)"
  shows "part_of H (obj_desc od) (obj_desc x)"
proof -
  obtain a y where y: "y \<in> set (concat tabs)" "x = new_part (od_st (obj_desc od)) a y"
    using add_parts_desc [OF assms(2) [unfolded get_parts_def]] by auto
  then have "part_of H (obj_desc od) y" using assms(1) by auto
  moreover from this have "obj_desc x = y" using y(2) by (auto simp: part_of_def new_part_def part_desc_def reply_desc_def)
  ultimately show ?thesis by simp
qed

lemma get_parts_complete:
  assumes "\<forall>tab\<in>set tabs. \<forall>x\<in>set tab. part_of H (obj_desc od) x" "y \<in> set (concat tabs)"
  shows "\<exists>x\<in>set (get_parts od d tabs). \<forall>c. in_bbox (od_bb (obj_desc x)) c \<longleftrightarrow> in_bbox (od_bb y) c"
proof -
  have "\<And>y. y \<in> set (concat tabs) \<Longrightarrow> od_st y = od_st (obj_desc od)"
    using assms(1) part_of_st by fastforce
  from add_parts_complete [OF assms(2) this, of "c_brk d" "[]"]
  obtain x where "x \<in> set (get_parts od d tabs)" "obj_desc_equals (obj_desc x) y"
    by (auto simp: get_parts_def)
  then show ?thesis
    by (intro bexI [of _ x]) (auto simp: obj_desc_equals_def bbox_equals_def in_bbox_def list_all_iff)
qed

lemma filled_bytes:
  assumes "complete_field m H Q" "query_ok gd Q" "r \<in> set H" "is_part Q r"
    "bbox_does_intersect (od_bb (put_desc r)) (od_bb Q)" "obj_desc od = part_desc Q r"
    "part_data Q r (B (od_addr od))" "N (od_addr od) = unat (obj_data_size (obj_desc od))"
    "in_bbox (od_bb (obj_desc od)) x" "t < unat (od_size Q)"
  shows "cell_byte (filled buf N B od) x t = put_byte r x t"
proof -
  note p = complete_field_part [OF assms(1,3,4)]
  have f: "obj_fits (od_bb (obj_desc od)) (unat (od_size (obj_desc od)))" "od_size (obj_desc od) = od_size Q"
    using part_desc_fits(1) [OF assms(1,3,4,2,5)] p(1) assms(6) by simp_all
  have "unat (od_size Q) * cell_index (od_bb (obj_desc od)) x + t < N (od_addr od)"
    using cell_pos_less [OF f(1) assms(9)] assms(8,10) f(2) by simp
  then show ?thesis
    using assms(6,7,9,10) f(2) by (simp add: filled_def cell_byte_def memcpy_def part_data_def)
qed

text \<open>Parts cut from the puts assemble to the field.\<close>

definition parts_from ::
  "put_rec list \<Rightarrow> obj_descriptor \<Rightarrow> (nat \<Rightarrow> nat) \<Rightarrow> (nat \<Rightarrow> nat \<Rightarrow> byte) \<Rightarrow> obj_data list \<Rightarrow> bool" where
  "parts_from H Q N B ods \<longleftrightarrow>
     (\<forall>x\<in>set ods. N (od_addr x) = unat (obj_data_size (obj_desc x)) \<and>
       (\<exists>r\<in>set H. is_part Q r \<and> bbox_does_intersect (od_bb (put_desc r)) (od_bb Q) \<and>
          obj_desc x = part_desc Q r \<and> part_data Q r (B (od_addr x))))"

lemma assemble_parts:
  assumes "complete_field m H (obj_desc od)" "query_ok gd (obj_desc od)" "parts_from H (obj_desc od) N B ods"
  shows "\<exists>A. ssd_copy_list c0 od (map (filled buf N B) ods) = Some (od\<lparr>data := A\<rparr>) \<and>
    (\<forall>r x t. r \<in> set H \<and> is_part (obj_desc od) r \<and> in_bbox (od_bb (obj_desc od)) x \<and> in_bbox (od_bb (put_desc r)) x \<and>
       t < unat (od_size (obj_desc od)) \<and> (\<exists>y\<in>set ods. in_bbox (od_bb (obj_desc y)) x) \<longrightarrow>
       cell_byte (od\<lparr>data := A\<rparr>) x t = put_byte r x t)"
proof -
  let ?Q = "obj_desc od" and ?ods = "map (filled buf N B) ods"
  define F where "F x t = put_byte (SOME r. r \<in> set H \<and> is_part ?Q r \<and> in_bbox (od_bb (put_desc r)) x) x t" for x t
  have F: "F x t = put_byte r x t" if r: "r \<in> set H" "is_part ?Q r" "in_bbox (od_bb (put_desc r)) x" for r x t
  proof -
    have "(SOME r. r \<in> set H \<and> is_part ?Q r \<and> in_bbox (od_bb (put_desc r)) x) = r"
      using r part_unique [OF assms(1)] by (intro some_equality) blast+
    then show ?thesis by (simp add: F_def)
  qed
  have P: "copy_compat od (filled buf N B y) \<and>
      (\<forall>x t. in_bbox (od_bb (obj_desc y)) x \<and> t < unat (od_size ?Q) \<longrightarrow> cell_byte (filled buf N B y) x t = F x t)"
    if y: "y \<in> set ods" for y
  proof -
    obtain r where r: "r \<in> set H" "is_part ?Q r" "bbox_does_intersect (od_bb (put_desc r)) (od_bb ?Q)"
      "obj_desc y = part_desc ?Q r" "part_data ?Q r (B (od_addr y))" "N (od_addr y) = unat (obj_data_size (obj_desc y))"
      using assms(3) y unfolding parts_from_def by blast
    have "copy_compat od (filled buf N B y)"
      using part_compat(2) [OF assms(1,2) r(1-3)] r(4) by (simp add: filled_def)
    moreover have "cell_byte (filled buf N B y) x t = F x t"
      if x: "in_bbox (od_bb (obj_desc y)) x" "t < unat (od_size ?Q)" for x t
    proof -
      have "in_bbox (od_bb (put_desc r)) x"
        using x(1) r(4) in_part_desc [OF complete_field_part(2) [OF assms(1) r(1,2)]] by simp
      then show ?thesis using filled_bytes [where N = N and B = B, OF assms(1,2) r x, of buf] F [OF r(1,2)] by simp
    qed
    ultimately show ?thesis by blast
  qed
  have cc: "\<forall>src\<in>set ?ods. copy_compat od src" using P by simp
  have by': "\<forall>src\<in>set ?ods. \<forall>x t. in_bbox (od_bb (obj_desc src)) x \<and> t < unat (od_size ?Q) \<longrightarrow> cell_byte src x t = F x t"
    using P by (simp add: filled_def)
  obtain A where A: "ssd_copy_list c0 od ?ods = Some (od\<lparr>data := A\<rparr>)"
    "\<forall>x t. in_bbox (od_bb ?Q) x \<and> t < unat (od_size ?Q) \<longrightarrow> cell_byte (od\<lparr>data := A\<rparr>) x t =
       (if \<exists>src\<in>set ?ods. in_bbox (od_bb (obj_desc src)) x then F x t else cell_byte od x t)"
    using ssd_copy_list_cells [OF cc by', of c0] by blast
  have "cell_byte (od\<lparr>data := A\<rparr>) x t = put_byte r x t"
    if "r \<in> set H \<and> is_part ?Q r \<and> in_bbox (od_bb ?Q) x \<and> in_bbox (od_bb (put_desc r)) x \<and> t < unat (od_size ?Q) \<and>
      (\<exists>y\<in>set ods. in_bbox (od_bb (obj_desc y)) x)" for r x t
  proof -
    have "\<exists>src\<in>set ?ods. in_bbox (od_bb (obj_desc src)) x" using that by (simp add: filled_def)
    then show ?thesis using A(2) that F by simp
  qed
  then show ?thesis using A(1) by blast
qed

lemma get_assembles:
  assumes "started ss0 n gd m cl0 H" "client_ok d" "c_num_sp d = n" "0 < n" "od_gdim od = gd"
    "query_ok gd (obj_desc od)" "complete_field m H (obj_desc od)" "get_net n gd cl0 H od d evs"
  shows "\<exists>d' rest A. dcg_obj_get c0 od evs d = Some (0, od\<lparr>data := A\<rparr>, d', rest) \<and> client_ok d' \<and> c_qt d' = c_qt d \<and>
    (\<forall>r x t. r \<in> set H \<and> is_part (obj_desc od) r \<and> in_bbox (od_bb (obj_desc od)) x \<and> in_bbox (od_bb (put_desc r)) x \<and>
       t < unat (od_size (obj_desc od)) \<longrightarrow> cell_byte (od\<lparr>data := A\<rparr>) x t = put_byte r x t)"
proof -
  let ?Q = "obj_desc od" and ?oh = "get_header od d" and ?h = "hash_v2 ss0 (od_bb (obj_desc od))"
  obtain ev evs1 evs2 where net: "replies evs = ev # evs1 @ evs2"
    "answers n gd cl0 H (c_id d) (dcg_which_peer d, C_get_dht_peers ?oh) ev"
    "answered n gd cl0 H (c_id d) (map (\<lambda>p. (p, C_get_desc ?oh)) (peers_of n ev)) evs1"
    "answered n gd cl0 H (c_id d) (map (part_request (new_tran od d)) (get_parts od d (map descs_of evs1))) evs2"
    using assms(8) by (auto simp: get_net_def)
  have oh: "oh_odsc ?oh = ?Q" "oh_gdim ?oh = gd" "oh_qid ?oh = c_next_qid d" using assms(5) by (simp_all add: get_header_def)
  have wp: "0 \<le> dcg_which_peer d" "dcg_which_peer d < int n" using assms(3,4) by (simp_all add: dcg_which_peer_def)
  obtain tab where tab: "ev = ev_peers (c_next_qid d) tab" "peers_of n ev = map int ?h"
    using answers_peers [OF assms(1) net(2) wp oh(2)] unfolding oh by blast
  note D = answered_descs [OF assms(1) oh(2), of "c_id d" evs1, unfolded oh(1,3), OF assms(7,6) net(3) [unfolded tab(2)]]
  define tabs where "tabs = map descs_of evs1"
  have T: "\<forall>t\<in>set tabs. \<forall>x\<in>set t. part_of H ?Q x" using D(3) by (auto simp: tabs_def)
  let ?P = "get_parts od d tabs"
  have P: "\<forall>x\<in>set ?P. part_of H ?Q (obj_desc x)" using get_parts_part_of [OF T] by blast
  have e: "q_obj (new_tran od d) = ?Q" "q_id (new_tran od d) = c_next_qid d" by (simp_all add: new_tran_def)
  obtain as N B where parts: "evs2 = map (\<lambda>a. ev_data (c_next_qid d) a (N a) (B a)) as" "mset as = mset (map od_addr ?P)"
    "parts_from H ?Q N B ?P"
    using answered_parts [OF assms(1), of "new_tran od d" ?P "c_id d" evs2, unfolded e, OF assms(7,6) get_parts_addr P]
      net(4) unfolding tabs_def parts_from_def by blast
  have cover: "\<exists>y\<in>set ?P. in_bbox (od_bb (obj_desc y)) x"
    if r: "r \<in> set H" "is_part ?Q r" "in_bbox (od_bb ?Q) x" "in_bbox (od_bb (put_desc r)) x" for r x
  proof -
    have "in_bbox (od_bb (part_desc ?Q r)) x"
      using r(3,4) in_part_desc [OF complete_field_part(2) [OF assms(7) r(1,2)]] by blast
    then show ?thesis using get_parts_complete [OF T, of "part_desc ?Q r" d] D(4) [OF r] unfolding tabs_def by blast
  qed
  obtain A where A: "ssd_copy_list c0 od (map (filled (c_buf d) N B) ?P) = Some (od\<lparr>data := A\<rparr>)"
    "\<forall>r x t. r \<in> set H \<and> is_part ?Q r \<and> in_bbox (od_bb ?Q) x \<and> in_bbox (od_bb (put_desc r)) x \<and>
       t < unat (od_size ?Q) \<and> (\<exists>y\<in>set ?P. in_bbox (od_bb (obj_desc y)) x) \<longrightarrow>
       cell_byte (od\<lparr>data := A\<rparr>) x t = put_byte r x t"
    using assemble_parts [OF assms(7,6) parts(3), of c0 "c_buf d"] by blast
  obtain c where c: "in_bbox (od_bb ?Q) c" using assms(6) bbox_wf_nonempty by (auto simp: query_ok_def obj_fits_def)
  then obtain rc where rc: "rc \<in> set H" "is_part ?Q rc" "in_bbox (od_bb (put_desc rc)) c"
    using assms(7) by (auto simp: complete_field_def)
  have Pne: "?P \<noteq> []" using cover [OF rc(1,2) c rc(3)] by auto
  have ps: "takeWhile (\<lambda>p. p \<noteq> - 1) (map tab [0..<c_num_sp d + 1]) = map int ?h" using tab assms(3) by simp
  have len: "length (map int ?h) \<le> c_num_sp d" "length tabs = length (map int ?h)"
    using assms(1,3) D(2) length_filter_le [of _ "[0..<num_entries (dht ss0)]"]
    by (simp_all add: tabs_def started_def hash_v2_def)
  have hne: "map int ?h \<noteq> []" using Pne len(2) by (auto simp: get_parts_def)
  have rp: "replies evs = ev_peers (c_next_qid d) tab # map (ev_desc_tab (c_next_qid d)) tabs @
      map (\<lambda>a. ev_data (c_next_qid d) a (N a) (B a)) as"
    using net(1) tab(1) D(1) parts(1) unfolding tabs_def by simp
  obtain d' rest where "dcg_obj_get c0 od evs d = Some (0, od\<lparr>data := A\<rparr>, d', rest)" "client_ok d'" "c_qt d' = c_qt d"
    using dcg_obj_get_run [OF assms(2) ps len(1) hne len(2) Pne parts(2) rp A(1)] by blast
  then show ?thesis using A(2) cover by blast
qed

subsection \<open>Every request is answered\<close>

lemma answered_exist:
  assumes "cluster_run n gd cl0 H cl" "\<And>req. req \<in> set rs \<Longrightarrow> serve cid (snd req) (cl (fst req)) \<noteq> None"
  shows "answered n gd cl0 H cid rs (map (\<lambda>req. fst (the (serve cid (snd req) (cl (fst req))))) rs)"
proof -
  have "list_all2 (answers n gd cl0 H cid) rs (map (\<lambda>req. fst (the (serve cid (snd req) (cl (fst req))))) rs)"
    unfolding list_all2_map2 list_all2_same
  proof
    fix req assume "req \<in> set rs"
    then obtain ev g where "serve cid (snd req) (cl (fst req)) = Some (ev, g)" using assms(2) by fastforce
    then show "answers n gd cl0 H cid req (fst (the (serve cid (snd req) (cl (fst req)))))"
      using assms(1) unfolding answers_def by auto
  qed
  then show ?thesis by (auto simp: answered_def)
qed

lemma serve_desc_defined:
  assumes "started ss0 n gd m cl0 H" "cluster_run n gd cl0 H cl" "k \<in> set (hash_v2 ss0 (od_bb (oh_odsc oh)))"
    "oh_gdim oh = gd" "complete_field m H (oh_odsc oh)" "query_ok gd (oh_odsc oh)"
  shows "serve cid (C_get_desc oh) (cl (int k)) \<noteq> None"
proof -
  have v: "v2_ok ss0" "bb_glb_domain (dht ss0) = gdim_domain gd" "num_entries (dht ss0) = n"
    using assms(1) by (auto simp: started_def)
  have k: "0 \<le> int k" "int k < int n" using assms(3) v(3) by (auto simp: hash_v2_def)
  note m = startedD [OF assms(1,2) k, unfolded nat_int]
  show ?thesis
    using serve_desc [OF m(1) assms(4) dir_nonempty [OF m(2) assms(5,6) v(1,2) assms(3)], of cid] by (metis option.distinct(1))
qed

lemma serve_part_defined:
  assumes "started ss0 n gd m cl0 H" "cluster_run n gd cl0 H cl" "complete_field m H (q_obj e)" "query_ok gd (q_obj e)"
    "part_of H (q_obj e) (obj_desc od)"
  shows "serve cid (snd (part_request e od)) (cl (fst (part_request e od))) \<noteq> None"
proof -
  let ?Q = "q_obj e"
  obtain r where r: "r \<in> set H" "is_part ?Q r" "bbox_does_intersect (od_bb (put_desc r)) (od_bb ?Q)"
    "obj_desc od = part_desc ?Q r" using assms(5) unfolding part_of_def by blast
  let ?oh = "\<lparr>oh_qid = q_id e, oh_rank = 0, oh_rc = 0, oh_odsc = (obj_desc od)\<lparr>od_version := od_version ?Q\<rparr>, oh_gdim = q_gdim e\<rparr>"
  have own: "od_owner (put_desc r) = fst r" by (simp add: put_desc_def split: prod.splits)
  have d: "(obj_desc od)\<lparr>od_version := od_version ?Q\<rparr> = part_desc ?Q r"
    using r(2,4) by (simp add: part_desc_def reply_desc_def is_part_def)
  have p: "0 \<le> fst r" "fst r < int n" using cluster_run_puts [OF assms(2) r(1)] by auto
  note s = startedD [OF assms(1,2) p]
  obtain src where src: "ls_find (g_ls (cl (fst r))) (part_desc ?Q r) = Some src" "stored_as src r"
    using store_finds_part [OF s(3) assms(3,4) r(1-3)] by blast
  have f: "ls_find (g_ls (cl (fst r))) (oh_odsc ?oh) = Some src" using src(1) d by simp
  have ds: "obj_desc src = put_desc r" using src(2) by (simp add: stored_as_def)
  have c: "\<And>to. obj_desc to = oh_odsc ?oh \<Longrightarrow> copy_compat to src"
    using part_compat(1) [OF assms(3,4) r(1-3) _ ds] d by simp
  obtain ev g where "serve cid (C_get ?oh (od_addr od)) (cl (fst r)) = Some (ev, g)"
    using serve_get [OF s(1) f c, of cid "od_addr od"] by metis
  moreover have "part_request e od = (fst r, C_get ?oh (od_addr od))"
    using r(4) own by (simp add: part_request_def)
  ultimately show ?thesis by simp
qed

lemma get_net_exists:
  assumes "started ss0 n gd m cl0 H" "cluster_run n gd cl0 H cl" "c_num_sp d = n" "0 < n" "od_gdim od = gd"
    "query_ok gd (obj_desc od)" "complete_field m H (obj_desc od)"
  shows "\<exists>evs. get_net n gd cl0 H od d evs"
proof -
  let ?Q = "obj_desc od" and ?oh = "get_header od d" and ?h = "hash_v2 ss0 (od_bb (obj_desc od))"
  let ?ask = "\<lambda>rs. map (\<lambda>req. fst (the (serve (c_id d) (snd req) (cl (fst req))))) rs"
  have oh: "oh_odsc ?oh = ?Q" "oh_gdim ?oh = gd" "oh_qid ?oh = c_next_qid d" using assms(5) by (simp_all add: get_header_def)
  have wp: "0 \<le> dcg_which_peer d" "dcg_which_peer d < int n" using assms(3,4) by (simp_all add: dcg_which_peer_def)
  have v: "v2_ok ss0" using assms(1) by (simp add: started_def)
  obtain g tab where "serve (c_id d) (C_get_dht_peers ?oh) (cl (dcg_which_peer d)) =
      Some (ev_peers (oh_qid ?oh) (\<lambda>i. tab ! i), g)"
    using serve_peers [OF startedD(1) [OF assms(1,2) wp] v oh(2)] by metis
  then have ev: "answers n gd cl0 H (c_id d) (dcg_which_peer d, C_get_dht_peers ?oh) (ev_peers (oh_qid ?oh) (\<lambda>i. tab ! i))"
    using assms(2) unfolding answers_def by auto
  let ?ev = "ev_peers (oh_qid ?oh) (\<lambda>i. tab ! i)"
  have ps: "peers_of n ?ev = map int ?h" using answers_peers [OF assms(1) ev wp oh(2)] oh(1) by auto
  define rs1 where "rs1 = map (\<lambda>p. (p, C_get_desc ?oh)) (map int ?h)"
  define evs1 where "evs1 = ?ask rs1"
  have a1: "answered n gd cl0 H (c_id d) rs1 evs1"
    unfolding evs1_def
    using serve_desc_defined [OF assms(1,2), of _ ?oh "c_id d"] oh assms(6,7)
    by (intro answered_exist [OF assms(2)]) (auto simp: rs1_def)
  note D = answered_descs [OF assms(1) oh(2), of "c_id d" evs1, unfolded oh(1,3), OF assms(7,6) a1 [unfolded rs1_def]]
  define ods where "ods = get_parts od d (map descs_of evs1)"
  define rs2 where "rs2 = map (part_request (new_tran od d)) ods"
  define evs2 where "evs2 = ?ask rs2"
  have e: "q_obj (new_tran od d) = ?Q" by (simp add: new_tran_def)
  have T: "\<forall>t\<in>set (map descs_of evs1). \<forall>x\<in>set t. part_of H ?Q x" using D(3) by auto
  have P: "\<forall>x\<in>set ods. part_of H ?Q (obj_desc x)" using get_parts_part_of [OF T] unfolding ods_def by blast
  have a2: "answered n gd cl0 H (c_id d) rs2 evs2"
    unfolding evs2_def
    using serve_part_defined [OF assms(1,2), of "new_tran od d" _ "c_id d"] P assms(6,7) e
    by (intro answered_exist [OF assms(2)]) (auto simp: rs2_def)
  obtain as N B where E: "evs2 = map (\<lambda>a. ev_data (q_id (new_tran od d)) a (N a) (B a)) as"
    using answered_parts [OF assms(1), of "new_tran od d" ods "c_id d" evs2, unfolded e, OF assms(7,6) _ P]
      get_parts_addr a2 unfolding rs2_def ods_def by blast
  have "replies evs1 = evs1" "replies evs2 = evs2"
    by (subst (1 2) D(1), simp add: replies_def bystander_def filter_id_conv, simp add: E replies_def bystander_def filter_id_conv)
  then have "replies (?ev # evs1 @ evs2) = ?ev # evs1 @ evs2" by (simp add: bystander_def replies_def)
  then show ?thesis using ev a1 a2 ps unfolding get_net_def rs1_def rs2_def ods_def by metis
qed

subsection \<open>Started servers\<close>

lemma started_boot:
  assumes "cluster_boot max_ndim n conf_text conf cl0"
  obtains ss0 where "\<And>H. started ss0 n (conf_gdim conf) (nat (cf_max_versions conf)) cl0 H"
proof -
  obtain ss0 where s: "cluster_inv ss0 (conf_gdim conf) (nat (cf_max_versions conf)) [] cl0"
    "bb_glb_domain (dht ss0) = gdim_domain (conf_gdim conf)" "num_entries (dht ss0) = n"
    using boot_inv [OF assms] by blast
  then have "v2_ok ss0" by (simp add: cluster_inv_def cluster_ok_def)
  then have "started ss0 n (conf_gdim conf) (nat (cf_max_versions conf)) cl0 H" for H
    using cluster_run_inv [OF _ s] s(2,3) by (auto simp: started_def)
  then show ?thesis using that by blast
qed

lemma dsg_alloc_boots:
  assumes "fresh_process g0" "parse_conf max_ndim conf_text (conf_default conf_zero) = Some (0, conf)" "conf_valid max_ndim conf"
    "cf_hash_version conf = 2" "0 < cf_max_versions conf" "0 \<le> cf_ndim conf" "dom_ok (gdim_domain (conf_gdim conf))"
    "0 < n" "n < 2 ^ 31"
  shows "\<exists>g. dsg_alloc max_ndim n r True True conf_text conf_zero g0 = Some (Some g)"
proof -
  let ?e = "g_ss_env g0 (g_brk g0)"
  have e: "e_ss_ok ?e" "\<forall>i. e_malloc_ok ?e i" "g_rc g0 = (\<lambda>_. 0)" using assms(1) by (auto simp: fresh_process_def)
  obtain ss where "ssd_alloc_v2 (g_brk g0) (e_dim ?e) (e_tab ?e) (e_ss_ok ?e) (e_malloc_ok ?e)
      (gdim_domain (conf_gdim conf)) n (nat (cf_max_versions conf)) = Some (Some ss)"
    using ssd_alloc_v2_leaves [OF assms(7-9) e(1,2)] by blast
  then have "ssd_alloc (?e\<lparr>e_addr := g_brk g0\<rparr>) (gdim_domain (conf_gdim conf)) n (nat (cf_max_versions conf)) ssd_hash_version_v2 =
      Some (Some ss)" by (simp add: ssd_alloc_def)
  then show ?thesis
    using assms(2-6) e(3)
    by (simp add: dsg_alloc_def attempt_def init_sspace_def hash_version_of_def conf_gdim_def ls_alloc_def)
qed

lemma boot_exists:
  assumes "parse_conf max_ndim conf_text (conf_default conf_zero) = Some (0, conf)" "conf_valid max_ndim conf"
    "cf_hash_version conf = 2" "0 < cf_max_versions conf" "0 \<le> cf_ndim conf" "dom_ok (gdim_domain (conf_gdim conf))"
    "0 < n" "n < 2 ^ 31"
  shows "\<exists>cl. cluster_boot max_ndim n conf_text conf cl"
proof -
  fix g :: ds_gspace
  let ?g0 = "g\<lparr>g_pending := [], g_freed := [], g_cache := [], g_rc := (\<lambda>_. 0),
    g_ss_env := (\<lambda>k. (g_ss_env g k)\<lparr>e_ss_ok := True, e_malloc_ok := (\<lambda>_. True)\<rparr>)\<rparr>"
  have f: "fresh_process ?g0" by (simp add: fresh_process_def)
  have "\<forall>r. \<exists>g. dsg_alloc max_ndim n r True True conf_text conf_zero ?g0 = Some (Some g)"
    using dsg_alloc_boots [OF f assms] by blast
  then obtain cl where "\<forall>r. dsg_alloc max_ndim n r True True conf_text conf_zero ?g0 = Some (Some (cl r))" by metis
  then show ?thesis using assms f unfolding cluster_boot_def by blast
qed

subsection \<open>An instance\<close>

text \<open>Two servers, a domain of eight cells, one put of all of them, a query of four.\<close>

definition conf_text8 :: string where
  "conf_text8 = ''ndim = 1'' @ [CHR 0x0A] @ ''dims = 8'' @ [CHR 0x0A] @ ''max_versions = 2'' @ [CHR 0x0A] @
     ''hash_version = 2'' @ [CHR 0x0A]"

definition row :: "u64 \<Rightarrow> u64 \<Rightarrow> obj_descriptor" where
  "row l u = \<lparr>od_name = ''u'', od_st = column_major, od_owner = 0, od_version = 3,
     od_bb = \<lparr>num_dims = 1, lb = vec [l], ub = vec [u]\<rparr>, od_size = 1\<rparr>"

definition put8 :: "global_dimension \<Rightarrow> put_rec" where
  "put8 gd = (1, \<lparr>hp_odsc = row 0 7, hp_gdim = gd\<rparr>, of_nat)"

definition query8 :: "global_dimension \<Rightarrow> obj_data" where
  "query8 gd = \<lparr>od_addr = 0, obj_desc = row 2 5, od_gdim = gd, data = (\<lambda>_. 0), own_data = True, obj_ref = None,
     refcnt = 0, f_free = False\<rparr>"

lemma conf8:
  obtains conf where "parse_conf 10 conf_text8 (conf_default conf_zero) = Some (0, conf)" "cf_ndim conf = 1"
    "cf_dims conf 0 = 8" "cf_max_versions conf = 2" "cf_hash_version conf = 2" "conf_valid 10 conf"
proof -
  have "map_option (\<lambda>(e, c). (e, cf_ndim c, cf_dims c 0, cf_max_versions c, cf_hash_version c, conf_valid 10 c))
      (parse_conf 10 conf_text8 (conf_default conf_zero)) = Some (0, 1, 8, 2, 2, True)"
    by code_simp
  then show ?thesis using that by auto
qed

lemma boot8:
  obtains conf cl where "cluster_boot 10 2 conf_text8 conf cl" "ndim (conf_gdim conf) = 1" "sizes (conf_gdim conf) 0 = 8"
    "cf_max_versions conf = 2"
proof -
  obtain conf where c: "parse_conf 10 conf_text8 (conf_default conf_zero) = Some (0, conf)" "cf_ndim conf = 1"
    "cf_dims conf 0 = 8" "cf_max_versions conf = 2" "cf_hash_version conf = 2" "conf_valid 10 conf"
    by (rule conf8)
  have "dom_ok (gdim_domain (conf_gdim conf))"
    using c(2,3) by (simp add: dom_ok_def gdim_domain_def conf_gdim_def bbox_wf_def)
  then show ?thesis
    using boot_exists [OF c(1,6,5), of 2] c(2-4) that by (auto simp: conf_gdim_def)
qed

lemma in_bbox1: "in_bbox \<lparr>num_dims = Suc 0, lb = vec [l], ub = vec [u]\<rparr> x \<longleftrightarrow> l \<le> x 0 \<and> x 0 \<le> u"
  by (simp add: in_bbox_def)

lemma put8_ok:
  assumes "ndim gd = 1" "sizes gd 0 = 8"
  shows "put_ok 2 gd 1 \<lparr>hp_odsc = row 0 7, hp_gdim = gd\<rparr>"
  using assms by (auto simp: put_ok_def row_def gdim_domain_def in_bbox_def intro!: exI [of _ "\<lambda>_. 3"])

lemma query8_ok:
  assumes "ndim gd = 1" "sizes gd 0 = 8"
  shows "query_ok gd (row 2 5)" "complete_field 2 [put8 gd] (row 2 5)"
proof -
  have vol: "bbox_vol \<lparr>num_dims = Suc 0, lb = vec [l], ub = vec [u]\<rparr> = unat u - unat l + 1" for l u
    by (simp add: bbox_vol_def)
  show "query_ok gd (row 2 5)"
    using assms by (auto simp: query_ok_def row_def gdim_domain_def in_bbox_def obj_fits_def bbox_wf_def vol
        intro: order_trans)
  show "complete_field 2 [put8 gd] (row 2 5)"
    by (auto simp: complete_field_def put8_def is_part_def put_desc_def row_def put_live_def obj_fits_def bbox_wf_def vol
        in_bbox1 intro: order_trans)
qed

lemma run8:
  assumes "cluster_boot 10 2 conf_text8 conf cl0" "ndim (conf_gdim conf) = 1" "sizes (conf_gdim conf) 0 = 8"
  obtains cl where "cluster_put 1 5 \<lparr>hp_odsc = row 0 7, hp_gdim = conf_gdim conf\<rparr> of_nat cl0 = Some cl"
    "cluster_run 2 (conf_gdim conf) cl0 [put8 (conf_gdim conf)] cl"
proof -
  let ?gd = "conf_gdim conf"
  obtain ss0 where s: "\<And>H. started ss0 2 ?gd (nat (cf_max_versions conf)) cl0 H" using started_boot [OF assms(1)] by blast
  have "cluster_inv ss0 ?gd (nat (cf_max_versions conf)) [] cl0" "bb_glb_domain (dht ss0) = gdim_domain ?gd"
    "num_entries (dht ss0) = 2"
    using s [of "[]"] cluster_run.start by (auto simp: started_def)
  then obtain cl where "cluster_put 1 5 \<lparr>hp_odsc = row 0 7, hp_gdim = ?gd\<rparr> of_nat cl0 = Some cl"
    using cluster_inv_put put8_ok [OF assms(2,3)] by metis
  then show thesis
    using that cluster_run.put [OF cluster_run.start put8_ok [OF assms(2,3)]] by (simp add: put8_def)
qed

subsection \<open>Properties\<close>



text \<open>C1: a get returns what was put. Servers are started from one configuration that selects the
  bisection, puts and requests reach them in any order; the puts of the queried version cover the
  query, do not overlap and were not replaced. Then, for every order in which the answers reach the
  client, mixed with other events, \<open>dcg_obj_get\<close> returns 0, every cell of the query has the bytes that
  were put for it, and the transaction is gone.\<close>

theorem get_returns_what_was_put:
  assumes "cluster_boot max_ndim n conf_text conf cl0" "client_ok d" "0 \<le> c_id d" "c_num_sp d = n"
    "od_gdim od = conf_gdim conf" "query_ok (conf_gdim conf) (obj_desc od)"
    "complete_field (nat (cf_max_versions conf)) H (obj_desc od)" "get_net n (conf_gdim conf) cl0 H od d evs"
  shows "\<exists>d' rest A. dcg_obj_get c0 od evs d = Some (0, od\<lparr>data := A\<rparr>, d', rest) \<and> client_ok d' \<and> c_qt d' = c_qt d \<and>
    (\<forall>r x t. r \<in> set H \<and> is_part (obj_desc od) r \<and> in_bbox (od_bb (obj_desc od)) x \<and> in_bbox (od_bb (put_desc r)) x \<and>
       t < unat (od_size (obj_desc od)) \<longrightarrow> cell_byte (od\<lparr>data := A\<rparr>) x t = put_byte r x t)"
proof -
  have "0 < n" using assms(1) by (simp add: cluster_boot_def)
  then show ?thesis using started_boot [OF assms(1)] get_assembles [OF _ assms(2,4) _ assms(5-8)] by metis
qed

theorem get_returns_what_was_put_witness:
  "\<exists>conf cl d evs d' rest A. cluster_boot 10 2 conf_text8 conf cl \<and>
     dcg_alloc None True (Some (7, 2, 4)) (\<lambda>_. 0) (\<lambda>_. 9) = Some d \<and>
     dcg_obj_get \<lparr>num_dims = 0, lb = vec [], ub = vec []\<rparr> (query8 (conf_gdim conf)) evs d =
       Some (0, (query8 (conf_gdim conf))\<lparr>data := A\<rparr>, d', rest) \<and> A 1 = 3"
proof -
  obtain conf cl0 where c: "cluster_boot 10 2 conf_text8 conf cl0" "ndim (conf_gdim conf) = 1" "sizes (conf_gdim conf) 0 = 8"
    "cf_max_versions conf = 2" by (rule boot8)
  let ?gd = "conf_gdim conf"
  obtain cl where r: "cluster_run 2 ?gd cl0 [put8 ?gd] cl" by (rule run8 [OF c(1-3)])
  obtain ss0 where s: "started ss0 2 ?gd 2 cl0 [put8 ?gd]" using started_boot [OF c(1)] c(4) by auto
  obtain d where d: "dcg_alloc None True (Some (7, 2, 4)) (\<lambda>_. 0) (\<lambda>_. 9) = Some d" "client_ok d" "c_num_sp d = 2" "c_id d = 7"
    by (simp add: dcg_alloc_def client_ok_def)
  have q: "od_gdim (query8 ?gd) = ?gd" "query_ok ?gd (obj_desc (query8 ?gd))" "complete_field 2 [put8 ?gd] (obj_desc (query8 ?gd))"
    using query8_ok [OF c(2,3)] by (simp_all add: query8_def)
  obtain evs where e: "get_net 2 ?gd cl0 [put8 ?gd] (query8 ?gd) d evs"
    using get_net_exists [OF s r d(3) _ q] by auto
  have id: "0 \<le> c_id d" using d(4) by simp
  have cf: "complete_field (nat (cf_max_versions conf)) [put8 ?gd] (obj_desc (query8 ?gd))" using q(3) c(4) by simp
  obtain d' rest A where g: "dcg_obj_get \<lparr>num_dims = 0, lb = vec [], ub = vec []\<rparr> (query8 ?gd) evs d =
      Some (0, (query8 ?gd)\<lparr>data := A\<rparr>, d', rest)"
    "\<forall>r x t. r \<in> set [put8 ?gd] \<and> is_part (obj_desc (query8 ?gd)) r \<and> in_bbox (od_bb (obj_desc (query8 ?gd))) x \<and>
       in_bbox (od_bb (put_desc r)) x \<and> t < unat (od_size (obj_desc (query8 ?gd))) \<longrightarrow>
       cell_byte ((query8 ?gd)\<lparr>data := A\<rparr>) x t = put_byte r x t"
    using get_returns_what_was_put [OF c(1) d(2) id d(3) q(1,2) cf e] by blast
  have "A 1 = 3"
    using g(2) [rule_format, of "put8 ?gd" "\<lambda>_. 3" 0]
    by (simp add: query8_def put8_def is_part_def row_def put_desc_def in_bbox1 cell_byte_def put_byte_def cell_index_def mindex_def)
  then show ?thesis using c(1) d(1) g(1) by blast
qed



end
