(* ===== verification/DS_List.thy ===== *)
theory DS_List
  imports DS_Prelude "HOL-Library.Monad_Syntax"
begin

text \<open>
  The intrusive doubly linked lists of src/dart/list.h, over a heap of \<open>struct list_head\<close>. Everywhere
  else the development models a list of the program as the list of its elements; here the pointer
  operations are shown to implement that, and the traversals to visit the elements in order, also
  when the body of the loop unlinks the current element.
\<close>

subsection \<open>Operations\<close>

record list_head =
  l_next :: nat
  l_prev :: nat

type_synonym heap = "nat \<Rightarrow> list_head"

definition set_next :: "nat \<Rightarrow> nat \<Rightarrow> heap \<Rightarrow> heap" where
  "set_next p v h = h(p := (h p)\<lparr>l_next := v\<rparr>)"

definition set_prev :: "nat \<Rightarrow> nat \<Rightarrow> heap \<Rightarrow> heap" where
  "set_prev p v h = h(p := (h p)\<lparr>l_prev := v\<rparr>)"

text \<open>\<open>__list_add\<close>.\<close>

definition list_link :: "nat \<Rightarrow> nat \<Rightarrow> nat \<Rightarrow> heap \<Rightarrow> heap" where
  "list_link np p n h = set_prev n np (set_next p np (set_prev np p (set_next np n h)))"

definition INIT_LIST_HEAD :: "nat \<Rightarrow> heap \<Rightarrow> heap" where
  "INIT_LIST_HEAD l h = set_prev l l (set_next l l h)"

definition list_add :: "nat \<Rightarrow> nat \<Rightarrow> heap \<Rightarrow> heap" where
  "list_add np head h = list_link np head (l_next (h head)) h"

definition list_add_tail :: "nat \<Rightarrow> nat \<Rightarrow> heap \<Rightarrow> heap" where
  "list_add_tail np head h = list_link np (l_prev (h head)) head h"

definition list_add_before_pos :: "nat \<Rightarrow> nat \<Rightarrow> heap \<Rightarrow> heap" where
  "list_add_before_pos np pos h = list_link np (l_prev (h pos)) pos h"

definition list_del :: "nat \<Rightarrow> heap \<Rightarrow> heap" where
  "list_del old h =
     (let h = set_next (l_prev (h old)) (l_next (h old)) h;
          h = set_prev (l_next (h old)) (l_prev (h old)) h
      in set_prev old 0 (set_next old 0 h))"

definition list_empty :: "nat \<Rightarrow> heap \<Rightarrow> bool" where
  "list_empty head h \<longleftrightarrow> l_next (h head) = head"

text \<open>
  \<open>list_for_each_entry\<close> from position \<open>pos\<close>: the elements visited; \<open>list_for_each_entry_safe\<close> with a body
  that unlinks the elements with \<open>P\<close>, the successor being read before the body runs.
\<close>

partial_function (option) list_for_each :: "nat \<Rightarrow> nat \<Rightarrow> heap \<Rightarrow> nat list option" where
  "list_for_each pos head h =
     (if pos = head then Some [] else do { xs \<leftarrow> list_for_each (l_next (h pos)) head h; Some (pos # xs) })"

partial_function (option) list_for_each_safe_del :: "(nat \<Rightarrow> bool) \<Rightarrow> nat \<Rightarrow> nat \<Rightarrow> nat \<Rightarrow> heap \<Rightarrow> heap option" where
  "list_for_each_safe_del P pos n head h =
     (if pos = head then Some h
      else let h = (if P pos then list_del pos h else h) in list_for_each_safe_del P n (l_next (h n)) head h)"

subsection \<open>Rings\<close>

text \<open>\<open>xs\<close> are the elements between \<open>a\<close> and \<open>b\<close>.\<close>

fun seg :: "heap \<Rightarrow> nat \<Rightarrow> nat list \<Rightarrow> nat \<Rightarrow> bool" where
  "seg h a [] b \<longleftrightarrow> l_next (h a) = b \<and> l_prev (h b) = a"
| "seg h a (x # xs) b \<longleftrightarrow> l_next (h a) = x \<and> l_prev (h x) = a \<and> seg h x xs b"

definition ring :: "heap \<Rightarrow> nat \<Rightarrow> nat list \<Rightarrow> bool" where
  "ring h head xs \<longleftrightarrow> distinct (head # xs) \<and> seg h head xs head"

lemma seg_append: "seg h a (xs @ m # ys) b \<longleftrightarrow> seg h a xs m \<and> seg h m ys b"
  by (induction xs arbitrary: a) auto

lemma set_link_sel [simp]:
  "l_next (set_next p v h q) = (if q = p then v else l_next (h q))" "l_prev (set_next p v h q) = l_prev (h q)"
  "l_next (set_prev p v h q) = l_next (h q)" "l_prev (set_prev p v h q) = (if q = p then v else l_prev (h q))"
  by (simp_all add: set_next_def set_prev_def)

lemma list_link_sel:
  assumes "np \<noteq> p" "np \<noteq> n"
  shows "l_next (list_link np p n h q) = (if q = p then np else if q = np then n else l_next (h q))"
    "l_prev (list_link np p n h q) = (if q = n then np else if q = np then p else l_prev (h q))"
  using assms by (simp_all add: list_link_def)

lemma list_del_sel:
  assumes "l_prev (h old) \<noteq> old" "l_next (h old) \<noteq> old"
  shows "l_next (list_del old h q) = (if q = old then 0 else if q = l_prev (h old) then l_next (h old) else l_next (h q))"
    "l_prev (list_del old h q) = (if q = old then 0 else if q = l_next (h old) then l_prev (h old) else l_prev (h q))"
  using assms by (auto simp: list_del_def Let_def)

lemma seg_cong:
  assumes "\<And>p. p \<in> set (a # xs) \<Longrightarrow> l_next (h' p) = l_next (h p)" "\<And>p. p \<in> set (b # xs) \<Longrightarrow> l_prev (h' p) = l_prev (h p)"
  shows "seg h' a xs b \<longleftrightarrow> seg h a xs b"
  using assms
proof (induction xs arbitrary: a)
  case (Cons x xs)
  then have "seg h' x xs b \<longleftrightarrow> seg h x xs b" by auto
  then show ?case using Cons.prems by simp
qed simp

lemma seg_ends: "seg h a xs b \<Longrightarrow> l_next (h a) = hd (xs @ [b]) \<and> l_prev (h b) = last (a # xs)"
  by (induction xs arbitrary: a) auto

text \<open>Linking between two neighbours.\<close>

lemma list_link_ring:
  assumes "ring h head (xs @ ys)" "np \<notin> set (head # xs @ ys)"
  shows "ring (list_link np (last (head # xs)) (hd (ys @ [head])) h) head (xs @ np # ys)"
proof -
  define p n where "p = last (head # xs)" and "n = hd (ys @ [head])"
  let ?h = "list_link np p n h"
  have d: "distinct (head # xs @ ys)" using assms(1) by (simp add: ring_def)
  have pn: "p \<in> set (head # xs)" "n \<in> set (ys @ [head])" using last_in_set [of "head # xs"] hd_in_set [of "ys @ [head]"]
    by (auto simp: p_def n_def)
  then have ne: "np \<noteq> p" "np \<noteq> n" using assms(2) by auto
  have "seg ?h head xs np"
  proof (cases xs rule: rev_cases)
    case Nil
    then have "p = head" by (simp add: p_def)
    then show ?thesis using Nil ne by (simp add: list_link_sel)
  next
    case (snoc zs z)
    have s: "seg h head zs z" "p = z" using assms(1) snoc by (simp_all add: ring_def seg_append p_def)
    have "seg ?h head zs z \<longleftrightarrow> seg h head zs z"
      by (rule seg_cong) (use assms(2) d snoc s(2) pn(2) ne in \<open>auto simp: list_link_sel\<close>)
    moreover have "l_next (?h z) = np" "l_prev (?h np) = z" using s(2) ne by (auto simp: list_link_sel)
    ultimately show ?thesis using s snoc by (simp add: seg_append)
  qed
  moreover have "seg ?h np ys head"
  proof (cases ys)
    case Nil
    then have "n = head" by (simp add: n_def)
    then show ?thesis using Nil ne by (simp add: list_link_sel)
  next
    case (Cons y zs)
    have s: "seg h y zs head" "n = y" using assms(1) Cons by (simp_all add: ring_def seg_append n_def)
    have "seg ?h y zs head \<longleftrightarrow> seg h y zs head"
      by (rule seg_cong) (use assms(2) d Cons s(2) pn(1) ne in \<open>auto simp: list_link_sel\<close>)
    moreover have "l_next (?h np) = y" "l_prev (?h y) = np" using s(2) ne by (auto simp: list_link_sel)
    ultimately show ?thesis using s Cons by simp
  qed
  ultimately show ?thesis using assms(2) d by (simp add: ring_def seg_append p_def n_def)
qed

lemma ring_ends:
  assumes "ring h head xs"
  shows "l_next (h head) = hd (xs @ [head])" "l_prev (h head) = last (head # xs)"
  using seg_ends [of h head xs head] assms by (simp_all add: ring_def)

lemma list_add_ring: "ring h head xs \<Longrightarrow> np \<notin> set (head # xs) \<Longrightarrow> ring (list_add np head h) head (np # xs)"
  using list_link_ring [of h head "[]" xs np] ring_ends [of h head xs] by (simp add: list_add_def)

lemma list_add_tail_ring:
  "ring h head xs \<Longrightarrow> np \<notin> set (head # xs) \<Longrightarrow> ring (list_add_tail np head h) head (xs @ [np])"
  using list_link_ring [of h head xs "[]" np] ring_ends [of h head xs] by (simp add: list_add_tail_def)

lemma list_add_before_pos_ring:
  assumes "ring h head (xs @ pos # ys)" "np \<notin> set (head # xs @ pos # ys)"
  shows "ring (list_add_before_pos np pos h) head (xs @ np # pos # ys)"
proof -
  have "l_prev (h pos) = last (head # xs)"
    using assms(1) seg_ends [of h head xs pos] by (simp add: ring_def seg_append)
  then show ?thesis using list_link_ring [of h head xs "pos # ys" np] assms by (simp add: list_add_before_pos_def)
qed

lemma INIT_LIST_HEAD_ring: "ring (INIT_LIST_HEAD l h) l []"
  by (simp add: ring_def INIT_LIST_HEAD_def)

lemma list_del_ring:
  assumes "ring h head (xs @ old # ys)"
  shows "ring (list_del old h) head (xs @ ys)"
    "\<And>q. q \<in> set ys \<Longrightarrow> l_next (list_del old h q) = l_next (h q)"
proof -
  define p n where "p = last (head # xs)" and "n = hd (ys @ [head])"
  let ?h = "list_del old h"
  have d: "distinct (head # xs @ old # ys)" and s: "seg h head xs old" "seg h old ys head"
    using assms by (simp_all add: ring_def seg_append)
  have e: "l_prev (h old) = p" "l_next (h old) = n" using seg_ends [OF s(1)] seg_ends [OF s(2)] by (auto simp: p_def n_def)
  have pn: "p \<in> set (head # xs)" "n \<in> set (ys @ [head])" using last_in_set [of "head # xs"] hd_in_set [of "ys @ [head]"]
    by (auto simp: p_def n_def)
  then have ne: "p \<noteq> old" "n \<noteq> old" using d by auto
  note L = list_del_sel [of h old, unfolded e, OF ne]
  show "l_next (?h q) = l_next (h q)" if "q \<in> set ys" for q using that d pn(1) by (auto simp: L)
  have front: "seg ?h head zs z" if "xs = zs @ [z]" for zs z
  proof -
    have "seg ?h head zs z \<longleftrightarrow> seg h head zs z"
      by (rule seg_cong) (use that d pn(2) in \<open>auto simp: L p_def\<close>)
    then show ?thesis using s(1) that by (simp add: seg_append)
  qed
  have rear: "seg ?h y zs head" if "ys = y # zs" for y zs
  proof -
    have "seg ?h y zs head \<longleftrightarrow> seg h y zs head"
      by (rule seg_cong) (use that d pn(1) in \<open>auto simp: L n_def\<close>)
    then show ?thesis using s(2) that by simp
  qed
  have mid: "l_next (?h p) = n" "l_prev (?h n) = p" using ne by (auto simp: L)
  have "seg ?h head (xs @ ys) head"
  proof (cases xs rule: rev_cases)
    case Nil
    then show ?thesis using mid rear by (cases ys) (auto simp: p_def n_def)
  next
    case (snoc zs z)
    then show ?thesis using mid front [OF snoc] rear by (cases ys) (auto simp: p_def n_def seg_append)
  qed
  then show "ring ?h head (xs @ ys)" using d by (simp add: ring_def)
qed

subsection \<open>Traversals\<close>

lemma list_for_each_seg:
  assumes "seg h a xs head" "head \<notin> set xs"
  shows "list_for_each (l_next (h a)) head h = Some xs"
  using assms by (induction xs arbitrary: a) (simp_all add: list_for_each.simps)

lemma list_for_each_safe_del_ring:
  assumes "ring h head (xs @ ys)"
  shows "\<exists>h'. list_for_each_safe_del P (hd (ys @ [head])) (l_next (h (hd (ys @ [head])))) head h = Some h' \<and>
    ring h' head (xs @ filter (\<lambda>y. \<not> P y) ys)"
  using assms
proof (induction ys arbitrary: xs h)
  case Nil
  then show ?case by (simp add: list_for_each_safe_del.simps)
next
  case (Cons y ys)
  have d: "distinct (head # xs @ y # ys)" and s: "seg h y ys head" using Cons.prems by (simp_all add: ring_def seg_append)
  have n: "l_next (h y) = hd (ys @ [head])" using seg_ends [OF s] by simp
  show ?case
  proof (cases "P y")
    case True
    have r: "ring (list_del y h) head (xs @ ys)" by (rule list_del_ring(1) [OF Cons.prems])
    from Cons.IH [OF r] obtain h' where
      "list_for_each_safe_del P (hd (ys @ [head])) (l_next (list_del y h (hd (ys @ [head])))) head (list_del y h) = Some h'"
      "ring h' head (xs @ filter (\<lambda>y. \<not> P y) ys)" by blast
    then show ?thesis using d True n by (simp add: list_for_each_safe_del.simps [of P y] Let_def)
  next
    case False
    have r: "ring h head ((xs @ [y]) @ ys)" using Cons.prems by simp
    from Cons.IH [OF r] obtain h' where
      "list_for_each_safe_del P (hd (ys @ [head])) (l_next (h (hd (ys @ [head])))) head h = Some h'"
      "ring h' head (xs @ y # filter (\<lambda>y. \<not> P y) ys)" by auto
    then show ?thesis using d False n by (simp add: list_for_each_safe_del.simps [of P y] Let_def)
  qed
qed

subsection \<open>Properties\<close>

lemma list_for_each_ring: "ring h head xs \<Longrightarrow> list_for_each (l_next (h head)) head h = Some xs"
  by (rule list_for_each_seg) (auto simp: ring_def)

lemma list_empty_ring: "ring h head xs \<Longrightarrow> list_empty head h \<longleftrightarrow> xs = []"
  using ring_ends(1) [of h head xs] by (cases xs) (auto simp: list_empty_def ring_def)

text \<open>C10: the pointer operations implement lists: on a ring that links the elements \<open>xs @ pos # ys\<close>, adding
  in front, at the end and before an element, and unlinking an element, link exactly the elements one
  expects, the test for emptiness is right, and a traversal ends after visiting the elements in order.\<close>

theorem list_operations_implement_lists:
  assumes "ring h head (xs @ pos # ys)" "np \<notin> set (head # xs @ pos # ys)"
  shows "ring (list_add np head h) head (np # xs @ pos # ys) \<and>
    ring (list_add_tail np head h) head (xs @ pos # ys @ [np]) \<and>
    ring (list_add_before_pos np pos h) head (xs @ np # pos # ys) \<and>
    ring (list_del pos h) head (xs @ ys) \<and>
    (list_empty head (list_del pos h) \<longleftrightarrow> xs @ ys = []) \<and>
    list_for_each (l_next (h head)) head h = Some (xs @ pos # ys)"
  using list_add_ring [OF assms] list_add_tail_ring [OF assms] list_add_before_pos_ring [OF assms]
    list_del_ring(1) [OF assms(1)] list_empty_ring [OF list_del_ring(1) [OF assms(1)]] list_for_each_ring [OF assms(1)]
  by simp_all

definition heap3 :: heap where
  "heap3 = list_add_tail 3 1 (list_add 2 1 (INIT_LIST_HEAD 1 (\<lambda>_. \<lparr>l_next = 0, l_prev = 0\<rparr>)))"

lemma heap3_ring: "ring heap3 1 [2, 3]"
  using list_add_tail_ring [OF list_add_ring [OF INIT_LIST_HEAD_ring], of 2 1 3] by (simp add: heap3_def)

theorem list_operations_implement_lists_witness:
  "ring heap3 1 [2, 3] \<and> ring (list_del 3 heap3) 1 [2] \<and> list_for_each (l_next (heap3 1)) 1 heap3 = Some [2, 3]"
  using list_operations_implement_lists [of heap3 1 "[2]" 3 "[]" 4] heap3_ring by simp

text \<open>C22: a loop with \<open>list_for_each_entry_safe\<close> whose body unlinks the elements with \<open>P\<close> visits the whole list,
  ends, and leaves a ring of the other elements in their order.\<close>

theorem safe_loop_may_unlink:
  assumes "ring h head xs"
  shows "\<exists>h'. list_for_each_safe_del P (l_next (h head)) (l_next (h (l_next (h head)))) head h = Some h' \<and>
    ring h' head (filter (\<lambda>x. \<not> P x) xs)"
  using list_for_each_safe_del_ring [of h head "[]" xs P] assms ring_ends(1) [OF assms] by simp

theorem safe_loop_may_unlink_witness:
  "\<exists>h'. list_for_each_safe_del (\<lambda>x. x < 3) (l_next (heap3 1)) (l_next (heap3 (l_next (heap3 1)))) 1 heap3 = Some h' \<and> ring h' 1 [3]"
  using safe_loop_may_unlink [OF heap3_ring, of "\<lambda>x. x < 3"] by simp

end
