(* ===== verification/DS_Buffer.thy ===== *)
theory DS_Buffer
  imports DS_Prelude "HOL-Library.Multiset"
begin

text \<open>
  The allocator of the DIMES buffer (src/src/dimes_data.c): free and used blocks in two lists sorted by
  size, best fit, and merging of a freed block with its free neighbours. Pointers and sizes are 64-bit
  words; the two global lists and the bounds of the buffer are the fields of \<open>dimes_buf\<close>. A failed
  malloc of a block structure is not checked by the code: the result is \<open>None\<close>.
\<close>

subsection \<open>Operations\<close>

datatype mem_block_status = free_block | used_block

record dimes_buf_block =
  block_size :: u64
  block_ptr :: u64
  block_status :: mem_block_status

record dimes_buf =
  buffer_size :: u64
  buffer_ptr :: u64
  free_blocks :: "dimes_buf_block list"
  used_blocks :: "dimes_buf_block list"

fun dimes_buf_insert_block :: "dimes_buf_block \<Rightarrow> dimes_buf_block list \<Rightarrow> dimes_buf_block list" where
  "dimes_buf_insert_block block [] = [block]"
| "dimes_buf_insert_block block (mb # mbs) =
     (if block_size block \<le> block_size mb then block # mb # mbs else mb # dimes_buf_insert_block block mbs)"

text \<open>The loop keeps the last match.\<close>

definition contiguous_block_before :: "dimes_buf_block \<Rightarrow> dimes_buf_block list \<Rightarrow> dimes_buf_block option" where
  "contiguous_block_before block = find (\<lambda>mb. block_ptr block = block_ptr mb + block_size mb) \<circ> rev"

definition contiguous_block_after :: "dimes_buf_block \<Rightarrow> dimes_buf_block list \<Rightarrow> dimes_buf_block option" where
  "contiguous_block_after block = find (\<lambda>mb. block_ptr mb = block_ptr block + block_size block) \<circ> rev"

text \<open>If both neighbours are one block, which needs a size of 0, it is unlinked and freed twice.\<close>

definition dimes_buf_insert_block_to_freelist ::
  "dimes_buf_block \<Rightarrow> dimes_buf_block list \<Rightarrow> dimes_buf_block list option" where
  "dimes_buf_insert_block_to_freelist block blocks =
     (let bef = contiguous_block_before block blocks;
          aft = contiguous_block_after block blocks
      in if bef \<noteq> None \<and> bef = aft then None
         else
           let (block, blocks) = (case aft of None \<Rightarrow> (block, blocks)
                 | Some mb \<Rightarrow> (block\<lparr>block_size := block_size block + block_size mb\<rparr>, remove1 mb blocks));
               (block, blocks) = (case bef of None \<Rightarrow> (block, blocks)
                 | Some mb \<Rightarrow> (block\<lparr>block_size := block_size block + block_size mb, block_ptr := block_ptr mb\<rparr>,
                               remove1 mb blocks))
           in Some (dimes_buf_insert_block (block\<lparr>block_status := free_block\<rparr>) blocks))"

definition dimes_buffer_init :: "u64 \<Rightarrow> u64 \<Rightarrow> dimes_buf \<Rightarrow> int \<times> dimes_buf" where
  "dimes_buffer_init base_addr sz b =
     (let b = b\<lparr>free_blocks := [], used_blocks := [], buffer_ptr := base_addr\<rparr> in
      if base_addr \<noteq> 0
      then (0, b\<lparr>buffer_size := sz, free_blocks := dimes_buf_insert_block
                   \<lparr>block_size = sz, block_ptr = base_addr, block_status = free_block\<rparr> []\<rparr>)
      else (- 1, b))"

definition dimes_buffer_finalize :: "dimes_buf \<Rightarrow> int \<times> dimes_buf" where
  "dimes_buffer_finalize b = (0, b\<lparr>free_blocks := [], used_blocks := []\<rparr>)"

definition dimes_buffer_total_size :: "dimes_buf \<Rightarrow> u64" where
  "dimes_buffer_total_size b = buffer_size b"

text \<open>The pointer is 0 when there is no space.\<close>

definition dimes_buffer_alloc :: "bool \<Rightarrow> u64 \<Rightarrow> dimes_buf \<Rightarrow> (u64 \<times> dimes_buf) option" where
  "dimes_buffer_alloc malloc_ok sz b =
     (if sz > buffer_size b then Some (0, b)
      else case find (\<lambda>mb. sz \<le> block_size mb) (free_blocks b) of
             None \<Rightarrow> Some (0, b)
           | Some mb \<Rightarrow>
               let frees = remove1 mb (free_blocks b);
                   used = mb\<lparr>block_status := used_block\<rparr>
               in if block_size mb = sz
                  then Some (block_ptr used, b\<lparr>free_blocks := frees, used_blocks := dimes_buf_insert_block used (used_blocks b)\<rparr>)
                  else if \<not> malloc_ok then None
                  else let rest = \<lparr>block_size = block_size mb - sz, block_ptr = block_ptr mb + sz, block_status = free_block\<rparr>;
                           used = used\<lparr>block_size := sz\<rparr>
                       in Some (block_ptr used,
                            b\<lparr>free_blocks := dimes_buf_insert_block rest frees,
                              used_blocks := dimes_buf_insert_block used (used_blocks b)\<rparr>))"

definition dimes_buffer_free :: "u64 \<Rightarrow> dimes_buf \<Rightarrow> dimes_buf option" where
  "dimes_buffer_free ptr b =
     (if ptr = 0 \<or> buffer_ptr b = 0 \<or> ptr < buffer_ptr b \<or> ptr > buffer_ptr b + buffer_size b - 1 then Some b
      else case find (\<lambda>mb. block_ptr mb = ptr) (used_blocks b) of
             None \<Rightarrow> Some b
           | Some mb \<Rightarrow>
               map_option (\<lambda>frees. b\<lparr>used_blocks := remove1 mb (used_blocks b), free_blocks := frees\<rparr>)
                 (dimes_buf_insert_block_to_freelist mb (free_blocks b)))"

subsection \<open>Checkpoints\<close>

record dimes_cr_allocator_block_info =
  ci_size :: u64
  ci_offset :: u64
  ci_block_status :: mem_block_status

record dimes_cr_allocator =
  num_used_blocks :: u32
  num_free_blocks :: u32
  shmem_obj_id :: int
  block_infos :: "dimes_cr_allocator_block_info list"

definition block_info :: "u64 \<Rightarrow> dimes_buf_block \<Rightarrow> dimes_cr_allocator_block_info" where
  "block_info base mb = \<lparr>ci_size = block_size mb, ci_offset = block_ptr mb - base, ci_block_status = block_status mb\<rparr>"

text \<open>The restart buffer is the header and the array of block entries behind it; \<open>buf\<close> is whether it is given.\<close>

definition dimes_client_shmem_checkpoint_allocator :: "int \<Rightarrow> bool \<Rightarrow> dimes_buf \<Rightarrow> int \<times> dimes_cr_allocator option" where
  "dimes_client_shmem_checkpoint_allocator obj_id buf b =
     (if \<not> buf then (- 1, None)
      else (0, Some
        \<lparr>num_used_blocks = of_nat (length (used_blocks b)), num_free_blocks = of_nat (length (free_blocks b)),
         shmem_obj_id = obj_id,
         block_infos = map (block_info (buffer_ptr b)) (free_blocks b) @ map (block_info (buffer_ptr b)) (used_blocks b)\<rparr>))"

definition restart_allocator_insert_block ::
  "u64 \<Rightarrow> dimes_cr_allocator_block_info \<Rightarrow> dimes_buf_block list \<Rightarrow> dimes_buf_block list" where
  "restart_allocator_insert_block base ci mbs =
     mbs @ [\<lparr>block_size = ci_size ci, block_ptr = base + ci_offset ci, block_status = ci_block_status ci\<rparr>]"

definition dimes_client_shmem_restart_allocator :: "dimes_cr_allocator \<Rightarrow> dimes_buf \<Rightarrow> dimes_buf" where
  "dimes_client_shmem_restart_allocator cr b =
     b\<lparr>free_blocks := fold (restart_allocator_insert_block (buffer_ptr b))
         (take (unat (num_free_blocks cr)) (block_infos cr)) (free_blocks b),
       used_blocks := fold (restart_allocator_insert_block (buffer_ptr b))
         (take (unat (num_used_blocks cr)) (drop (unat (num_free_blocks cr)) (block_infos cr))) (used_blocks b)\<rparr>"

definition sizeof_cr_allocator_info :: u64 where
  "sizeof_cr_allocator_info = 12"

definition sizeof_cr_allocator_block_info :: u64 where
  "sizeof_cr_allocator_block_info = 20"

definition estimate_allocator_restart_buf_size :: "u64 \<Rightarrow> dimes_buf \<Rightarrow> u64" where
  "estimate_allocator_restart_buf_size page_size b =
     (let num_free = of_nat (length (free_blocks b)) :: u32;
          num_used = of_nat (length (used_blocks b)) :: u32;
          bytes = sizeof_cr_allocator_info + sizeof_cr_allocator_block_info * ucast (num_free + num_used)
      in (bytes div page_size + 1) * page_size)"

subsection \<open>Bytes of blocks\<close>

definition b_lo :: "dimes_buf_block \<Rightarrow> nat" where
  "b_lo mb = unat (block_ptr mb)"

definition b_hi :: "dimes_buf_block \<Rightarrow> nat" where
  "b_hi mb = unat (block_ptr mb) + unat (block_size mb)"

definition in_blk :: "dimes_buf_block \<Rightarrow> nat \<Rightarrow> bool" where
  "in_blk mb a \<longleftrightarrow> b_lo mb \<le> a \<and> a < b_hi mb"

text \<open>The number of blocks a byte belongs to.\<close>

definition cover :: "nat \<Rightarrow> dimes_buf_block multiset \<Rightarrow> nat" where
  "cover a M = size {#mb \<in># M. in_blk mb a#}"

lemma cover_simps [simp]:
  "cover a {#} = 0" "cover a (add_mset x M) = (if in_blk x a then 1 else 0) + cover a M"
  "cover a (M + N) = cover a M + cover a N"
  by (simp_all add: cover_def)

lemma cover_diff: "x \<in># M \<Longrightarrow> cover a (M - {#x#}) + (if in_blk x a then 1 else 0) = cover a M"
  using cover_simps(2) [of a x "M - {#x#}"] by (simp add: insert_DiffM)

lemma cover_member: "x \<in># M \<Longrightarrow> in_blk x a \<Longrightarrow> 0 < cover a M"
  using cover_diff [of x M a] by simp

lemma cover_pos:
  assumes "0 < cover a M"
  obtains x where "x \<in># M" "in_blk x a"
proof -
  have "{#mb \<in># M. in_blk mb a#} \<noteq> {#}" using assms unfolding cover_def by (metis less_irrefl size_empty)
  then obtain x where "x \<in># {#mb \<in># M. in_blk mb a#}" by (rule multiset_nonemptyE)
  then show ?thesis using that by auto
qed

definition blocks :: "dimes_buf \<Rightarrow> dimes_buf_block multiset" where
  "blocks b = mset (free_blocks b) + mset (used_blocks b)"

text \<open>
  The invariant: no empty block, every byte of the buffer in exactly one block, free blocks never
  touch, both lists sorted by size.
\<close>

definition buf_inv :: "dimes_buf \<Rightarrow> bool" where
  "buf_inv b \<longleftrightarrow> buffer_ptr b \<noteq> 0 \<and> unat (buffer_ptr b) + unat (buffer_size b) < 2 ^ 64 \<and>
     (\<forall>mb\<in>#blocks b. 0 < block_size mb) \<and>
     (\<forall>a. cover a (blocks b) = (if unat (buffer_ptr b) \<le> a \<and> a < unat (buffer_ptr b) + unat (buffer_size b) then 1 else 0)) \<and>
     (\<forall>x\<in>set (free_blocks b). \<forall>y\<in>set (free_blocks b). b_hi x \<noteq> b_lo y) \<and>
     sorted (map block_size (free_blocks b)) \<and> sorted (map block_size (used_blocks b)) \<and>
     (\<forall>mb\<in>set (free_blocks b). block_status mb = free_block) \<and> (\<forall>mb\<in>set (used_blocks b). block_status mb = used_block)"

lemma mset_insert_block [simp]: "mset (dimes_buf_insert_block x xs) = add_mset x (mset xs)"
  by (induction xs) auto

lemma set_insert_block [simp]: "set (dimes_buf_insert_block x xs) = insert x (set xs)"
  by (induction xs) auto

lemma sorted_insert_block: "sorted (map block_size xs) \<Longrightarrow> sorted (map block_size (dimes_buf_insert_block x xs))"
  by (induction xs) auto

lemma sorted_remove1_map: "sorted (map f xs) \<Longrightarrow> sorted (map f (remove1 x xs))"
proof (induction xs)
  case (Cons y xs)
  then show ?case using set_remove1_subset [of x xs] by auto
qed simp

lemma block_nonempty: "buf_inv b \<Longrightarrow> mb \<in># blocks b \<Longrightarrow> b_lo mb < b_hi mb"
  unfolding buf_inv_def b_lo_def b_hi_def by (metis less_add_same_cancel1 unat_gt_0 word_neq_0_conv)

lemma block_inside:
  assumes "buf_inv b" "mb \<in># blocks b"
  shows "unat (buffer_ptr b) \<le> b_lo mb" "b_hi mb \<le> unat (buffer_ptr b) + unat (buffer_size b)" "b_hi mb < 2 ^ 64"
proof -
  have n: "b_lo mb < b_hi mb" by (rule block_nonempty [OF assms])
  then have "in_blk mb (b_lo mb)" "in_blk mb (b_hi mb - 1)" by (auto simp: in_blk_def)
  then have "0 < cover (b_lo mb) (blocks b)" "0 < cover (b_hi mb - 1) (blocks b)" using cover_member [OF assms(2)] by blast+
  then show "unat (buffer_ptr b) \<le> b_lo mb" and h: "b_hi mb \<le> unat (buffer_ptr b) + unat (buffer_size b)"
    using assms(1) n unfolding buf_inv_def by (auto split: if_splits)
  show "b_hi mb < 2 ^ 64" using h assms(1) by (simp add: buf_inv_def)
qed

lemma block_end: "buf_inv b \<Longrightarrow> mb \<in># blocks b \<Longrightarrow> unat (block_ptr mb + block_size mb) = b_hi mb"
  using block_inside(3) [of b mb] by (simp add: b_hi_def unat_add_u64)

lemma blocks_disjoint:
  assumes "buf_inv b" "x \<in># blocks b" "y \<in># blocks b - {#x#}" "in_blk x a" "in_blk y a"
  shows False
proof -
  have "cover a (blocks b) = cover a (blocks b - {#x#}) + 1" using cover_diff [OF assms(2), of a] assms(4) by simp
  moreover have "0 < cover a (blocks b - {#x#})" by (rule cover_member [OF assms(3,5)])
  ultimately show False using assms(1) by (auto simp: buf_inv_def split: if_splits)
qed

lemma blocks_ordered:
  assumes "buf_inv b" "x \<in># blocks b" "y \<in># blocks b - {#x#}"
  shows "b_hi x \<le> b_lo y \<or> b_hi y \<le> b_lo x"
proof (rule ccontr)
  assume "\<not> ?thesis"
  moreover have "b_lo x < b_hi x" "b_lo y < b_hi y" using block_nonempty [OF assms(1)] assms(2) in_diffD [OF assms(3)] by auto
  ultimately have "in_blk x (max (b_lo x) (b_lo y))" "in_blk y (max (b_lo x) (b_lo y))" by (auto simp: in_blk_def)
  then show False using blocks_disjoint [OF assms] by blast
qed

subsection \<open>The operations keep the invariant\<close>

lemma init_inv:
  assumes "base \<noteq> 0" "0 < sz" "unat base + unat sz < 2 ^ 64"
  shows "buf_inv (snd (dimes_buffer_init base sz b))"
  using assms by (auto simp: buf_inv_def dimes_buffer_init_def Let_def blocks_def in_blk_def b_lo_def b_hi_def word_less_nat_alt)

text \<open>What a successful allocation does: a free block is used, or cut into a used and a free one.\<close>

definition rest_of :: "u64 \<Rightarrow> dimes_buf_block \<Rightarrow> dimes_buf_block list" where
  "rest_of sz mb = (if block_size mb = sz then []
     else [\<lparr>block_size = block_size mb - sz, block_ptr = block_ptr mb + sz, block_status = free_block\<rparr>])"

definition taken_of :: "u64 \<Rightarrow> dimes_buf_block \<Rightarrow> dimes_buf_block" where
  "taken_of sz mb = mb\<lparr>block_status := used_block, block_size := sz\<rparr>"

lemma alloc_cases:
  assumes "dimes_buffer_alloc True sz b = Some (p, b')" "buf_inv b" "p \<noteq> 0"
  obtains mb where "mb \<in> set (free_blocks b)" "sz \<le> block_size mb" "p = block_ptr mb"
    "mset (free_blocks b') = mset (rest_of sz mb) + (mset (free_blocks b) - {#mb#})"
    "mset (used_blocks b') = add_mset (taken_of sz mb) (mset (used_blocks b))"
    "buffer_ptr b' = buffer_ptr b" "buffer_size b' = buffer_size b"
    "sorted (map block_size (free_blocks b'))" "sorted (map block_size (used_blocks b'))"
    "\<forall>mb'\<in>set (free_blocks b). sz \<le> block_size mb' \<longrightarrow> block_size mb \<le> block_size mb'"
proof -
  have so: "sorted (map block_size (free_blocks b))" "sorted (map block_size (used_blocks b))"
    using assms(2) by (auto simp: buf_inv_def)
  obtain mb where f: "find (\<lambda>mb. sz \<le> block_size mb) (free_blocks b) = Some mb"
    using assms(1,3) by (cases "find (\<lambda>mb. sz \<le> block_size mb) (free_blocks b)")
      (auto simp: dimes_buffer_alloc_def split: if_splits)
  then obtain i where i: "i < length (free_blocks b)" "free_blocks b ! i = mb" "sz \<le> block_size mb"
    "\<forall>j<i. \<not> sz \<le> block_size (free_blocks b ! j)"
    by (auto simp: find_Some_iff)
  have least: "\<forall>mb'\<in>set (free_blocks b). sz \<le> block_size mb' \<longrightarrow> block_size mb \<le> block_size mb'"
  proof (intro ballI impI)
    fix mb' assume mb': "mb' \<in> set (free_blocks b)" "sz \<le> block_size mb'"
    then obtain j where j: "j < length (free_blocks b)" "free_blocks b ! j = mb'" by (auto simp: in_set_conv_nth)
    then have "i \<le> j" using i(4) mb'(2) by (metis not_le)
    then show "block_size mb \<le> block_size mb'" using sorted_nth_mono [OF so(1), of i j] i j by simp
  qed
  have tk: "(if block_size mb = sz then mb\<lparr>block_status := used_block\<rparr> else mb\<lparr>block_status := used_block, block_size := sz\<rparr>)
      = taken_of sz mb" by (simp add: taken_of_def)
  have r: "(p, b') = (block_ptr mb, b\<lparr>free_blocks := (if block_size mb = sz then remove1 mb (free_blocks b)
        else dimes_buf_insert_block (hd (rest_of sz mb)) (remove1 mb (free_blocks b))),
      used_blocks := dimes_buf_insert_block (taken_of sz mb) (used_blocks b)\<rparr>)"
    using assms(1,3) f tk by (cases "block_size mb = sz")
      (auto simp: dimes_buffer_alloc_def Let_def rest_of_def taken_of_def split: if_splits)
  have mem: "mb \<in> set (free_blocks b)" using i by auto
  show ?thesis
    by (rule that [of mb])
      (use r mem i(3) least so in \<open>simp_all add: rest_of_def sorted_insert_block sorted_remove1_map\<close>)
qed

lemma alloc_fails:
  assumes "dimes_buffer_alloc True sz b = Some (p, b')" "buf_inv b" "p = 0"
  shows "b' = b"
proof (cases "find (\<lambda>mb. sz \<le> block_size mb) (free_blocks b)")
  case None
  then show ?thesis using assms(1) by (auto simp: dimes_buffer_alloc_def split: if_splits)
next
  case (Some mb)
  then have "mb \<in># blocks b" by (auto simp: find_Some_iff blocks_def)
  from block_inside(1) [OF assms(2) this] have "block_ptr mb \<noteq> 0"
    using assms(2) by (auto simp: buf_inv_def b_lo_def unat_eq_0)
  then show ?thesis
    using assms(1,3) Some by (auto simp: dimes_buffer_alloc_def Let_def split: if_splits)
qed

lemma taken_bounds: "b_lo (taken_of sz mb) = b_lo mb" "b_hi (taken_of sz mb) = b_lo mb + unat sz"
  by (simp_all add: taken_of_def b_lo_def b_hi_def)

lemma rest_bounds:
  assumes "x \<in> set (rest_of sz mb)" "sz \<le> block_size mb" "b_hi mb < 2 ^ 64"
  shows "b_lo x = b_lo mb + unat sz" "b_hi x = b_hi mb" "0 < block_size x" "block_status x = free_block" "b_lo x < b_hi x"
proof -
  have x: "block_size mb \<noteq> sz" "x = \<lparr>block_size = block_size mb - sz, block_ptr = block_ptr mb + sz, block_status = free_block\<rparr>"
    using assms(1) by (auto simp: rest_of_def split: if_splits)
  have le: "unat sz \<le> unat (block_size mb)" using assms(2) by (simp add: word_le_nat_alt)
  have u: "unat (block_ptr mb + sz) = unat (block_ptr mb) + unat sz" "unat (block_size mb - sz) = unat (block_size mb) - unat sz"
    using assms(2,3) le by (simp_all add: unat_add_u64 b_hi_def unat_diff_u64)
  show "b_lo x = b_lo mb + unat sz" "b_hi x = b_hi mb" using u le by (simp_all add: x b_lo_def b_hi_def)
  show s: "0 < block_size x" and "block_status x = free_block" using x(1) assms(2) by (simp_all add: x(2) word_neq_0_conv [symmetric])
  show "b_lo x < b_hi x" using s by (simp add: b_lo_def b_hi_def unat_gt_0 word_neq_0_conv)
qed

lemma cover_cut:
  assumes "sz \<le> block_size mb" "b_hi mb < 2 ^ 64"
  shows "cover a (mset (rest_of sz mb)) + (if in_blk (taken_of sz mb) a then 1 else 0) = (if in_blk mb a then 1 else 0)"
proof (cases "rest_of sz mb")
  case Nil
  then have "block_size mb = sz" by (auto simp: rest_of_def split: if_splits)
  then show ?thesis using Nil by (simp add: taken_of_def in_blk_def b_lo_def b_hi_def)
next
  case (Cons x xs)
  then have x: "rest_of sz mb = [x]" by (auto simp: rest_of_def split: if_splits)
  have "unat sz \<le> unat (block_size mb)" using assms(1) by (simp add: word_le_nat_alt)
  then show ?thesis using rest_bounds [of x, OF _ assms] taken_bounds x by (auto simp: in_blk_def b_lo_def b_hi_def)
qed

lemma alloc_inv:
  assumes "dimes_buffer_alloc True sz b = Some (p, b')" "buf_inv b" "0 < sz"
  shows "buf_inv b'"
proof (cases "p = 0")
  case True
  have "b' = b" by (rule alloc_fails [OF assms(1,2) True])
  then show ?thesis using assms(2) by simp
next
  case False
  obtain mb where m: "mb \<in> set (free_blocks b)" "sz \<le> block_size mb" "p = block_ptr mb"
    "mset (free_blocks b') = mset (rest_of sz mb) + (mset (free_blocks b) - {#mb#})"
    "mset (used_blocks b') = add_mset (taken_of sz mb) (mset (used_blocks b))"
    "buffer_ptr b' = buffer_ptr b" "buffer_size b' = buffer_size b"
    "sorted (map block_size (free_blocks b'))" "sorted (map block_size (used_blocks b'))"
    by (rule alloc_cases [OF assms(1,2) False])
  have mb: "mb \<in># blocks b" using m(1) by (simp add: blocks_def)
  note R = rest_bounds [OF _ m(2) block_inside(3) [OF assms(2) mb]]
  have bl: "blocks b' = mset (rest_of sz mb) + {#taken_of sz mb#} + (blocks b - {#mb#})"
    using m(1,4,5) by (simp add: blocks_def add.assoc)
  have covb: "cover a (blocks b') = cover a (blocks b)" for a
    using cover_cut [OF m(2) block_inside(3) [OF assms(2) mb], of a] cover_diff [OF mb, of a] unfolding bl by simp
  have fr: "set (free_blocks b') = set (rest_of sz mb) \<union> set_mset (mset (free_blocks b) - {#mb#})"
    using arg_cong [OF m(4), of set_mset] by simp
  have ap: "b_hi z \<noteq> b_lo mb + unat sz" if z: "z \<in># mset (free_blocks b) - {#mb#}" for z
  proof -
    have "blocks b - {#mb#} = (mset (free_blocks b) - {#mb#}) + mset (used_blocks b)" using m(1) by (simp add: blocks_def)
    then have zb: "z \<in># blocks b - {#mb#}" using z by (simp only: union_iff) simp
    have "0 < unat sz" "unat sz \<le> unat (block_size mb)" using m(2) assms(3) by (auto simp: word_le_nat_alt word_less_nat_alt)
    then show ?thesis
      using blocks_ordered [OF assms(2) mb zb] block_nonempty [OF assms(2), of z] in_diffD [OF z]
      by (auto simp: b_lo_def b_hi_def blocks_def)
  qed
  have old: "b_hi x \<noteq> b_lo y" if "x \<in> set (free_blocks b)" "y \<in> set (free_blocks b)" for x y
    using that assms(2) by (simp add: buf_inv_def)
  have "x \<in> set (rest_of sz mb) \<or> x \<in># mset (free_blocks b) - {#mb#} \<and> x \<in> set (free_blocks b)"
    if "x \<in> set (free_blocks b')" for x using that unfolding fr by (auto dest: in_diffD)
  then have nonadj: "b_hi x \<noteq> b_lo y" if "x \<in> set (free_blocks b')" "y \<in> set (free_blocks b')" for x y
    using that R(1,2,5) ap old m(1) by (metis less_irrefl)
  have ok: "\<forall>x\<in>#blocks b. 0 < block_size x" "\<forall>x\<in>set (free_blocks b). block_status x = free_block"
    "\<forall>x\<in>set (used_blocks b). block_status x = used_block" using assms(2) by (auto simp: buf_inv_def)
  have "\<forall>x\<in>#blocks b'. 0 < block_size x"
    using R(3) ok(1) assms(3) unfolding bl by (auto simp: taken_of_def dest: in_diffD)
  moreover have "\<forall>x\<in>set (free_blocks b'). block_status x = free_block"
    using R(4) ok(2) unfolding fr by (auto dest: in_diffD)
  moreover have "\<forall>x\<in>set (used_blocks b'). block_status x = used_block"
    using ok(3) arg_cong [OF m(5), of set_mset] by (simp add: taken_of_def)
  ultimately show ?thesis
    using assms(2) m(6-9) covb nonadj by (simp add: buf_inv_def)
qed

text \<open>The block that replaces a freed block and its free neighbours.\<close>

definition om :: "'a option \<Rightarrow> 'a multiset" where
  "om x = (case x of None \<Rightarrow> {#} | Some y \<Rightarrow> {#y#})"

lemma om_simps [simp]: "om None = {#}" "om (Some x) = {#x#}"
  by (simp_all add: om_def)

definition merged :: "dimes_buf_block \<Rightarrow> dimes_buf_block list \<Rightarrow> dimes_buf_block" where
  "merged mb F =
     \<lparr>block_size = block_size mb + (case contiguous_block_after mb F of None \<Rightarrow> 0 | Some y \<Rightarrow> block_size y) +
        (case contiguous_block_before mb F of None \<Rightarrow> 0 | Some x \<Rightarrow> block_size x),
      block_ptr = (case contiguous_block_before mb F of None \<Rightarrow> block_ptr mb | Some x \<Rightarrow> block_ptr x),
      block_status = free_block\<rparr>"

lemma insert_to_freelist_mset:
  assumes "contiguous_block_before mb F = None \<or> contiguous_block_before mb F \<noteq> contiguous_block_after mb F"
  shows "\<exists>frees. dimes_buf_insert_block_to_freelist mb F = Some frees \<and>
    mset frees = add_mset (merged mb F) (mset F - om (contiguous_block_after mb F) - om (contiguous_block_before mb F)) \<and>
    (sorted (map block_size F) \<longrightarrow> sorted (map block_size frees))"
  using assms
  by (cases "contiguous_block_before mb F"; cases "contiguous_block_after mb F")
    (auto simp: dimes_buf_insert_block_to_freelist_def Let_def merged_def sorted_insert_block sorted_remove1_map)

lemma contiguous_before:
  assumes "buf_inv b" "mb \<in># blocks b"
  shows "contiguous_block_before mb (free_blocks b) = Some x \<Longrightarrow> x \<in> set (free_blocks b) \<and> b_hi x = b_lo mb"
    "contiguous_block_before mb (free_blocks b) = None \<Longrightarrow> x \<in> set (free_blocks b) \<Longrightarrow> b_hi x \<noteq> b_lo mb"
proof -
  have e: "block_ptr mb = block_ptr x + block_size x \<longleftrightarrow> b_hi x = b_lo mb" if "x \<in> set (free_blocks b)" for x
    using block_end [OF assms(1), of x] that unfolding b_lo_def by (metis blocks_def set_mset_mset word_unat_eq_iff union_iff)
  show "contiguous_block_before mb (free_blocks b) = Some x \<Longrightarrow> x \<in> set (free_blocks b) \<and> b_hi x = b_lo mb"
    using e unfolding contiguous_block_before_def comp_def find_Some_iff by (metis length_rev nth_mem set_rev)
  show "contiguous_block_before mb (free_blocks b) = None \<Longrightarrow> x \<in> set (free_blocks b) \<Longrightarrow> b_hi x \<noteq> b_lo mb"
    using e unfolding contiguous_block_before_def comp_def find_None_iff by auto
qed

lemma contiguous_after:
  assumes "buf_inv b" "mb \<in># blocks b"
  shows "contiguous_block_after mb (free_blocks b) = Some x \<Longrightarrow> x \<in> set (free_blocks b) \<and> b_lo x = b_hi mb"
    "contiguous_block_after mb (free_blocks b) = None \<Longrightarrow> x \<in> set (free_blocks b) \<Longrightarrow> b_lo x \<noteq> b_hi mb"
proof -
  have e: "block_ptr x = block_ptr mb + block_size mb \<longleftrightarrow> b_lo x = b_hi mb" for x
    using block_end [OF assms] unfolding b_lo_def by (metis word_unat_eq_iff)
  show "contiguous_block_after mb (free_blocks b) = Some x \<Longrightarrow> x \<in> set (free_blocks b) \<and> b_lo x = b_hi mb"
    using e unfolding contiguous_block_after_def comp_def find_Some_iff by (metis length_rev nth_mem set_rev)
  show "contiguous_block_after mb (free_blocks b) = None \<Longrightarrow> x \<in> set (free_blocks b) \<Longrightarrow> b_lo x \<noteq> b_hi mb"
    using e unfolding contiguous_block_after_def comp_def find_None_iff by auto
qed

lemma neighbours_differ:
  assumes "buf_inv b" "mb \<in># blocks b"
  shows "contiguous_block_before mb (free_blocks b) = None \<or>
    contiguous_block_before mb (free_blocks b) \<noteq> contiguous_block_after mb (free_blocks b)"
proof (cases "contiguous_block_before mb (free_blocks b)")
  case (Some x)
  have x: "x \<in> set (free_blocks b)" "b_hi x = b_lo mb" using contiguous_before(1) [OF assms Some] by auto
  then have "b_lo x < b_hi x" using block_nonempty [OF assms(1), of x] by (simp add: blocks_def)
  then have "b_lo x \<noteq> b_hi mb" using x(2) block_nonempty [OF assms] by simp
  then show ?thesis using Some contiguous_after(1) [OF assms, of x] by auto
qed simp

lemma merged_bounds:
  assumes "buf_inv b" "mb \<in># blocks b"
  shows "b_lo (merged mb (free_blocks b)) =
      (case contiguous_block_before mb (free_blocks b) of None \<Rightarrow> b_lo mb | Some x \<Rightarrow> b_lo x)"
    "b_hi (merged mb (free_blocks b)) =
      (case contiguous_block_after mb (free_blocks b) of None \<Rightarrow> b_hi mb | Some x \<Rightarrow> b_hi x)"
proof -
  let ?bef = "contiguous_block_before mb (free_blocks b)" and ?aft = "contiguous_block_after mb (free_blocks b)"
  show "b_lo (merged mb (free_blocks b)) = (case ?bef of None \<Rightarrow> b_lo mb | Some x \<Rightarrow> b_lo x)"
    by (simp add: merged_def b_lo_def split: option.splits)
  have m: "b_hi mb < 2 ^ 64" by (rule block_inside(3) [OF assms])
  have a: "b_hi y = b_hi mb + unat (block_size y)" "b_hi y < 2 ^ 64" if "?aft = Some y" for y
    using contiguous_after(1) [OF assms that] block_inside(3) [OF assms(1), of y] by (simp_all add: b_hi_def b_lo_def blocks_def)
  have c: "b_lo mb = b_lo x + unat (block_size x)" if "?bef = Some x" for x
    using contiguous_before(1) [OF assms that] by (simp add: b_hi_def b_lo_def)
  show "b_hi (merged mb (free_blocks b)) = (case ?aft of None \<Rightarrow> b_hi mb | Some x \<Rightarrow> b_hi x)"
    using m a c by (cases ?bef; cases ?aft) (auto simp: merged_def b_hi_def b_lo_def unat_add_u64)
qed

lemma merged_cover:
  assumes "buf_inv b" "mb \<in># blocks b"
  shows "(if in_blk (merged mb (free_blocks b)) a then 1 else 0) =
    (if in_blk mb a then 1 else 0) + cover a (om (contiguous_block_after mb (free_blocks b))) +
    cover a (om (contiguous_block_before mb (free_blocks b)))"
proof -
  let ?bef = "contiguous_block_before mb (free_blocks b)" and ?aft = "contiguous_block_after mb (free_blocks b)"
  have m: "b_lo mb < b_hi mb" by (rule block_nonempty [OF assms])
  have c: "b_hi x = b_lo mb \<and> b_lo x < b_hi x" if "?bef = Some x" for x
    using contiguous_before(1) [OF assms that] block_nonempty [OF assms(1), of x] by (simp add: blocks_def)
  have d: "b_lo x = b_hi mb \<and> b_lo x < b_hi x" if "?aft = Some x" for x
    using contiguous_after(1) [OF assms that] block_nonempty [OF assms(1), of x] by (simp add: blocks_def)
  have B: "in_blk (merged mb (free_blocks b)) a \<longleftrightarrow>
      (case ?bef of None \<Rightarrow> b_lo mb | Some x \<Rightarrow> b_lo x) \<le> a \<and> a < (case ?aft of None \<Rightarrow> b_hi mb | Some x \<Rightarrow> b_hi x)"
    unfolding in_blk_def merged_bounds [OF assms] ..
  have bef: "(if (case ?bef of None \<Rightarrow> b_lo mb | Some x \<Rightarrow> b_lo x) \<le> a \<and> a < b_hi mb then 1 else 0) =
      (if in_blk mb a then 1 else 0) + cover a (om ?bef)"
  proof (cases ?bef)
    case (Some x)
    then show ?thesis using c [OF Some] m by (simp add: in_blk_def)
  qed (simp add: in_blk_def)
  have aft: "(if L \<le> a \<and> a < (case ?aft of None \<Rightarrow> b_hi mb | Some x \<Rightarrow> b_hi x) then 1 else 0) =
      (if L \<le> a \<and> a < b_hi mb then 1 else 0) + cover a (om ?aft)" if "L \<le> b_lo mb" for L
  proof (cases ?aft)
    case (Some x)
    then show ?thesis using d [OF Some] m that by (simp add: in_blk_def)
  qed simp
  have "(case ?bef of None \<Rightarrow> b_lo mb | Some x \<Rightarrow> b_lo x) \<le> b_lo mb" using c by (cases ?bef) auto
  from aft [OF this] bef show ?thesis unfolding B by simp
qed

lemma om_subset:
  assumes "buf_inv b" "mb \<in># blocks b"
  shows "om (contiguous_block_after mb (free_blocks b)) + om (contiguous_block_before mb (free_blocks b)) \<subseteq># mset (free_blocks b)"
proof -
  let ?bef = "contiguous_block_before mb (free_blocks b)" and ?aft = "contiguous_block_after mb (free_blocks b)"
  have x: "x \<in># mset (free_blocks b)" if "?bef = Some x" for x using contiguous_before(1) [OF assms that] by simp
  have y: "y \<in># mset (free_blocks b)" if "?aft = Some y" for y using contiguous_after(1) [OF assms that] by simp
  show ?thesis
  proof (cases ?bef)
    case None
    then show ?thesis using y by (cases ?aft) auto
  next
    case (Some x')
    show ?thesis
    proof (cases ?aft)
      case None
      then show ?thesis using x Some by simp
    next
      case (Some y')
      have "x' \<noteq> y'" using neighbours_differ [OF assms] \<open>?bef = Some x'\<close> Some by auto
      then show ?thesis
        using x [OF \<open>?bef = Some x'\<close>] y [OF Some] \<open>?bef = Some x'\<close> Some by (simp add: insert_subset_eq_iff in_diff_count)
    qed
  qed
qed

lemma free_cases:
  assumes "dimes_buffer_free ptr b = r" "buf_inv b"
  obtains "r = Some b" "\<forall>mb\<in>set (used_blocks b). block_ptr mb \<noteq> ptr"
  | mb frees where "mb \<in> set (used_blocks b)" "block_ptr mb = ptr"
    "r = Some (b\<lparr>used_blocks := remove1 mb (used_blocks b), free_blocks := frees\<rparr>)"
    "mset frees = add_mset (merged mb (free_blocks b)) (mset (free_blocks b) -
       om (contiguous_block_after mb (free_blocks b)) - om (contiguous_block_before mb (free_blocks b)))"
    "sorted (map block_size frees)"
proof -
  have in_buf: "ptr \<noteq> 0 \<and> ptr \<ge> buffer_ptr b \<and> ptr \<le> buffer_ptr b + buffer_size b - 1"
    if "mb \<in> set (used_blocks b)" "block_ptr mb = ptr" for mb
  proof -
    have mb: "mb \<in># blocks b" using that(1) by (simp add: blocks_def)
    have i: "unat (buffer_ptr b) \<le> unat ptr" "unat ptr < unat (buffer_ptr b) + unat (buffer_size b)"
      using block_inside [OF assms(2) mb] block_nonempty [OF assms(2) mb] that(2) by (auto simp: b_lo_def)
    have s: "unat (buffer_ptr b) + unat (buffer_size b) < 2 ^ 64" "buffer_ptr b \<noteq> 0" using assms(2) by (auto simp: buf_inv_def)
    have e: "unat (buffer_ptr b + buffer_size b) = unat (buffer_ptr b) + unat (buffer_size b)" using s(1) by (rule unat_add_u64)
    then have ne: "buffer_ptr b + buffer_size b \<noteq> 0" using i by (auto simp: word_unat_eq_iff)
    have "unat (buffer_ptr b + buffer_size b - 1) = unat (buffer_ptr b) + unat (buffer_size b) - 1"
      using unat_minus_one [OF ne] e by simp
    then show ?thesis using i s(2) by (auto simp: word_le_nat_alt unat_eq_0)
  qed
  have bp: "buffer_ptr b \<noteq> 0" using assms(2) by (simp add: buf_inv_def)
  show ?thesis
  proof (cases "find (\<lambda>mb. block_ptr mb = ptr) (used_blocks b)")
    case None
    then have "\<forall>mb\<in>set (used_blocks b). block_ptr mb \<noteq> ptr" by (simp add: find_None_iff)
    moreover have "r = Some b" using assms(1) None by (auto simp: dimes_buffer_free_def)
    ultimately show ?thesis using that(1) by blast
  next
    case (Some mb)
    then have mb: "mb \<in> set (used_blocks b)" "block_ptr mb = ptr" by (auto simp: find_Some_iff)
    then have mbb: "mb \<in># blocks b" by (simp add: blocks_def)
    obtain frees where f: "dimes_buf_insert_block_to_freelist mb (free_blocks b) = Some frees"
      "mset frees = add_mset (merged mb (free_blocks b)) (mset (free_blocks b) -
        om (contiguous_block_after mb (free_blocks b)) - om (contiguous_block_before mb (free_blocks b)))"
      "sorted (map block_size frees)"
      using insert_to_freelist_mset [OF neighbours_differ [OF assms(2) mbb]] assms(2) by (auto simp: buf_inv_def)
    have "r = Some (b\<lparr>used_blocks := remove1 mb (used_blocks b), free_blocks := frees\<rparr>)"
      using assms(1) Some f(1) in_buf [OF mb] bp by (auto simp: dimes_buffer_free_def)
    then show ?thesis using that(2) [OF mb] f(2,3) by blast
  qed
qed

lemma merged_apart:
  assumes "buf_inv b" "mb \<in># blocks b"
  shows "z \<in> set (free_blocks b) \<Longrightarrow> b_hi z \<noteq> b_lo (merged mb (free_blocks b))"
    "z \<in> set (free_blocks b) \<Longrightarrow> b_lo z \<noteq> b_hi (merged mb (free_blocks b))"
    "b_lo (merged mb (free_blocks b)) < b_hi (merged mb (free_blocks b))" "0 < block_size (merged mb (free_blocks b))"
proof -
  let ?F = "free_blocks b" and ?m = "merged mb (free_blocks b)"
  have old: "b_hi x \<noteq> b_lo y" if "x \<in> set ?F" "y \<in> set ?F" for x y
    using that assms(1) by (simp add: buf_inv_def)
  show "b_hi z \<noteq> b_lo ?m" if "z \<in> set ?F"
    using contiguous_before [OF assms] old that
    by (cases "contiguous_block_before mb ?F") (auto simp: merged_bounds [OF assms])
  show "b_lo z \<noteq> b_hi ?m" if "z \<in> set ?F"
    using contiguous_after [OF assms] old that
    by (cases "contiguous_block_after mb ?F") (auto simp: merged_bounds [OF assms] dest: old [OF _ that])
  have "in_blk ?m (b_lo mb)"
    using merged_cover [OF assms, of "b_lo mb"] block_nonempty [OF assms] by (simp add: in_blk_def split: if_splits)
  then show nm: "b_lo ?m < b_hi ?m" by (simp add: in_blk_def)
  then show "0 < block_size ?m" by (simp add: b_lo_def b_hi_def unat_gt_0 word_neq_0_conv)
qed

lemma free_inv:
  assumes "dimes_buffer_free ptr b = Some b'" "buf_inv b"
  shows "buf_inv b'"
  using free_cases [OF assms]
proof cases
  case 1
  then show ?thesis using assms(2) by simp
next
  case (2 mb frees)
  have mbb: "mb \<in># blocks b" using 2(1) by (simp add: blocks_def)
  let ?F = "free_blocks b"
  let ?A = "om (contiguous_block_after mb ?F)" and ?B = "om (contiguous_block_before mb ?F)"
  let ?m = "merged mb ?F"
  have b': "free_blocks b' = frees" "used_blocks b' = remove1 mb (used_blocks b)" "buffer_ptr b' = buffer_ptr b"
    "buffer_size b' = buffer_size b" using 2(3) by simp_all
  have F: "mset ?F = (mset ?F - ?A - ?B) + ?A + ?B"
    using subset_mset.diff_add [OF om_subset [OF assms(2) mbb]] by (simp only: diff_diff_add add.assoc)
  have U: "mset (used_blocks b) = add_mset mb (mset (used_blocks b) - {#mb#})" using 2(1) by simp
  have covb: "cover a (blocks b') = cover a (blocks b)" for a
  proof -
    have "cover a (blocks b) = cover a ((mset ?F - ?A - ?B) + ?A + ?B) + cover a (add_mset mb (mset (used_blocks b) - {#mb#}))"
      unfolding blocks_def using F U by (metis cover_simps(3))
    moreover have "blocks b' = add_mset ?m (mset ?F - ?A - ?B) + (mset (used_blocks b) - {#mb#})"
      using 2(4) by (simp add: blocks_def b')
    ultimately show ?thesis using merged_cover [OF assms(2) mbb, of a] by simp
  qed
  have sub: "x \<in> set ?F" if "x \<in># mset ?F - ?A - ?B" for x using in_diffD [OF in_diffD [OF that]] by simp
  have fr: "x = ?m \<or> x \<in># mset ?F - ?A - ?B" if "x \<in> set frees" for x
    using that arg_cong [OF 2(4), of set_mset] by simp
  have old: "b_hi x \<noteq> b_lo y" if "x \<in> set ?F" "y \<in> set ?F" for x y
    using that assms(2) by (simp add: buf_inv_def)
  note M = merged_apart [OF assms(2) mbb]
  have nonadj: "b_hi x \<noteq> b_lo y" if xy: "x \<in> set frees" "y \<in> set frees" for x y
    using fr [OF xy(1)] fr [OF xy(2)] M(1-3) old sub by (metis less_irrefl)
  have ok: "\<forall>x\<in>#blocks b. 0 < block_size x" "\<forall>x\<in>set ?F. block_status x = free_block"
    "\<forall>x\<in>set (used_blocks b). block_status x = used_block" using assms(2) by (auto simp: buf_inv_def)
  have "0 < block_size x" if "x \<in># blocks b'" for x
  proof -
    have "x = ?m \<or> x \<in> set ?F \<or> x \<in> set (used_blocks b)"
      using that fr sub by (auto simp: blocks_def b' dest: in_diffD)
    then show ?thesis using M(4) ok(1) by (auto simp: blocks_def)
  qed
  moreover have "block_status ?m = free_block" by (simp add: merged_def)
  then have "\<forall>x\<in>set frees. block_status x = free_block" using fr sub ok(2) by metis
  moreover have "\<forall>x\<in>set (remove1 mb (used_blocks b)). block_status x = used_block"
    using ok(3) set_remove1_subset [of mb "used_blocks b"] by blast
  moreover have "sorted (map block_size (remove1 mb (used_blocks b)))"
    using assms(2) by (intro sorted_remove1_map) (simp add: buf_inv_def)
  ultimately show ?thesis
    using assms(2) covb nonadj 2(5) by (simp add: buf_inv_def b')
qed

subsection \<open>Runs\<close>

inductive buf_reach :: "u64 \<Rightarrow> u64 \<Rightarrow> dimes_buf \<Rightarrow> bool" for base n where
  start: "buf_reach base n (snd (dimes_buffer_init base n b0))"
| alloc: "buf_reach base n b \<Longrightarrow> 0 < sz \<Longrightarrow> dimes_buffer_alloc True sz b = Some (p, b') \<Longrightarrow> buf_reach base n b'"
| free: "buf_reach base n b \<Longrightarrow> dimes_buffer_free ptr b = Some b' \<Longrightarrow> buf_reach base n b'"

definition buffer_ok :: "u64 \<Rightarrow> u64 \<Rightarrow> bool" where
  "buffer_ok base n \<longleftrightarrow> base \<noteq> 0 \<and> 0 < n \<and> unat base + unat n < 2 ^ 64"

lemma buf_reach_inv: "buf_reach base n b \<Longrightarrow> buffer_ok base n \<Longrightarrow> buf_inv b"
  by (induction rule: buf_reach.induct) (auto simp: buffer_ok_def intro: init_inv alloc_inv free_inv)

lemma alloc_bounds: "dimes_buffer_alloc ok sz b = Some (p, b') \<Longrightarrow> buffer_ptr b' = buffer_ptr b \<and> buffer_size b' = buffer_size b"
  by (auto simp: dimes_buffer_alloc_def Let_def split: if_splits option.splits)

lemma free_bounds: "dimes_buffer_free ptr b = Some b' \<Longrightarrow> buffer_ptr b' = buffer_ptr b \<and> buffer_size b' = buffer_size b"
  by (auto simp: dimes_buffer_free_def split: if_splits option.splits)

lemma buf_reach_bounds: "buf_reach base n b \<Longrightarrow> buffer_ok base n \<Longrightarrow> buffer_ptr b = base \<and> buffer_size b = n"
  by (induction rule: buf_reach.induct)
    (auto simp: dimes_buffer_init_def Let_def buffer_ok_def dest: alloc_bounds free_bounds)

lemma nth_other: "i < length xs \<Longrightarrow> j < length xs \<Longrightarrow> i \<noteq> j \<Longrightarrow> xs ! j \<in># mset xs - {#xs ! i#}"
proof -
  assume a: "i < length xs" "j < length xs" "i \<noteq> j"
  have "mset xs = mset (take i xs @ xs ! i # drop (Suc i) xs)" using id_take_nth_drop [OF a(1)] by metis
  then have m: "mset xs - {#xs ! i#} = mset (take i xs @ drop (Suc i) xs)" by simp
  have "xs ! j \<in> set (take i xs @ drop (Suc i) xs)"
  proof (cases "j < i")
    case True
    then have "take i xs ! j = xs ! j" "j < length (take i xs)" using a by auto
    then show ?thesis by (metis UnI1 nth_mem set_append)
  next
    case False
    then have "drop (Suc i) xs ! (j - Suc i) = xs ! j" "j - Suc i < length (drop (Suc i) xs)" using a by auto
    then show ?thesis by (metis UnI2 nth_mem set_append)
  qed
  then show ?thesis using m by simp
qed

lemma used_other:
  assumes "i < length (used_blocks b)" "j < length (used_blocks b)" "i \<noteq> j"
  shows "used_blocks b ! j \<in># blocks b - {#used_blocks b ! i#}"
proof -
  have "blocks b - {#used_blocks b ! i#} = mset (free_blocks b) + (mset (used_blocks b) - {#used_blocks b ! i#})"
    using assms(1) by (simp add: blocks_def)
  then show ?thesis using nth_other [OF assms] by (metis union_iff)
qed

text \<open>A byte of the buffer that no allocation uses.\<close>

definition byte_free :: "dimes_buf \<Rightarrow> nat \<Rightarrow> bool" where
  "byte_free b a \<longleftrightarrow> unat (buffer_ptr b) \<le> a \<and> a < unat (buffer_ptr b) + unat (buffer_size b) \<and>
     (\<forall>mb\<in>set (used_blocks b). \<not> in_blk mb a)"

lemma byte_free_block:
  assumes "buf_inv b" "byte_free b a"
  obtains x where "x \<in> set (free_blocks b)" "in_blk x a"
proof -
  have "0 < cover a (blocks b)" using assms by (simp add: buf_inv_def byte_free_def)
  then obtain x where x: "x \<in># blocks b" "in_blk x a" by (rule cover_pos)
  moreover have "x \<notin> set (used_blocks b)" using assms(2) x(2) by (auto simp: byte_free_def)
  ultimately show ?thesis using that by (auto simp: blocks_def)
qed

lemma free_block_bytes:
  assumes "buf_inv b" "x \<in> set (free_blocks b)" "in_blk x a"
  shows "byte_free b a"
proof -
  have x: "x \<in># blocks b" using assms(2) by (simp add: blocks_def)
  have "\<not> in_blk mb a" if "mb \<in> set (used_blocks b)" for mb
  proof
    assume "in_blk mb a"
    have "blocks b - {#x#} = (mset (free_blocks b) - {#x#}) + mset (used_blocks b)" using assms(2) by (simp add: blocks_def)
    then have "mb \<in># blocks b - {#x#}" using that by (simp only: union_iff) simp
    then show False using blocks_disjoint [OF assms(1) x _ assms(3) \<open>in_blk mb a\<close>] by blast
  qed
  then show ?thesis using block_inside [OF assms(1) x] assms(3) by (auto simp: byte_free_def in_blk_def)
qed

text \<open>A run of free bytes lies in one free block, because free blocks never touch.\<close>

lemma free_run_in_block:
  assumes "buf_inv b" "0 < k" "\<forall>i<k. byte_free b (a + i)"
  obtains x where "x \<in> set (free_blocks b)" "b_lo x \<le> a" "a + k \<le> b_hi x"
proof -
  obtain x where x: "x \<in> set (free_blocks b)" "in_blk x a" using byte_free_block [OF assms(1)] assms(2,3) by (metis add_0_right)
  have "a + k \<le> b_hi x"
  proof (rule ccontr)
    assume n: "\<not> a + k \<le> b_hi x"
    have "b_hi x - a < k" "a + (b_hi x - a) = b_hi x" using n x(2) by (auto simp: in_blk_def)
    then obtain y where y: "y \<in> set (free_blocks b)" "in_blk y (b_hi x)" using byte_free_block [OF assms(1)] assms(3) by metis
    have ne: "y \<noteq> x" using y(2) by (auto simp: in_blk_def)
    have xb: "x \<in># blocks b" "y \<in># blocks b" using x(1) y(1) by (auto simp: blocks_def)
    then have "y \<in># blocks b - {#x#}" using ne by (simp add: in_diff_count)
    from blocks_ordered [OF assms(1) xb(1) this] have "b_hi x \<le> b_lo y"
      using y(2) block_nonempty [OF assms(1) xb(1)] by (auto simp: in_blk_def)
    then have "b_hi x = b_lo y" using y(2) by (simp add: in_blk_def)
    then show False using assms(1) x(1) y(1) by (simp add: buf_inv_def)
  qed
  then show ?thesis using that x by (simp add: in_blk_def)
qed

lemma alloc_defined: "\<exists>p b'. dimes_buffer_alloc True sz b = Some (p, b')"
  by (auto simp: dimes_buffer_alloc_def Let_def split: option.splits)

lemma alloc_zero:
  assumes "dimes_buffer_alloc True sz b = Some (0, b')" "buf_inv b" "0 < sz" "x \<in> set (free_blocks b)"
  shows "block_size x < sz"
proof (rule ccontr)
  assume "\<not> block_size x < sz"
  then have le: "sz \<le> block_size x" by simp
  have "find (\<lambda>mb. sz \<le> block_size mb) (free_blocks b) \<noteq> None" using le assms(4) by (auto simp: find_None_iff)
  then obtain mb where mb: "find (\<lambda>mb. sz \<le> block_size mb) (free_blocks b) = Some mb" by blast
  then have m: "mb \<in># blocks b" by (auto simp: find_Some_iff blocks_def)
  have nz: "block_ptr mb \<noteq> 0" using block_inside(1) [OF assms(2) m] assms(2) by (auto simp: buf_inv_def b_lo_def unat_eq_0)
  have "x \<in># blocks b" using assms(4) by (simp add: blocks_def)
  from block_inside [OF assms(2) this] have "block_size x \<le> buffer_size b" by (simp add: b_lo_def b_hi_def word_le_nat_alt)
  then have "\<not> buffer_size b < sz" using le by simp
  then show False using assms(1) mb nz by (auto simp: dimes_buffer_alloc_def Let_def split: if_splits)
qed

subsection \<open>An instance: a buffer of 64 bytes\<close>

definition buf64 :: dimes_buf where
  "buf64 = snd (dimes_buffer_init 4096 64 \<lparr>buffer_size = 0, buffer_ptr = 0, free_blocks = [], used_blocks = []\<rparr>)"

definition buf64_used :: dimes_buf where
  "buf64_used = \<lparr>buffer_size = 64, buffer_ptr = 4096,
     free_blocks = [\<lparr>block_size = 16, block_ptr = 4096, block_status = free_block\<rparr>,
                    \<lparr>block_size = 24, block_ptr = 4136, block_status = free_block\<rparr>],
     used_blocks = [\<lparr>block_size = 24, block_ptr = 4112, block_status = used_block\<rparr>]\<rparr>"

lemma buf64_ok: "buffer_ok 4096 64"
  by (simp add: buffer_ok_def)

lemma buf64_reach: "buf_reach 4096 64 buf64"
  unfolding buf64_def by (rule buf_reach.start)

lemma buf64_used_reach: "buf_reach 4096 64 buf64_used"
proof -
  have al: "buf_reach 4096 64 (snd (the (dimes_buffer_alloc True sz b)))" if "buf_reach 4096 64 b" "0 < sz" for sz b
    using buf_reach.alloc [OF that] alloc_defined [of sz b] by force
  have "dimes_buffer_free 4096 (snd (the (dimes_buffer_alloc True 24 (snd (the (dimes_buffer_alloc True 16 buf64)))))) = Some buf64_used"
    by code_simp
  then show ?thesis by (rule buf_reach.free [OF al [OF al [OF buf64_reach]], rotated 2]) simp_all
qed

subsection \<open>Properties\<close>

text \<open>C9: Through every sequence of allocations of at least one byte and frees, of valid and of any other
  pointers, the buffers handed out lie inside the DIMES buffer and no two of them share a byte; a byte
  is free exactly when it is in one block of the free list.\<close>

theorem allocations_never_overlap:
  assumes "buffer_ok base n" "buf_reach base n b"
  shows "(\<forall>i<length (used_blocks b). unat base \<le> b_lo (used_blocks b ! i) \<and> b_hi (used_blocks b ! i) \<le> unat base + unat n) \<and>
    (\<forall>i<length (used_blocks b). \<forall>j<length (used_blocks b). i \<noteq> j \<longrightarrow>
       (\<forall>a. \<not> (in_blk (used_blocks b ! i) a \<and> in_blk (used_blocks b ! j) a))) \<and>
    (\<forall>a. byte_free b a \<longleftrightarrow> (\<exists>mb\<in>set (free_blocks b). in_blk mb a))"
proof (intro conjI allI impI)
  note I = buf_reach_inv [OF assms(2,1)]
  note B = buf_reach_bounds [OF assms(2,1)]
  fix i assume i: "i < length (used_blocks b)"
  then have m: "used_blocks b ! i \<in># blocks b" by (simp add: blocks_def)
  show "unat base \<le> b_lo (used_blocks b ! i)" "b_hi (used_blocks b ! i) \<le> unat base + unat n"
    using block_inside [OF I m] B by auto
  fix j a assume j: "j < length (used_blocks b)" "i \<noteq> j"
  show "\<not> (in_blk (used_blocks b ! i) a \<and> in_blk (used_blocks b ! j) a)"
    using blocks_disjoint [OF I m used_other [OF i j]] by blast
next
  note I = buf_reach_inv [OF assms(2,1)]
  fix a
  show "byte_free b a \<longleftrightarrow> (\<exists>mb\<in>set (free_blocks b). in_blk mb a)"
    using byte_free_block [OF I] free_block_bytes [OF I] by metis
qed

theorem allocations_never_overlap_witness:
  "buffer_ok 4096 64 \<and> buf_reach 4096 64 buf64_used \<and> used_blocks buf64_used \<noteq> [] \<and>
   (\<forall>a. byte_free buf64_used a \<longleftrightarrow> (\<exists>mb\<in>set (free_blocks buf64_used). in_blk mb a))"
  using allocations_never_overlap [OF buf64_ok buf64_used_reach] buf64_ok buf64_used_reach by (simp add: buf64_used_def)

text \<open>C20: An allocation always returns. It returns a buffer exactly when some run of that many free bytes
  exists; the bytes it hands out were free, they are then the only ones no longer free, and the block
  they come from is the smallest that fits.\<close>

theorem alloc_finds_space:
  assumes "buffer_ok base n" "buf_reach base n b" "0 < sz"
  shows "\<exists>p b'. dimes_buffer_alloc True sz b = Some (p, b') \<and>
    (p \<noteq> 0 \<longleftrightarrow> (\<exists>a. \<forall>k<unat sz. byte_free b (a + k))) \<and>
    (p = 0 \<longrightarrow> b' = b) \<and>
    (p \<noteq> 0 \<longrightarrow>
       (\<forall>a. byte_free b' a \<longleftrightarrow> byte_free b a \<and> \<not> (unat p \<le> a \<and> a < unat p + unat sz)) \<and>
       (\<forall>k<unat sz. byte_free b (unat p + k)) \<and>
       (\<exists>mb\<in>set (free_blocks b). block_ptr mb = p \<and> sz \<le> block_size mb \<and>
          (\<forall>mb'\<in>set (free_blocks b). sz \<le> block_size mb' \<longrightarrow> block_size mb \<le> block_size mb')))"
proof -
  note I = buf_reach_inv [OF assms(2,1)]
  obtain p b' where r: "dimes_buffer_alloc True sz b = Some (p, b')" using alloc_defined by blast
  have s0: "0 < unat sz" using assms(3) by (simp add: word_less_nat_alt)
  have full: "\<nexists>a. \<forall>k<unat sz. byte_free b (a + k)" if "p = 0"
  proof
    assume "\<exists>a. \<forall>k<unat sz. byte_free b (a + k)"
    then obtain a where "\<forall>k<unat sz. byte_free b (a + k)" ..
    then obtain x where x: "x \<in> set (free_blocks b)" "b_lo x \<le> a" "a + unat sz \<le> b_hi x" by (rule free_run_in_block [OF I s0])
    then have "sz \<le> block_size x" by (simp add: b_lo_def b_hi_def word_le_nat_alt)
    then show False using alloc_zero [of sz b b' x] r I assms(3) x(1) that by simp
  qed
  have succ: "(\<forall>a. byte_free b' a \<longleftrightarrow> byte_free b a \<and> \<not> (unat p \<le> a \<and> a < unat p + unat sz)) \<and>
       (\<forall>k<unat sz. byte_free b (unat p + k)) \<and>
       (\<exists>mb\<in>set (free_blocks b). block_ptr mb = p \<and> sz \<le> block_size mb \<and>
          (\<forall>mb'\<in>set (free_blocks b). sz \<le> block_size mb' \<longrightarrow> block_size mb \<le> block_size mb'))" if nz: "p \<noteq> 0"
  proof -
    obtain mb where m: "mb \<in> set (free_blocks b)" "sz \<le> block_size mb" "p = block_ptr mb"
      "mset (free_blocks b') = mset (rest_of sz mb) + (mset (free_blocks b) - {#mb#})"
      "mset (used_blocks b') = add_mset (taken_of sz mb) (mset (used_blocks b))"
      "buffer_ptr b' = buffer_ptr b" "buffer_size b' = buffer_size b"
      "sorted (map block_size (free_blocks b'))" "sorted (map block_size (used_blocks b'))"
      "\<forall>mb'\<in>set (free_blocks b). sz \<le> block_size mb' \<longrightarrow> block_size mb \<le> block_size mb'"
      by (rule alloc_cases [OF r I nz])
    have u: "set (used_blocks b') = insert (taken_of sz mb) (set (used_blocks b))"
      using arg_cong [OF m(5), of set_mset] by simp
    have t: "in_blk (taken_of sz mb) a \<longleftrightarrow> unat p \<le> a \<and> a < unat p + unat sz" for a
      by (simp add: taken_of_def in_blk_def b_lo_def b_hi_def m(3))
    have "byte_free b (unat p + k)" if "k < unat sz" for k
      by (rule free_block_bytes [OF I m(1)]) (use that m(2,3) in \<open>simp add: in_blk_def b_lo_def b_hi_def word_le_nat_alt\<close>)
    then show ?thesis using m(1,2,3,10) unfolding byte_free_def u m(6,7) using t by auto
  qed
  show ?thesis
    using r full succ alloc_fails [OF r I] by blast
qed

theorem alloc_finds_space_witness:
  "(\<exists>b'. dimes_buffer_alloc True 20 buf64_used = Some (4136, b')) \<and> (\<exists>a. \<forall>k<20. byte_free buf64_used (a + k))"
proof -
  obtain b' where "dimes_buffer_alloc True 20 buf64_used = Some (4136, b')"
    by (simp add: dimes_buffer_alloc_def buf64_used_def)
  then show ?thesis using alloc_finds_space [OF buf64_ok buf64_used_reach, of 20] by simp
qed

text \<open>C21: Once every allocation has been freed, in any order, the free blocks have merged back into one
  that is the whole buffer.\<close>

theorem freed_buffer_is_whole:
  assumes "buffer_ok base n" "buf_reach base n b" "used_blocks b = []"
  shows "free_blocks b = [\<lparr>block_size = n, block_ptr = base, block_status = free_block\<rparr>]"
proof -
  note I = buf_reach_inv [OF assms(2,1)]
  note B = buf_reach_bounds [OF assms(2,1)]
  have n0: "0 < unat n" using assms(1) by (simp add: buffer_ok_def word_less_nat_alt)
  have "\<forall>i<unat n. byte_free b (unat base + i)" using B assms(3) by (simp add: byte_free_def)
  then obtain x where x: "x \<in> set (free_blocks b)" "b_lo x \<le> unat base" "unat base + unat n \<le> b_hi x"
    by (rule free_run_in_block [OF I n0])
  have xb: "x \<in># blocks b" using x(1) by (simp add: blocks_def)
  have all: "b_lo x = unat base" "b_hi x = unat base + unat n" using block_inside [OF I xb] x(2,3) B by auto
  have "blocks b - {#x#} = {#}"
  proof (rule ccontr)
    assume "blocks b - {#x#} \<noteq> {#}"
    then obtain y where y: "y \<in># blocks b - {#x#}" by (rule multiset_nonemptyE)
    then have "y \<in># blocks b" by (rule in_diffD)
    then show False
      using blocks_ordered [OF I xb y] block_nonempty [OF I \<open>y \<in># blocks b\<close>] block_inside [OF I \<open>y \<in># blocks b\<close>] all B by auto
  qed
  then have "mset (free_blocks b) = {#x#}" using insert_DiffM [OF xb] assms(3) by (simp add: blocks_def)
  then have "free_blocks b = [x]" by simp
  moreover have "block_ptr x = base" "block_size x = n" using all by (simp_all add: b_lo_def b_hi_def word_unat_eq_iff)
  moreover have "block_status x = free_block" using I x(1) by (simp add: buf_inv_def)
  ultimately show ?thesis by simp
qed

theorem freed_buffer_is_whole_witness:
  "\<exists>b. dimes_buffer_free 4112 buf64_used = Some b \<and>
     free_blocks b = [\<lparr>block_size = 64, block_ptr = 4096, block_status = free_block\<rparr>]"
proof -
  obtain b where b: "dimes_buffer_free 4112 buf64_used = Some b" "used_blocks b = []"
    by (simp add: dimes_buffer_free_def dimes_buf_insert_block_to_freelist_def contiguous_block_before_def
        contiguous_block_after_def buf64_used_def)
  then show ?thesis
    using freed_buffer_is_whole [OF buf64_ok buf_reach.free [OF buf64_used_reach b(1)] b(2)] by simp
qed

subsubsection \<open>Checkpoint and restart\<close>

definition relocate :: "u64 \<Rightarrow> u64 \<Rightarrow> dimes_buf_block \<Rightarrow> dimes_buf_block" where
  "relocate base base' mb = mb\<lparr>block_ptr := base' + (block_ptr mb - base)\<rparr>"

lemma restart_insert_all:
  "fold (restart_allocator_insert_block base') (map (block_info base) xs) ys = ys @ map (relocate base base') xs"
  by (induction xs arbitrary: ys) (simp_all add: restart_allocator_insert_block_def block_info_def relocate_def)

lemma restart_after_checkpoint:
  assumes "length (free_blocks b) < 2 ^ 32" "length (used_blocks b) < 2 ^ 32"
    "dimes_client_shmem_checkpoint_allocator obj_id True b = (0, Some cr)"
  shows "dimes_client_shmem_restart_allocator cr b0 =
    b0\<lparr>free_blocks := free_blocks b0 @ map (relocate (buffer_ptr b) (buffer_ptr b0)) (free_blocks b),
       used_blocks := used_blocks b0 @ map (relocate (buffer_ptr b) (buffer_ptr b0)) (used_blocks b)\<rparr>"
  using assms by (auto simp: dimes_client_shmem_checkpoint_allocator_def dimes_client_shmem_restart_allocator_def
      unat_of_nat restart_insert_all)

lemma relocate_bounds:
  assumes "buf_inv b" "mb \<in># blocks b" "unat base' + unat (buffer_size b) < 2 ^ 64"
  shows "b_lo (relocate (buffer_ptr b) base' mb) = unat base' + (b_lo mb - unat (buffer_ptr b))"
    "b_hi (relocate (buffer_ptr b) base' mb) = unat base' + (b_hi mb - unat (buffer_ptr b))"
proof -
  note I = block_inside [OF assms(1,2)]
  have d: "unat (block_ptr mb - buffer_ptr b) = b_lo mb - unat (buffer_ptr b)"
    using I(1) by (simp add: b_lo_def unat_diff_u64 word_le_nat_alt)
  have "b_lo mb \<le> b_hi mb" by (simp add: b_lo_def b_hi_def)
  then have "unat base' + unat (block_ptr mb - buffer_ptr b) < 2 ^ 64" using d I assms(3) by linarith
  then show "b_lo (relocate (buffer_ptr b) base' mb) = unat base' + (b_lo mb - unat (buffer_ptr b))"
    using d by (simp add: relocate_def b_lo_def unat_add_u64)
  then show "b_hi (relocate (buffer_ptr b) base' mb) = unat base' + (b_hi mb - unat (buffer_ptr b))"
    using I(1) by (simp add: relocate_def b_lo_def b_hi_def)
qed

lemma page_round_up:
  assumes "0 < page" "unat (page :: u64) \<le> 2 ^ 32" "unat bytes < 2 ^ 40"
  shows "bytes \<le> (bytes div page + 1) * page"
proof -
  let ?q = "unat bytes div unat page"
  have p: "0 < unat page" using assms(1) by (simp add: word_less_nat_alt)
  have "?q * unat page \<le> unat bytes" by (rule div_times_less_eq_dividend)
  moreover have "(?q + 1) * unat page = ?q * unat page + unat page" by (simp add: add_mult_distrib)
  ultimately have "(?q + 1) * unat page \<le> unat bytes + unat page" by (simp only: add_le_mono1)
  also have "\<dots> < 2 ^ 64" using assms(2,3) by simp
  finally have lt: "(?q + 1) * unat page < 2 ^ 64" .
  have q: "unat (bytes div page + 1) = ?q + 1"
  proof -
    have "?q \<le> unat bytes" "unat bytes < 1099511627776" using assms(3) by simp_all
    then have "?q + 1 < 18446744073709551616" by linarith
    then show ?thesis by (simp add: unat_div unat_add_u64)
  qed
  have "unat ((bytes div page + 1) * page) = (?q + 1) * unat page"
    using lt q by (simp add: unat_mult_u64)
  moreover have "unat bytes < (?q + 1) * unat page"
    using p by (metis Suc_eq_plus1 dividend_less_div_times mult.commute mult_Suc_right)
  ultimately show ?thesis by (simp add: word_le_nat_alt)
qed

lemma restart_buf_estimate:
  assumes "length (free_blocks b) + length (used_blocks b) < 2 ^ 32" "0 < page" "unat page \<le> 2 ^ 32"
  shows "12 + 20 * (length (free_blocks b) + length (used_blocks b)) \<le> unat (estimate_allocator_restart_buf_size page b)"
proof -
  let ?n = "length (free_blocks b) + length (used_blocks b)"
  let ?k = "of_nat (length (free_blocks b)) + of_nat (length (used_blocks b)) :: u32"
  let ?bytes = "sizeof_cr_allocator_info + sizeof_cr_allocator_block_info * ucast ?k"
  have n: "unat ?k = ?n" using assms(1) by (simp flip: of_nat_add add: unat_of_nat)
  have k: "unat (ucast ?k :: u64) = ?n" unfolding unsigned_ucast_eq n using assms(1) by (simp add: take_bit_nat_eq_self)
  have "unat (20 * ucast ?k :: u64) = 20 * ?n" using assms(1) k by (subst unat_mult_u64) simp_all
  then have b: "unat ?bytes = 12 + 20 * ?n"
    using assms(1) unfolding sizeof_cr_allocator_info_def sizeof_cr_allocator_block_info_def
    by (subst unat_add_u64) simp_all
  then have "?bytes \<le> (?bytes div page + 1) * page" using assms by (intro page_round_up) simp_all
  then show ?thesis
    using b by (simp add: estimate_allocator_restart_buf_size_def Let_def word_le_nat_alt)
qed

text \<open>C23: The checkpoint of the allocator fits in the pages estimated for it, and a restart into empty lists,
  wherever the shared memory is mapped then, restores both lists in order with every block at its
  offset.\<close>

theorem checkpoint_restart_relocates:
  assumes "length (free_blocks b) + length (used_blocks b) < 2 ^ 32" "0 < page" "unat page \<le> 2 ^ 32"
    "dimes_client_shmem_checkpoint_allocator obj_id True b = (0, Some cr)" "free_blocks b0 = []" "used_blocks b0 = []"
  shows "12 + 20 * length (block_infos cr) \<le> unat (estimate_allocator_restart_buf_size page b) \<and>
    dimes_client_shmem_restart_allocator cr b0 =
      b0\<lparr>free_blocks := map (\<lambda>mb. mb\<lparr>block_ptr := buffer_ptr b0 + (block_ptr mb - buffer_ptr b)\<rparr>) (free_blocks b),
         used_blocks := map (\<lambda>mb. mb\<lparr>block_ptr := buffer_ptr b0 + (block_ptr mb - buffer_ptr b)\<rparr>) (used_blocks b)\<rparr>"
proof
  have "length (block_infos cr) = length (free_blocks b) + length (used_blocks b)"
    using assms(4) by (auto simp: dimes_client_shmem_checkpoint_allocator_def)
  then show "12 + 20 * length (block_infos cr) \<le> unat (estimate_allocator_restart_buf_size page b)"
    using restart_buf_estimate [OF assms(1-3)] by simp
  have "length (free_blocks b) < 2 ^ 32" "length (used_blocks b) < 2 ^ 32" using assms(1) by simp_all
  from restart_after_checkpoint [OF this assms(4)] assms(5,6)
  show "dimes_client_shmem_restart_allocator cr b0 =
      b0\<lparr>free_blocks := map (\<lambda>mb. mb\<lparr>block_ptr := buffer_ptr b0 + (block_ptr mb - buffer_ptr b)\<rparr>) (free_blocks b),
         used_blocks := map (\<lambda>mb. mb\<lparr>block_ptr := buffer_ptr b0 + (block_ptr mb - buffer_ptr b)\<rparr>) (used_blocks b)\<rparr>"
    by (simp add: relocate_def)
qed

theorem checkpoint_restart_relocates_witness:
  "\<exists>cr. dimes_client_shmem_checkpoint_allocator 3 True buf64_used = (0, Some cr) \<and>
     used_blocks (dimes_client_shmem_restart_allocator cr (buf64\<lparr>buffer_ptr := 8192, free_blocks := []\<rparr>)) =
       [\<lparr>block_size = 24, block_ptr = 8208, block_status = used_block\<rparr>]"
proof -
  obtain cr where cr: "dimes_client_shmem_checkpoint_allocator 3 True buf64_used = (0, Some cr)"
    by (simp add: dimes_client_shmem_checkpoint_allocator_def)
  then show ?thesis
    using checkpoint_restart_relocates [of buf64_used 4096 3 cr "buf64\<lparr>buffer_ptr := 8192, free_blocks := []\<rparr>"]
    by (simp add: buf64_used_def buf64_def dimes_buffer_init_def)
qed

text \<open>C31: The client's restart initialises the buffer before it restores the blocks, so the free block of the
  whole buffer stays in the list: the next allocation of the buffer's size succeeds although every
  restored used block lies in it.\<close>

theorem restart_hands_out_used_memory:
  assumes "buffer_ok base n" "buf_reach base n b" "buffer_ok base' n"
    "length (free_blocks b) < 2 ^ 32" "length (used_blocks b) < 2 ^ 32"
    "dimes_client_shmem_checkpoint_allocator obj_id True b = (0, Some cr)"
    "b' = dimes_client_shmem_restart_allocator cr (snd (dimes_buffer_init base' n b0))"
  shows "length (used_blocks b') = length (used_blocks b) \<and>
    (\<forall>mb\<in>set (used_blocks b'). unat base' \<le> b_lo mb \<and> b_lo mb < b_hi mb \<and> b_hi mb \<le> unat base' + unat n) \<and>
    (\<exists>b''. dimes_buffer_alloc True n b' = Some (base', b''))"
proof -
  note I = buf_reach_inv [OF assms(2,1)]
  note B = buf_reach_bounds [OF assms(2,1)]
  let ?whole = "\<lparr>block_size = n, block_ptr = base', block_status = free_block\<rparr>"
  have b': "free_blocks b' = ?whole # map (relocate base base') (free_blocks b)"
    "used_blocks b' = map (relocate base base') (used_blocks b)" "buffer_size b' = n"
    using assms(3,7) B restart_after_checkpoint [OF assms(4-6)]
    by (auto simp: dimes_buffer_init_def Let_def buffer_ok_def)
  have "unat base' \<le> b_lo mb \<and> b_lo mb < b_hi mb \<and> b_hi mb \<le> unat base' + unat n" if mb: "mb \<in> set (used_blocks b')" for mb
  proof -
    obtain m where m: "m \<in> set (used_blocks b)" "mb = relocate base base' m" using mb b'(2) by auto
    then have "m \<in># blocks b" by (simp add: blocks_def)
    from relocate_bounds [OF I this, of base'] block_inside [OF I this] block_nonempty [OF I this] assms(3) B m(2)
    show ?thesis by (auto simp: buffer_ok_def)
  qed
  then show ?thesis using b' by (simp add: dimes_buffer_alloc_def Let_def)
qed

theorem restart_hands_out_used_memory_witness:
  "\<exists>cr b''. dimes_client_shmem_checkpoint_allocator 3 True buf64_used = (0, Some cr) \<and>
     dimes_buffer_alloc True 64 (dimes_client_shmem_restart_allocator cr (snd (dimes_buffer_init 8192 64 buf64))) =
       Some (8192, b'')"
proof -
  obtain cr where cr: "dimes_client_shmem_checkpoint_allocator 3 True buf64_used = (0, Some cr)"
    by (simp add: dimes_client_shmem_checkpoint_allocator_def)
  have "buffer_ok 8192 64" "length (free_blocks buf64_used) < 2 ^ 32" "length (used_blocks buf64_used) < 2 ^ 32"
    by (simp_all add: buffer_ok_def buf64_used_def)
  then show ?thesis
    using restart_hands_out_used_memory [OF buf64_ok buf64_used_reach _ _ _ cr refl, of 8192 buf64] cr by auto
qed

end
