(* ===== verification/DS_Meta.thy ===== *)
theory DS_Meta
  imports DS_Server "HOL-Library.Signed_Division"
begin

text \<open>
  The server of DIMES (src/src/dimes_server.c) and its metadata storage (src/src/dimes_data.c): the
  data stay in the memory of the clients, the server keeps the put requests (\<open>struct rpc_cmd\<close>), which say
  where the data are, in one list per variable and bin of versions.
  \<^item> the version is an \<open>int\<close> in \<open>obj_location_list_lookup\<close>: from \<open>2 ^ 31\<close> on it is negative and so may be
    the index of the bin, which is undefined behaviour (\<open>None\<close>);
  \<^item> calloc and malloc of list nodes are not checked by the code; \<open>mem\<close> is whether they succeed, and a
    failure is undefined behaviour.
\<close>

subsection \<open>Metadata storage\<close>

record dimes_obj_id =
  dart_id :: int
  local_obj_index :: u32

definition equal_dimes_obj_id :: "dimes_obj_id \<Rightarrow> dimes_obj_id \<Rightarrow> bool" where
  "equal_dimes_obj_id oid1 oid2 \<longleftrightarrow> dart_id oid1 = dart_id oid2 \<and> local_obj_index oid1 = local_obj_index oid2"

record dimes_shmem_descriptor =
  sd_size :: u64
  sd_offset :: u64
  sd_shmem_obj_id :: int
  sd_owner_node_rank :: int

record hdr_dimes_put =
  hd_ptlmap :: int
  hd_obj_id :: dimes_obj_id
  hd_odsc :: obj_descriptor
  hd_has_shmem_data :: bool
  hd_shmem_desc :: dimes_shmem_descriptor

text \<open>A put request: the sender, the registered memory region of the data, and the header in \<open>pad\<close>.\<close>

record dimes_cmd =
  cmd_id :: int
  cmd_mr :: "nat \<times> u64"
  cmd_put :: hdr_dimes_put

abbreviation cmd_odsc :: "dimes_cmd \<Rightarrow> obj_descriptor" where
  "cmd_odsc c \<equiv> hd_odsc (cmd_put c)"

record var_list_node =
  vn_name :: string
  obj_location_list :: "dimes_cmd list"

record metadata_storage =
  ms_max_versions :: int
  version_tab :: "nat \<Rightarrow> var_list_node list"

definition var_node_lookup :: "bool \<Rightarrow> var_list_node list \<Rightarrow> string \<Rightarrow> (var_list_node \<times> var_list_node list) option" where
  "var_node_lookup mem var_list name =
     (case find (\<lambda>n. vn_name n = name) var_list of
        Some n \<Rightarrow> Some (n, var_list)
      | None \<Rightarrow>
          if mem then let n = \<lparr>vn_name = name, obj_location_list = []\<rparr> in Some (n, n # var_list) else None)"

text \<open>\<open>version % s->max_versions\<close> with the sign of C.\<close>

definition version_index :: "metadata_storage \<Rightarrow> u32 \<Rightarrow> nat option" where
  "version_index s version =
     (let i = sint version smod ms_max_versions s
      in if ms_max_versions s = 0 \<or> i < 0 then None else Some (nat i))"

definition obj_location_list_lookup ::
  "bool \<Rightarrow> metadata_storage \<Rightarrow> u32 \<Rightarrow> string \<Rightarrow> (dimes_cmd list \<times> metadata_storage) option" where
  "obj_location_list_lookup mem s version name = do {
     i \<leftarrow> version_index s version;
     (n, l) \<leftarrow> var_node_lookup mem (version_tab s i) name;
     Some (obj_location_list n, s\<lparr>version_tab := (version_tab s)(i := l)\<rparr>)
   }"

text \<open>Assignment to the list that the lookup returned a pointer to.\<close>

fun set_locations :: "string \<Rightarrow> dimes_cmd list \<Rightarrow> var_list_node list \<Rightarrow> var_list_node list" where
  "set_locations name cs [] = []"
| "set_locations name cs (n # ns) =
     (if vn_name n = name then n\<lparr>obj_location_list := cs\<rparr> # ns else n # set_locations name cs ns)"

definition metadata_s_alloc :: "bool \<Rightarrow> int \<Rightarrow> metadata_storage option" where
  "metadata_s_alloc mem max_versions =
     (if mem then Some \<lparr>ms_max_versions = max_versions, version_tab = (\<lambda>_. [])\<rparr> else None)"

text \<open>The requests whose nodes are released, in order.\<close>

definition var_node_free :: "var_list_node \<Rightarrow> dimes_cmd list" where
  "var_node_free n = obj_location_list n"

definition metadata_s_free :: "metadata_storage \<Rightarrow> dimes_cmd list" where
  "metadata_s_free s =
     concat (map (\<lambda>i. concat (map var_node_free (version_tab s i))) [0..<nat (ms_max_versions s)])"

definition metadata_s_add_obj_location :: "bool \<Rightarrow> metadata_storage \<Rightarrow> dimes_cmd \<Rightarrow> (int \<times> metadata_storage) option" where
  "metadata_s_add_obj_location mem s cmd = do {
     let odsc = cmd_odsc cmd;
     i \<leftarrow> version_index s (od_version odsc);
     (l, s) \<leftarrow> obj_location_list_lookup mem s (od_version odsc) (od_name odsc);
     let l = filter (\<lambda>n. \<not> obj_desc_by_name_intersect odsc (cmd_odsc n)) l;
     if \<not> mem then None
     else Some (0, s\<lparr>version_tab := (version_tab s)(i := set_locations (od_name odsc) (cmd # l) (version_tab s i))\<rparr>)
   }"

text \<open>The returned list is \<open>out_list\<close>, to whose front every match is added; its length is \<open>out_num_items\<close>.\<close>

definition metadata_s_find_obj_location ::
  "bool \<Rightarrow> metadata_storage \<Rightarrow> obj_descriptor \<Rightarrow> (int \<times> dimes_cmd list \<times> int \<times> metadata_storage) option" where
  "metadata_s_find_obj_location mem s odsc = do {
     (l, s) \<leftarrow> obj_location_list_lookup mem s (od_version odsc) (od_name odsc);
     let found = filter (\<lambda>n. obj_desc_equals_intersect odsc (cmd_odsc n)) l;
     if \<not> mem \<and> found \<noteq> [] then None
     else Some (0, fold (#) found [], int (length found), s)
   }"

subsection \<open>The server\<close>

record hdr_dimes_get =
  hg_qid :: int
  hg_rc :: int
  hg_num_obj :: int
  hg_odsc :: obj_descriptor

datatype dimes_msg = M_dimes_locate int int int "dimes_cmd list"

record dimes_server =
  dsg :: ds_gspace
  meta_store :: metadata_storage
  dimes_sent :: "(int \<times> dimes_msg) list"

text \<open>
  The reply holds qid, rc, num_obj and the table. When the message or the table cannot be allocated, \<open>err\<close>
  still holds the 0 of the search; when the send fails without a table, the uninitialised \<open>tab\<close> is freed.
\<close>

definition locate_data :: "bool \<Rightarrow> int \<Rightarrow> hdr_dimes_get \<Rightarrow> dimes_server \<Rightarrow> (int \<times> dimes_server) option" where
  "locate_data mem cid hdr ds = do {
     (err, found, num_obj, ms) \<leftarrow> metadata_s_find_obj_location mem (meta_store ds) (hg_odsc hdr);
     let ds = ds\<lparr>meta_store := ms\<rparr>;
     if err < 0 then Some (err, ds)
     else let (rc, g) = attempt (dsg ds); ds = ds\<lparr>dsg := g\<rparr> in
       if rc \<noteq> 0 then Some (err, ds)
       else let (rc, g) = (if num_obj > 0 then attempt g else (0, g)); ds = ds\<lparr>dsg := g\<rparr> in
         if rc \<noteq> 0 then Some (err, ds)
         else let (err, g) = attempt g; ds = ds\<lparr>dsg := g\<rparr> in
           if err = 0
           then Some (0, ds\<lparr>dimes_sent := dimes_sent ds @
                  [(cid, M_dimes_locate (hg_qid hdr) (if num_obj > 0 then 0 else - 1) num_obj found)]\<rparr>)
           else if num_obj > 0 then Some (err, ds) else None
   }"

definition dsgrpc_dimes_locate_data :: "bool \<Rightarrow> int \<Rightarrow> hdr_dimes_get \<Rightarrow> dimes_server \<Rightarrow> (int \<times> dimes_server) option" where
  "dsgrpc_dimes_locate_data mem cid hdr ds = locate_data mem cid hdr ds"

definition dsgrpc_dimes_put :: "bool \<Rightarrow> dimes_cmd \<Rightarrow> dimes_server \<Rightarrow> (int \<times> dimes_server) option" where
  "dsgrpc_dimes_put mem cmd ds = do {
     (_, ms) \<leftarrow> metadata_s_add_obj_location mem (meta_store ds) cmd;
     Some (0, ds\<lparr>meta_store := ms\<rparr>)
   }"

text \<open>A storage that cannot be allocated is a NULL pointer from then on.\<close>

definition dsgrpc_dimes_shmem_reset_server :: "bool \<Rightarrow> dimes_server \<Rightarrow> (int \<times> dimes_server) option" where
  "dsgrpc_dimes_shmem_reset_server mem ds = do {
     ms \<leftarrow> metadata_s_alloc mem (int (size_hash (g_ls (dsg ds))));
     Some (0, ds\<lparr>meta_store := ms\<rparr>)
   }"

definition dsgrpc_dimes_shmem_update_server :: "bool \<Rightarrow> dimes_cmd \<Rightarrow> dimes_server \<Rightarrow> (int \<times> dimes_server) option" where
  "dsgrpc_dimes_shmem_update_server mem cmd ds = do {
     (_, ms) \<leftarrow> metadata_s_add_obj_location mem (meta_store ds) cmd;
     Some (0, ds\<lparr>meta_store := ms\<rparr>)
   }"

definition dimes_server_alloc ::
  "bool \<Rightarrow> nat \<Rightarrow> nat \<Rightarrow> int \<Rightarrow> bool \<Rightarrow> bool \<Rightarrow> string \<Rightarrow> ds_conf \<Rightarrow> ds_gspace \<Rightarrow> dimes_server option option" where
  "dimes_server_alloc mem max_ndim num_sp self ds_ok ls_ok conf_text conf0 g0 = do {
     r \<leftarrow> dsg_alloc max_ndim num_sp self ds_ok ls_ok conf_text conf0 g0;
     case r of
       None \<Rightarrow> Some None
     | Some g \<Rightarrow> Some (map_option (\<lambda>ms. \<lparr>dsg = g, meta_store = ms, dimes_sent = []\<rparr>)
                        (metadata_s_alloc mem (int (size_hash (g_ls g)))))
   }"

definition dimes_server_free :: "dimes_server \<Rightarrow> ss_storage \<times> dimes_cmd list" where
  "dimes_server_free ds = (ls_free (g_ls (dsg ds)), metadata_s_free (meta_store ds))"

datatype dimes_rpc =
    ds_rpc srv_rpc
  | dimes_put_msg dimes_cmd
  | dimes_locate_data_msg int hdr_dimes_get
  | dimes_shmem_reset_server_msg
  | dimes_shmem_update_server_msg dimes_cmd

definition dimes_service :: "bool \<Rightarrow> dimes_rpc \<Rightarrow> dimes_server \<Rightarrow> (int \<times> dimes_server) option" where
  "dimes_service mem rpc ds =
     (case rpc of
        ds_rpc r \<Rightarrow> do { (err, g) \<leftarrow> dsg_service r (dsg ds); Some (err, ds\<lparr>dsg := g\<rparr>) }
      | dimes_put_msg cmd \<Rightarrow> dsgrpc_dimes_put mem cmd ds
      | dimes_locate_data_msg cid hdr \<Rightarrow> dsgrpc_dimes_locate_data mem cid hdr ds
      | dimes_shmem_reset_server_msg \<Rightarrow> dsgrpc_dimes_shmem_reset_server mem ds
      | dimes_shmem_update_server_msg cmd \<Rightarrow> dsgrpc_dimes_shmem_update_server mem cmd ds)"

subsection \<open>The live put requests\<close>

text \<open>
  The specification: a put request supersedes earlier ones of the same variable in the same bin whose
  boxes meet its own; \<open>live\<close> are the requests that none supersedes, oldest first.
\<close>

definition version_bin :: "int \<Rightarrow> dimes_cmd \<Rightarrow> int" where
  "version_bin m c = int (unat (od_version (cmd_odsc c))) mod m"

definition supersedes :: "int \<Rightarrow> dimes_cmd \<Rightarrow> dimes_cmd \<Rightarrow> bool" where
  "supersedes m c d \<longleftrightarrow> version_bin m c = version_bin m d \<and> obj_desc_by_name_intersect (cmd_odsc c) (cmd_odsc d)"

definition live :: "int \<Rightarrow> dimes_cmd list \<Rightarrow> dimes_cmd list" where
  "live m cs = foldl (\<lambda>l c. filter (\<lambda>d. \<not> supersedes m c d) l @ [c]) [] cs"

lemma live_simps [simp]: "live m [] = []" "live m (cs @ [c]) = filter (\<lambda>d. \<not> supersedes m c d) (live m cs) @ [c]"
  by (simp_all add: live_def)

lemma live_subset: "set (live m cs) \<subseteq> set cs"
  by (induction cs rule: rev_induct) auto

text \<open>The requests of a variable in a bin, newest first.\<close>

definition locs :: "metadata_storage \<Rightarrow> nat \<Rightarrow> string \<Rightarrow> dimes_cmd list" where
  "locs s i name = (case find (\<lambda>n. vn_name n = name) (version_tab s i) of None \<Rightarrow> [] | Some n \<Rightarrow> obj_location_list n)"

definition meta_rel :: "metadata_storage \<Rightarrow> dimes_cmd list \<Rightarrow> bool" where
  "meta_rel s cs \<longleftrightarrow> 0 < ms_max_versions s \<and>
     (\<forall>i name. locs s i name = rev (filter (\<lambda>c. od_name (cmd_odsc c) = name \<and> version_bin (ms_max_versions s) c = int i)
        (live (ms_max_versions s) cs)))"

definition small_version :: "obj_descriptor \<Rightarrow> bool" where
  "small_version odsc \<longleftrightarrow> unat (od_version odsc) < 2 ^ 31"

lemma sint_small:
  assumes "unat (v :: u32) < 2 ^ 31"
  shows "sint v = int (unat v)"
proof -
  have u: "uint v = int (unat v)" by (rule uint_nat)
  have "uint v < 2 ^ 31" unfolding u using assms by (metis of_nat_less_iff of_nat_numeral of_nat_power)
  moreover have "- (2 ^ 31) \<le> uint v" by (rule order_trans [OF _ uint_ge_0]) simp
  ultimately have "signed_take_bit 31 (uint v) = uint v" by (intro signed_take_bit_int_eq_self)
  moreover have "sint v = signed_take_bit 31 (uint v)" using sint_uint [of v] by (simp only: len_bit0 len_num1) simp
  ultimately show ?thesis using u by (simp only:)
qed

lemma version_index_small:
  assumes "unat v < 2 ^ 31" "0 < ms_max_versions s"
  shows "version_index s v = Some (nat (int (unat v) mod ms_max_versions s))"
proof -
  have e: "int (unat v) smod ms_max_versions s = int (unat v) mod ms_max_versions s"
    by (rule smod_mod_positive) (use assms(2) in \<open>simp_all only: of_nat_0_le_iff less_imp_le\<close>)
  have "\<not> (ms_max_versions s = 0 \<or> int (unat v) mod ms_max_versions s < 0)"
    using assms(2) pos_mod_sign [OF assms(2)] by (metis less_irrefl not_less)
  then show ?thesis
    unfolding version_index_def sint_small [OF assms(1)] Let_def e by (simp only: if_False)
qed

lemma lookup_locs:
  assumes "version_index s v = Some i"
  obtains s' where "obj_location_list_lookup True s v name = Some (locs s i name, s')" "locs s' = locs s"
    "ms_max_versions s' = ms_max_versions s" "find (\<lambda>n. vn_name n = name) (version_tab s' i) \<noteq> None"
proof (cases "find (\<lambda>n. vn_name n = name) (version_tab s i)")
  case None
  show ?thesis
    by (rule that [of "s\<lparr>version_tab := (version_tab s)(i := \<lparr>vn_name = name, obj_location_list = []\<rparr> # version_tab s i)\<rparr>"])
      (use None assms in \<open>auto simp: obj_location_list_lookup_def var_node_lookup_def locs_def fun_eq_iff Let_def\<close>)
next
  case (Some n)
  show ?thesis
    by (rule that [of s]) (use Some assms in \<open>auto simp: obj_location_list_lookup_def var_node_lookup_def locs_def\<close>)
qed

lemma find_set_locations:
  "find (\<lambda>n. vn_name n = name') (set_locations name cs ns) =
     (if name' = name then map_option (\<lambda>n. n\<lparr>obj_location_list := cs\<rparr>) (find (\<lambda>n. vn_name n = name) ns)
      else find (\<lambda>n. vn_name n = name') ns)"
  by (induction ns) auto

lemma add_locs:
  assumes "version_index s (od_version (cmd_odsc c)) = Some i"
  obtains s' where "metadata_s_add_obj_location True s c = Some (0, s')" "ms_max_versions s' = ms_max_versions s"
    "\<And>j name. locs s' j name = (if j = i \<and> name = od_name (cmd_odsc c)
       then c # filter (\<lambda>d. \<not> obj_desc_by_name_intersect (cmd_odsc c) (cmd_odsc d)) (locs s i name) else locs s j name)"
proof -
  let ?name = "od_name (cmd_odsc c)"
  let ?l = "c # filter (\<lambda>d. \<not> obj_desc_by_name_intersect (cmd_odsc c) (cmd_odsc d)) (locs s i ?name)"
  obtain s1 where s1: "obj_location_list_lookup True s (od_version (cmd_odsc c)) ?name = Some (locs s i ?name, s1)" "locs s1 = locs s"
    "ms_max_versions s1 = ms_max_versions s" "find (\<lambda>n. vn_name n = ?name) (version_tab s1 i) \<noteq> None"
    by (rule lookup_locs [OF assms, of ?name])
  let ?s' = "s1\<lparr>version_tab := (version_tab s1)(i := set_locations ?name ?l (version_tab s1 i))\<rparr>"
  have "locs ?s' j name = (if j = i \<and> name = ?name then ?l else locs s1 j name)" for j name
    using s1(4) by (auto simp: locs_def find_set_locations)
  then have "locs ?s' j name = (if j = i \<and> name = ?name
      then c # filter (\<lambda>d. \<not> obj_desc_by_name_intersect (cmd_odsc c) (cmd_odsc d)) (locs s i name) else locs s j name)" for j name
    using s1(2) by auto
  moreover have "metadata_s_add_obj_location True s c = Some (0, ?s')"
    using assms s1(1) by (simp add: metadata_s_add_obj_location_def Let_def)
  ultimately show ?thesis using s1(3) by (intro that [of ?s']) simp_all
qed

lemma meta_rel_add:
  assumes "meta_rel s cs" "small_version (cmd_odsc c)"
  obtains s' where "metadata_s_add_obj_location True s c = Some (0, s')" "meta_rel s' (cs @ [c])"
    "ms_max_versions s' = ms_max_versions s"
proof -
  let ?m = "ms_max_versions s"
  have m: "0 < ?m" using assms(1) by (simp add: meta_rel_def)
  have i: "version_index s (od_version (cmd_odsc c)) = Some (nat (version_bin ?m c))" "int (nat (version_bin ?m c)) = version_bin ?m c"
    using assms(2) m by (simp_all add: version_index_small small_version_def version_bin_def)
  obtain s' where s': "metadata_s_add_obj_location True s c = Some (0, s')" "ms_max_versions s' = ms_max_versions s"
    "\<And>j name. locs s' j name = (if j = nat (version_bin ?m c) \<and> name = od_name (cmd_odsc c)
       then c # filter (\<lambda>d. \<not> obj_desc_by_name_intersect (cmd_odsc c) (cmd_odsc d)) (locs s (nat (version_bin ?m c)) name)
       else locs s j name)"
    by (rule add_locs [OF i(1)]) (rule that)
  have L: "locs s j name = rev (filter (\<lambda>c. od_name (cmd_odsc c) = name \<and> version_bin ?m c = int j) (live ?m cs))" for j name
    using assms(1) by (simp add: meta_rel_def)
  have "locs s' j name = rev (filter (\<lambda>c. od_name (cmd_odsc c) = name \<and> version_bin ?m c = int j) (live ?m (cs @ [c])))" for j name
  proof (cases "j = nat (version_bin ?m c) \<and> name = od_name (cmd_odsc c)")
    case True
    have l: "locs s' j name = c # filter (\<lambda>d. \<not> obj_desc_by_name_intersect (cmd_odsc c) (cmd_odsc d)) (locs s j name)"
      using s'(3) [of j name] True by (simp only: simp_thms if_True)
    have v: "od_name (cmd_odsc c) = name" "version_bin ?m c = int j" using True i(2) by auto
    then have "filter (\<lambda>d. \<not> obj_desc_by_name_intersect (cmd_odsc c) (cmd_odsc d)) (filter (\<lambda>c. od_name (cmd_odsc c) = name \<and> version_bin ?m c = int j) l)
      = filter (\<lambda>c. od_name (cmd_odsc c) = name \<and> version_bin ?m c = int j) (filter (\<lambda>d. \<not> supersedes ?m c d) l)" for l
      by (induction l) (auto simp: supersedes_def)
    then show ?thesis unfolding l L live_simps using v by (simp only: rev_filter [symmetric] filter_append) simp
  next
    case False
    then have l: "locs s' j name = locs s j name" using s'(3) [of j name] by (simp only: if_False)
    have v: "\<not> (od_name (cmd_odsc c) = name \<and> version_bin ?m c = int j)" using False i(2) by auto
    then have "filter (\<lambda>c. od_name (cmd_odsc c) = name \<and> version_bin ?m c = int j) (filter (\<lambda>d. \<not> supersedes ?m c d) l)
      = filter (\<lambda>c. od_name (cmd_odsc c) = name \<and> version_bin ?m c = int j) l" for l
      by (induction l) (auto simp: supersedes_def obj_desc_by_name_intersect_def)
    then show ?thesis unfolding l L live_simps using v by (simp only: filter_append) simp
  qed
  then show ?thesis using that [OF s'(1) _ s'(2)] m by (simp add: meta_rel_def s'(2))
qed

lemma meta_rel_added:
  assumes "meta_rel s cs" "small_version (cmd_odsc c)" "metadata_s_add_obj_location True s c = Some (err, s')"
  shows "meta_rel s' (cs @ [c])"
  by (rule meta_rel_add [OF assms(1,2)]) (use assms(3) in simp)

lemma meta_rel_find:
  assumes "meta_rel s cs" "small_version q"
  obtains s' where "metadata_s_find_obj_location True s q =
      Some (0, filter (\<lambda>c. obj_desc_equals_intersect q (cmd_odsc c)) (live (ms_max_versions s) cs),
        int (length (filter (\<lambda>c. obj_desc_equals_intersect q (cmd_odsc c)) (live (ms_max_versions s) cs))), s')"
    "meta_rel s' cs" "ms_max_versions s' = ms_max_versions s"
proof -
  let ?m = "ms_max_versions s"
  let ?i = "nat (int (unat (od_version q)) mod ?m)"
  have m: "0 < ?m" using assms(1) by (simp add: meta_rel_def)
  have i: "version_index s (od_version q) = Some ?i"
    using assms(2) m by (simp add: version_index_small small_version_def)
  obtain s' where s': "obj_location_list_lookup True s (od_version q) (od_name q) = Some (locs s ?i (od_name q), s')"
    "locs s' = locs s" "ms_max_versions s' = ms_max_versions s"
    by (rule lookup_locs [OF i, of "od_name q"])
  have b: "version_bin ?m c = int ?i" if "od_version q = od_version (cmd_odsc c)" for c
    unfolding version_bin_def that [symmetric] using pos_mod_sign [OF m] by (simp only: int_nat_eq if_True)
  have "od_name (cmd_odsc c) = od_name q \<and> version_bin ?m c = int ?i \<and> obj_desc_equals_intersect q (cmd_odsc c) \<longleftrightarrow>
    obj_desc_equals_intersect q (cmd_odsc c)" for c
    using b [of c] unfolding obj_desc_equals_intersect_def by metis
  then have "filter (\<lambda>c. obj_desc_equals_intersect q (cmd_odsc c)) (locs s ?i (od_name q)) =
      rev (filter (\<lambda>c. obj_desc_equals_intersect q (cmd_odsc c)) (live ?m cs))"
    using assms(1) unfolding meta_rel_def by (simp only: rev_filter filter_filter conj_assoc)
  then show ?thesis
    using that [of s'] s' assms(1)
    by (simp add: metadata_s_find_obj_location_def Let_def meta_rel_def fold_Cons_rev)
qed

subsection \<open>Runs of a server\<close>

text \<open>The put requests a server was sent since its metadata were last reset, for any requests in any order.\<close>

inductive dimes_reach :: "nat \<Rightarrow> dimes_server \<Rightarrow> dimes_cmd list \<Rightarrow> bool" for max_ndim where
  start: "dimes_server_alloc True max_ndim num_sp self ds_ok ls_ok conf_text conf0 g0 = Some (Some ds) \<Longrightarrow>
    0 < cf_max_versions (g_conf (dsg ds)) \<Longrightarrow> 0 \<le> self \<Longrightarrow> self < int num_sp \<Longrightarrow> g_pending g0 = [] \<Longrightarrow>
    dimes_reach max_ndim ds []"
| dataspaces: "dimes_reach max_ndim ds cs \<Longrightarrow> dimes_service True (ds_rpc r) ds = Some (err, ds') \<Longrightarrow> dimes_reach max_ndim ds' cs"
| put: "dimes_reach max_ndim ds cs \<Longrightarrow> small_version (cmd_odsc c) \<Longrightarrow>
    dimes_service True (dimes_put_msg c) ds = Some (err, ds') \<Longrightarrow> dimes_reach max_ndim ds' (cs @ [c])"
| update: "dimes_reach max_ndim ds cs \<Longrightarrow> small_version (cmd_odsc c) \<Longrightarrow>
    dimes_service True (dimes_shmem_update_server_msg c) ds = Some (err, ds') \<Longrightarrow> dimes_reach max_ndim ds' (cs @ [c])"
| locate: "dimes_reach max_ndim ds cs \<Longrightarrow> small_version (hg_odsc hdr) \<Longrightarrow>
    dimes_service True (dimes_locate_data_msg cid hdr) ds = Some (err, ds') \<Longrightarrow> dimes_reach max_ndim ds' cs"
| reset: "dimes_reach max_ndim ds cs \<Longrightarrow> dimes_service True dimes_shmem_reset_server_msg ds = Some (err, ds') \<Longrightarrow>
    dimes_reach max_ndim ds' []"

definition dimes_inv :: "dimes_server \<Rightarrow> dimes_cmd list \<Rightarrow> bool" where
  "dimes_inv ds cs \<longleftrightarrow> srv_inv (dsg ds) \<and> meta_rel (meta_store ds) cs"

lemma meta_rel_alloc: "metadata_s_alloc True m = Some s \<Longrightarrow> 0 < m \<Longrightarrow> meta_rel s []"
  by (auto simp: metadata_s_alloc_def meta_rel_def locs_def)

lemma srv_inv_size_hash: "srv_inv g \<Longrightarrow> 0 < size_hash (g_ls g)"
  by (auto simp: srv_inv_def store_inv_def ls_inv_def)

lemma srv_inv_attempt: "srv_inv g \<Longrightarrow> srv_inv (snd (attempt g))"
  using dir_step_srv_inv dir_step_attempt by (metis prod.collapse)

text \<open>The answer to a query, as the specification has it.\<close>

definition answer :: "int \<Rightarrow> dimes_cmd list \<Rightarrow> obj_descriptor \<Rightarrow> dimes_cmd list" where
  "answer m cs q = filter (\<lambda>c. obj_desc_equals_intersect q (cmd_odsc c)) (live m cs)"

lemma locate_data_inv:
  assumes "dimes_inv ds cs" "small_version (hg_odsc hdr)" "locate_data True cid hdr ds = Some (err, ds')"
  shows "dimes_inv ds' cs"
proof -
  obtain s' found n where f: "metadata_s_find_obj_location True (meta_store ds) (hg_odsc hdr) = Some (0, found, n, s')" "meta_rel s' cs"
    using meta_rel_find [of "meta_store ds" cs "hg_odsc hdr"] assms(1,2) unfolding dimes_inv_def by metis
  let ?g1 = "snd (attempt (dsg ds))" and ?g2 = "snd (attempt (snd (attempt (dsg ds))))"
  have g: "srv_inv (dsg ds)" "srv_inv ?g1" "srv_inv ?g2" "srv_inv (snd (attempt ?g2))"
    using assms(1) srv_inv_attempt by (auto simp: dimes_inv_def)
  have "meta_store ds' = s' \<and> dsg ds' \<in> {?g1, ?g2, snd (attempt ?g2)}"
    using assms(3) f(1) by (auto simp: locate_data_def Let_def split: prod.splits if_splits)
  then show ?thesis using g f(2) by (auto simp: dimes_inv_def)
qed

lemma locate_data_answers:
  assumes "dimes_inv ds cs" "small_version (hg_odsc hdr)" "\<forall>k. g_rc (dsg ds) k = 0"
  shows "\<exists>ds'. locate_data True cid hdr ds = Some (0, ds') \<and> dimes_sent ds' = dimes_sent ds @
    [(cid, M_dimes_locate (hg_qid hdr) (if answer (ms_max_versions (meta_store ds)) cs (hg_odsc hdr) = [] then - 1 else 0)
      (int (length (answer (ms_max_versions (meta_store ds)) cs (hg_odsc hdr)))) (answer (ms_max_versions (meta_store ds)) cs (hg_odsc hdr)))]"
proof -
  let ?a = "answer (ms_max_versions (meta_store ds)) cs (hg_odsc hdr)"
  obtain s' where f: "metadata_s_find_obj_location True (meta_store ds) (hg_odsc hdr) = Some (0, ?a, int (length ?a), s')"
    using meta_rel_find [of "meta_store ds" cs "hg_odsc hdr"] assms(1,2) unfolding dimes_inv_def answer_def by metis
  show ?thesis using f assms(3) by (simp add: locate_data_def Let_def attempt_def split: if_splits)
qed

lemma dimes_reach_inv: "dimes_reach max_ndim ds cs \<Longrightarrow> dimes_inv ds cs"
proof (induction rule: dimes_reach.induct)
  case (start num_sp self ds_ok ls_ok conf_text conf0 g0 ds)
  then obtain ms where a: "dsg_alloc max_ndim num_sp self ds_ok ls_ok conf_text conf0 g0 = Some (Some (dsg ds))"
    "metadata_s_alloc True (int (size_hash (g_ls (dsg ds)))) = Some ms" "meta_store ds = ms"
    by (auto simp: dimes_server_alloc_def bind_eq_Some_conv split: option.splits)
  then have i: "srv_inv (dsg ds)" using start by (intro srv_reach_inv srv_reach.alloc)
  then show ?case using meta_rel_alloc [OF a(2)] srv_inv_size_hash [OF i] a(3) by (simp add: dimes_inv_def)
next
  case (dataspaces ds cs r err ds')
  then show ?case
    using srv_inv_service by (auto simp: dimes_inv_def dimes_service_def bind_eq_Some_conv)
next
  case (put ds cs c err ds')
  then show ?case
    by (auto simp: dimes_inv_def dimes_service_def dsgrpc_dimes_put_def bind_eq_Some_conv intro: meta_rel_added)
next
  case (update ds cs c err ds')
  then show ?case
    by (auto simp: dimes_inv_def dimes_service_def dsgrpc_dimes_shmem_update_server_def bind_eq_Some_conv intro: meta_rel_added)
next
  case (locate ds cs hdr cid err ds')
  then show ?case using locate_data_inv by (simp add: dimes_service_def dsgrpc_dimes_locate_data_def)
next
  case (reset ds cs err ds')
  then obtain s where "metadata_s_alloc True (int (size_hash (g_ls (dsg ds)))) = Some s" "ds' = ds\<lparr>meta_store := s\<rparr>"
    by (auto simp: dimes_service_def dsgrpc_dimes_shmem_reset_server_def bind_eq_Some_conv)
  then show ?case using reset.IH srv_inv_size_hash meta_rel_alloc by (auto simp: dimes_inv_def)
qed

lemma live_apart: "sorted_wrt (\<lambda>d c. \<not> supersedes m c d) (live m cs)"
  by (induction cs rule: rev_induct) (auto simp: sorted_wrt_append intro: sorted_wrt_filter)

lemma answer_apart:
  assumes "i < j" "j < length (answer m cs q)"
  shows "\<not> bbox_does_intersect (od_bb (cmd_odsc (answer m cs q ! j))) (od_bb (cmd_odsc (answer m cs q ! i)))"
proof -
  have "sorted_wrt (\<lambda>d c. \<not> supersedes m c d) (answer m cs q)" unfolding answer_def by (intro sorted_wrt_filter live_apart)
  then have n: "\<not> supersedes m (answer m cs q ! j) (answer m cs q ! i)" using assms by (simp add: sorted_wrt_iff_nth_less)
  have "answer m cs q ! j \<in> set (answer m cs q)" "answer m cs q ! i \<in> set (answer m cs q)" using assms by simp_all
  then have "obj_desc_equals_intersect q (cmd_odsc (answer m cs q ! j))" "obj_desc_equals_intersect q (cmd_odsc (answer m cs q ! i))"
    by (simp_all add: answer_def)
  then have "version_bin m (answer m cs q ! j) = version_bin m (answer m cs q ! i)"
    "od_name (cmd_odsc (answer m cs q ! j)) = od_name (cmd_odsc (answer m cs q ! i))"
    by (simp_all add: obj_desc_equals_intersect_def version_bin_def)
  then show ?thesis using n by (simp add: supersedes_def obj_desc_by_name_intersect_def)
qed

end
