(* ===== verification/DS_Rdma.thy ===== *)
theory DS_Rdma
  imports DS_Matrix "HOL-Library.Monad_Syntax"
begin

text \<open>
  Remote reads over InfiniBand (src/dart/ib/dart_rdma_ib.c): a read transaction is a list of reads from the
  memory of a peer; \<open>dart_rdma_check_reads\<close> posts them and waits for their completion.
  \<^item> memory is a set of blocks, a pointer is a block and an offset; malloc gives a new block;
  \<^item> \<open>drh_net\<close> is the memory of the peers, which the adapter reads; a read writes its bytes before its
    completion is reported;
  \<^item> the k-th poll of the completion queue, when \<open>posted\<close> is outstanding, reports \<open>drh_cq k posted\<close>: the reads
    that completed, in any order, and the return value of \<open>dart_rdma_process_ibv_cq\<close>; a poll without an
    event reports nothing and 0;
  \<^item> the other calls that can fail (malloc, the verbs) have the outcomes \<open>drh_rc\<close>, as in \<open>DS_Server\<close>;
  \<^item> \<open>None\<close> is waiting forever.
\<close>

subsection \<open>State\<close>

type_synonym ptr = "nat \<times> u64"

definition ptr_add :: "ptr \<Rightarrow> u64 \<Rightarrow> ptr" where
  "ptr_add p off = (fst p, snd p + off)"

datatype dart_memory_type = dart_memory_non_rdma | dart_memory_rdma

record dart_rdma_mem_handle =
  mh_mr :: ptr
  base_addr :: ptr
  mh_size :: u64
  mem_type :: dart_memory_type

record dart_rdma_op =
  op_addr :: nat
  src_offset :: u64
  dst_offset :: u64
  op_bytes :: u64

record dart_rdma_tran =
  tran_id :: int
  remote_peer :: int
  tr_src :: dart_rdma_mem_handle
  tr_dst :: dart_rdma_mem_handle
  read_ops_list :: "dart_rdma_op list"

type_synonym memory = "nat \<Rightarrow> nat \<Rightarrow> byte"

record dart_rdma_handle =
  drh_init :: bool
  drh_self :: int
  drh_num_buf :: int
  read_tran_list :: "dart_rdma_tran list"
  drh_next_id :: int
  rdma_error_flag :: bool
  drh_mem :: memory
  drh_net :: "int \<Rightarrow> memory"
  drh_brk :: nat
  drh_rc :: "nat \<Rightarrow> int"
  drh_calls :: nat
  drh_cq :: "nat \<Rightarrow> dart_rdma_op list \<Rightarrow> dart_rdma_op list \<times> int"
  drh_polls :: nat
  drh_garbage :: "nat \<Rightarrow> dart_rdma_mem_handle"

definition rdma_attempt :: "dart_rdma_handle \<Rightarrow> int \<times> dart_rdma_handle" where
  "rdma_attempt d = (drh_rc d (drh_calls d), d\<lparr>drh_calls := drh_calls d + 1\<rparr>)"

definition new_block :: "dart_rdma_handle \<Rightarrow> nat \<times> dart_rdma_handle" where
  "new_block d = (drh_brk d, d\<lparr>drh_brk := drh_brk d + 1\<rparr>)"

text \<open>\<open>memcpy\<close> between blocks; the source is read from \<open>from_mem\<close>.\<close>

definition mem_copy :: "ptr \<Rightarrow> memory \<Rightarrow> ptr \<Rightarrow> u64 \<Rightarrow> memory \<Rightarrow> memory" where
  "mem_copy d from_mem p n m = m(fst d := memcpy (m (fst d)) (unat (snd d)) (from_mem (fst p)) (unat (snd p)) (unat n))"

text \<open>The global \<open>drh\<close> is set up once.\<close>

definition dart_rdma_init :: "int \<Rightarrow> dart_rdma_handle \<Rightarrow> (int \<times> dart_rdma_handle) option" where
  "dart_rdma_init self d =
     (if drh_init d then Some (0, d)
      else let (rc, d) = rdma_attempt d
           in if rc \<noteq> 0 then None else Some (0, d\<lparr>drh_init := True, drh_self := self, read_tran_list := []\<rparr>))"

subsection \<open>Memory regions\<close>

definition dart_rdma_register_mem ::
  "dart_rdma_mem_handle \<Rightarrow> ptr \<Rightarrow> u64 \<Rightarrow> dart_rdma_handle \<Rightarrow> int \<times> dart_rdma_mem_handle \<times> dart_rdma_handle" where
  "dart_rdma_register_mem h p n d =
     (if \<not> drh_init d then (- 1, h, d)
      else let (rc, d) = rdma_attempt d
           in if rc \<noteq> 0 then (- 12, h, d) else (0, h\<lparr>mh_mr := p, mh_size := n, base_addr := p\<rparr>, d))"

definition dart_rdma_deregister_mem :: "dart_rdma_handle \<Rightarrow> int \<times> dart_rdma_handle" where
  "dart_rdma_deregister_mem d = rdma_attempt d"

subsection \<open>Transactions\<close>

definition dart_rdma_find_read_tran :: "int \<Rightarrow> dart_rdma_handle \<Rightarrow> dart_rdma_tran option" where
  "dart_rdma_find_read_tran i d = find (\<lambda>t. tran_id t = i) (read_tran_list d)"

text \<open>Assignment through the pointer to a transaction.\<close>

definition update_tran :: "int \<Rightarrow> (dart_rdma_tran \<Rightarrow> dart_rdma_tran) \<Rightarrow> dart_rdma_handle \<Rightarrow> dart_rdma_handle" where
  "update_tran i f d = d\<lparr>read_tran_list := map (\<lambda>t. if tran_id t = i then f t else t) (read_tran_list d)\<rparr>"

text \<open>The memory handles of a new transaction are uninitialised. The result is the id of the transaction.\<close>

definition dart_rdma_create_read_tran :: "int \<Rightarrow> dart_rdma_handle \<Rightarrow> int \<times> int \<times> dart_rdma_handle" where
  "dart_rdma_create_read_tran peer d =
     (let (rc, d) = rdma_attempt d
      in if rc \<noteq> 0 then (- 1, 0, d)
         else (0, drh_next_id d,
               d\<lparr>drh_next_id := drh_next_id d + 1,
                 read_tran_list := \<lparr>tran_id = drh_next_id d, remote_peer = peer, tr_src = drh_garbage d 0,
                   tr_dst = drh_garbage d 1, read_ops_list = []\<rparr> # read_tran_list d\<rparr>))"

definition dart_rdma_delete_read_tran :: "int \<Rightarrow> dart_rdma_handle \<Rightarrow> int \<times> dart_rdma_handle" where
  "dart_rdma_delete_read_tran i d =
     (case dart_rdma_find_read_tran i d of
        None \<Rightarrow> (- 1, d)
      | Some t \<Rightarrow> if read_ops_list t \<noteq> [] then (- 1, d)
                  else (0, d\<lparr>read_tran_list := filter (\<lambda>t. tran_id t \<noteq> i) (read_tran_list d)\<rparr>))"

definition dart_rdma_schedule_read :: "int \<Rightarrow> u64 \<Rightarrow> u64 \<Rightarrow> u64 \<Rightarrow> dart_rdma_handle \<Rightarrow> int \<times> dart_rdma_handle" where
  "dart_rdma_schedule_read i so dof n d =
     (if \<not> drh_init d then (- 1, d)
      else case dart_rdma_find_read_tran i d of
        None \<Rightarrow> (- 1, d)
      | Some t \<Rightarrow>
          let (rc, d) = rdma_attempt d
          in if rc \<noteq> 0 then (- 1, d)
             else let (a, d) = new_block d
                  in (0, update_tran i (\<lambda>t. t\<lparr>read_ops_list :=
                       \<lparr>op_addr = a, src_offset = so, dst_offset = dof, op_bytes = n\<rparr> # read_ops_list t\<rparr>) d))"

subsection \<open>Performing reads\<close>

definition local_op :: "dart_rdma_tran \<Rightarrow> dart_rdma_op \<Rightarrow> memory \<Rightarrow> memory" where
  "local_op t r m = mem_copy (ptr_add (base_addr (tr_dst t)) (dst_offset r)) m (ptr_add (base_addr (tr_src t)) (src_offset r)) (op_bytes r) m"

definition dart_perform_local_copy :: "dart_rdma_tran \<Rightarrow> dart_rdma_handle \<Rightarrow> dart_rdma_handle" where
  "dart_perform_local_copy t d =
     update_tran (tran_id t) (\<lambda>t. t\<lparr>read_ops_list := []\<rparr>) (d\<lparr>drh_mem := fold (local_op t) (read_ops_list t) (drh_mem d)\<rparr>)"

definition dart_rdma_perform_reads :: "int \<Rightarrow> dart_rdma_handle \<Rightarrow> int \<times> dart_rdma_handle" where
  "dart_rdma_perform_reads i d =
     (if \<not> drh_init d then (- 1, d)
      else case dart_rdma_find_read_tran i d of
        None \<Rightarrow> (- 1, d)
      | Some t \<Rightarrow> (0, if drh_self d = remote_peer t then dart_perform_local_copy t d else d))"

text \<open>The adapter reads with the addresses of the registered regions.\<close>

definition remote_op :: "(int \<Rightarrow> memory) \<Rightarrow> dart_rdma_tran \<Rightarrow> dart_rdma_op \<Rightarrow> memory \<Rightarrow> memory" where
  "remote_op net t r m = mem_copy (ptr_add (mh_mr (tr_dst t)) (dst_offset r)) (net (remote_peer t))
     (ptr_add (mh_mr (tr_src t)) (src_offset r)) (op_bytes r) m"

text \<open>\<open>avail_rdma_credit\<close>, the posted reads, the list of reads that are not complete, and the handle.\<close>

type_synonym cq_state = "int \<times> dart_rdma_op list \<times> dart_rdma_op list \<times> dart_rdma_handle"

definition dart_rdma_process_ibv_cq :: "dart_rdma_tran \<Rightarrow> cq_state \<Rightarrow> int \<times> cq_state" where
  "dart_rdma_process_ibv_cq t st =
     (case st of (credit, posted, ops, d) \<Rightarrow>
        let (done', err) = drh_cq d (drh_polls d) posted;
            compl = filter (\<lambda>r. r \<in> set posted) (remdups done')
        in (err, (credit + int (length compl), filter (\<lambda>r. r \<notin> set compl) posted, filter (\<lambda>r. r \<notin> set compl) ops,
                  d\<lparr>drh_polls := drh_polls d + 1, drh_mem := fold (remote_op (drh_net d) t) compl (drh_mem d)\<rparr>)))"

partial_function (option) wait_credit :: "dart_rdma_tran \<Rightarrow> cq_state \<Rightarrow> (int \<times> cq_state) option" where
  "wait_credit t st =
     (if fst st \<le> 0
      then let r = dart_rdma_process_ibv_cq t st in if fst r < 0 then Some r else wait_credit t (snd r)
      else Some (0, st))"

partial_function (option) wait_all :: "dart_rdma_tran \<Rightarrow> cq_state \<Rightarrow> (int \<times> cq_state) option" where
  "wait_all t st =
     (if fst (snd (snd st)) \<noteq> []
      then let r = dart_rdma_process_ibv_cq t st in if fst r < 0 then Some r else wait_all t (snd r)
      else Some (0, st))"

text \<open>
  \<open>dart_rdma_get\<close> tests the result of \<open>ibv_post_send\<close> with \<open>err < 0\<close>, but a failing call returns a positive
  number: the read is then not posted, and nothing notices.
\<close>

definition dart_rdma_get :: "dart_rdma_op \<Rightarrow> cq_state \<Rightarrow> int \<times> cq_state" where
  "dart_rdma_get r st =
     (case st of (credit, posted, ops, d) \<Rightarrow>
        let (err, d) = rdma_attempt d
        in if err < 0 then (err, (credit, posted, ops, d))
           else (0, (credit, if err = 0 then posted @ [r] else posted, ops, d)))"

fun post_reads :: "dart_rdma_tran \<Rightarrow> dart_rdma_op list \<Rightarrow> cq_state \<Rightarrow> (int \<times> cq_state) option" where
  "post_reads t [] st = Some (0, st)"
| "post_reads t (r # rs) st = do {
     (err, st) \<leftarrow> wait_credit t st;
     if err < 0 then Some (err, st)
     else let (err, st) = dart_rdma_get r st
          in if err < 0 then Some (err, st)
             else post_reads t rs (fst st - 1, snd st)
   }"

text \<open>The result is \<open>done\<close>.\<close>

definition dart_rdma_check_reads :: "int \<Rightarrow> dart_rdma_handle \<Rightarrow> (bool \<times> dart_rdma_handle) option" where
  "dart_rdma_check_reads i d =
     (if \<not> drh_init d then Some (False, d)
      else case dart_rdma_find_read_tran i d of
        None \<Rightarrow> Some (False, d)
      | Some t \<Rightarrow> do {
          (err, st) \<leftarrow> post_reads t (read_ops_list t) (drh_num_buf d, [], read_ops_list t, d);
          (err, st) \<leftarrow> if err < 0 then Some (err, st) else wait_all t st;
          let d = update_tran i (\<lambda>t. t\<lparr>read_ops_list := fst (snd (snd st))\<rparr>) (snd (snd (snd st)));
          Some (err \<ge> 0, if err < 0 then d\<lparr>rdma_error_flag := True\<rparr> else d)
        })"

definition dart_rdma_process_reads :: "dart_rdma_handle \<Rightarrow> int \<times> dart_rdma_handle" where
  "dart_rdma_process_reads d =
     (if rdma_error_flag d then (- 1, d\<lparr>rdma_error_flag := False\<rparr>) else (0, d))"

subsection \<open>Completion\<close>

text \<open>
  What is assumed of a working adapter: no poll fails, and outstanding reads complete after finitely
  many polls, in any order.
\<close>

definition cq_ok :: "dart_rdma_handle \<Rightarrow> bool" where
  "cq_ok d \<longleftrightarrow> (\<forall>k P. 0 \<le> snd (drh_cq d k P)) \<and>
     (\<forall>k. \<exists>j\<ge>k. \<forall>P. P \<noteq> [] \<longrightarrow> set (fst (drh_cq d j P)) \<inter> set P \<noteq> {})"

text \<open>\<open>R\<close> are the reads that have completed, in order.\<close>

definition cq_inv :: "dart_rdma_tran \<Rightarrow> dart_rdma_op list \<Rightarrow> dart_rdma_handle \<Rightarrow> cq_state \<Rightarrow> dart_rdma_op list \<Rightarrow> bool" where
  "cq_inv t ops0 d0 st R \<longleftrightarrow>
     (case st of (credit, posted, ops, d) \<Rightarrow>
        distinct posted \<and> distinct R \<and> set posted \<inter> set R = {} \<and> set posted \<union> set R \<subseteq> set ops0 \<and>
        ops = filter (\<lambda>r. r \<notin> set R) ops0 \<and> credit + int (length posted) = drh_num_buf d0 \<and>
        (\<exists>k c. d = d0\<lparr>drh_calls := c, drh_polls := k, drh_mem := fold (remote_op (drh_net d0) t) R (drh_mem d0)\<rparr>))"

abbreviation cq_posted :: "cq_state \<Rightarrow> dart_rdma_op list" where
  "cq_posted st \<equiv> fst (snd st)"

abbreviation cq_polls :: "cq_state \<Rightarrow> nat" where
  "cq_polls st \<equiv> drh_polls (snd (snd (snd st)))"

lemma poll_inv:
  assumes "cq_ok d0" "cq_inv t ops0 d0 st R" "dart_rdma_process_ibv_cq t st = (err, st')"
  obtains R' where "0 \<le> err" "cq_inv t ops0 d0 st' R'" "cq_polls st' = Suc (cq_polls st)"
    "set (cq_posted st') \<union> set R' = set (cq_posted st) \<union> set R" "length (cq_posted st') \<le> length (cq_posted st)"
    "set (fst (drh_cq d0 (cq_polls st) (cq_posted st))) \<inter> set (cq_posted st) \<noteq> {} \<longrightarrow> length (cq_posted st') < length (cq_posted st)"
proof -
  obtain credit posted ops d where st: "st = (credit, posted, ops, d)" by (cases st)
  have I: "distinct posted" "distinct R" "set posted \<inter> set R = {}" "set posted \<union> set R \<subseteq> set ops0"
    "ops = filter (\<lambda>r. r \<notin> set R) ops0" "credit + int (length posted) = drh_num_buf d0"
    using assms(2) by (simp_all add: st cq_inv_def)
  obtain k c where d: "d = d0\<lparr>drh_calls := c, drh_polls := k, drh_mem := fold (remote_op (drh_net d0) t) R (drh_mem d0)\<rparr>"
    using assms(2) by (auto simp: st cq_inv_def)
  obtain dn where cq: "drh_cq d0 k posted = (dn, err)"
    using assms(3) by (cases "drh_cq d0 k posted") (auto simp: st d dart_rdma_process_ibv_cq_def Let_def)
  define cs where "cs = filter (\<lambda>r. r \<in> set posted) (remdups dn)"
  have st': "st' = (credit + int (length cs), filter (\<lambda>r. r \<notin> set cs) posted, filter (\<lambda>r. r \<notin> set cs) ops,
      d0\<lparr>drh_calls := c, drh_polls := k + 1, drh_mem := fold (remote_op (drh_net d0) t) (R @ cs) (drh_mem d0)\<rparr>)"
    using assms(3) cq by (simp add: st d dart_rdma_process_ibv_cq_def Let_def cs_def)
  have cs: "distinct cs" "set cs \<subseteq> set posted" by (auto simp: cs_def)
  have "set (filter (\<lambda>r. r \<in> set cs) posted) = set cs" using cs(2) by auto
  then have "length (filter (\<lambda>r. r \<in> set cs) posted) = length cs"
    using distinct_card [OF distinct_filter [OF I(1)]] distinct_card [OF cs(1)] by metis
  then have len: "length cs + length (filter (\<lambda>r. r \<notin> set cs) posted) = length posted"
    using sum_length_filter_compl [of "\<lambda>r. r \<in> set cs" posted] by simp
  show ?thesis
  proof (rule that [of "R @ cs"])
    show "0 \<le> err" using assms(1) cq unfolding cq_ok_def by (metis snd_conv)
    show "cq_inv t ops0 d0 st' (R @ cs)"
      using I cs len unfolding st' cq_inv_def by auto
    show "set (fst (drh_cq d0 (cq_polls st) (cq_posted st))) \<inter> set (cq_posted st) \<noteq> {} \<longrightarrow> length (cq_posted st') < length (cq_posted st)"
    proof
      assume "set (fst (drh_cq d0 (cq_polls st) (cq_posted st))) \<inter> set (cq_posted st) \<noteq> {}"
      then have "cs \<noteq> []" using cq by (auto simp: st d cs_def filter_empty_conv)
      then show "length (cq_posted st') < length (cq_posted st)" using len by (simp add: st st') (metis less_add_same_cancel2 length_greater_0_conv)
    qed
    show "length (cq_posted st') \<le> length (cq_posted st)" using len by (simp add: st st')
  qed (use cs in \<open>auto simp: st st' d\<close>)
qed

text \<open>A loop that polls while \<open>C\<close> holds ends if reads are outstanding as long as it does.\<close>

lemma poll_until:
  assumes ok: "cq_ok d0"
    and L: "\<And>st. L st = (if C st then let r = dart_rdma_process_ibv_cq t st in if fst r < 0 then Some r else L (snd r) else Some (0, st))"
    and C: "\<And>st R. cq_inv t ops0 d0 st R \<Longrightarrow> C st \<Longrightarrow> set (cq_posted st) \<union> set R = P \<Longrightarrow> cq_posted st \<noteq> []"
    and start: "cq_inv t ops0 d0 st R" "set (cq_posted st) \<union> set R = P"
  shows "\<exists>st' R'. L st = Some (0, st') \<and> cq_inv t ops0 d0 st' R' \<and> \<not> C st' \<and> set (cq_posted st') \<union> set R' = P"
  using start
proof (induction "length (cq_posted st)" arbitrary: st R rule: less_induct)
  case less
  define N where "N = length (cq_posted st)"
  have IH: "\<exists>st' R'. L s = Some (0, st') \<and> cq_inv t ops0 d0 st' R' \<and> \<not> C st' \<and> set (cq_posted st') \<union> set R' = P"
    if "length (cq_posted s) < N" "cq_inv t ops0 d0 s Q" "set (cq_posted s) \<union> set Q = P" for s Q
    using less.hyps [OF that(1) [unfolded N_def] that(2,3)] .
  obtain j where j: "cq_polls st \<le> j" "\<forall>P. P \<noteq> [] \<longrightarrow> set (fst (drh_cq d0 j P)) \<inter> set P \<noteq> {}"
    using ok unfolding cq_ok_def by blast
  have "\<exists>st' R'. L s = Some (0, st') \<and> cq_inv t ops0 d0 st' R' \<and> \<not> C st' \<and> set (cq_posted st') \<union> set R' = P"
    if "cq_inv t ops0 d0 s Q" "set (cq_posted s) \<union> set Q = P" "length (cq_posted s) \<le> N" "cq_polls s \<le> j" for s Q
    using that
  proof (induction "j - cq_polls s" arbitrary: s Q rule: less_induct)
    case (less s Q)
    show ?case
    proof (cases "C s")
      case False
      then show ?thesis using L [of s] less.prems by auto
    next
      case True
      obtain err s' where r: "dart_rdma_process_ibv_cq t s = (err, s')" by (cases "dart_rdma_process_ibv_cq t s")
      obtain Q' where Q': "0 \<le> err" "cq_inv t ops0 d0 s' Q'" "cq_polls s' = Suc (cq_polls s)"
        "set (cq_posted s') \<union> set Q' = set (cq_posted s) \<union> set Q" "length (cq_posted s') \<le> length (cq_posted s)"
        "set (fst (drh_cq d0 (cq_polls s) (cq_posted s))) \<inter> set (cq_posted s) \<noteq> {} \<longrightarrow> length (cq_posted s') < length (cq_posted s)"
        by (rule poll_inv [OF ok less.prems(1) r])
      have e: "L s = L s'" using L [of s] True r Q'(1) by simp
      have ne: "cq_posted s \<noteq> []" by (rule C [OF less.prems(1) True less.prems(2)])
      show ?thesis
      proof (cases "cq_polls s = j")
        case True
        then have "length (cq_posted s') < N" using Q'(6) j(2) ne less.prems(3) by auto
        from IH [OF this Q'(2)] show ?thesis using e Q'(4) less.prems(2) by simp
      next
        case False
        then have "j - cq_polls s' < j - cq_polls s" "cq_polls s' \<le> j" using Q'(3) less.prems(4) by auto
        from less.hyps [OF this(1) Q'(2) _ _ this(2)] show ?thesis using e Q'(4,5) less.prems(2,3) by simp
      qed
    qed
  qed
  from this [OF less.prems _ j(1)] show ?case by (simp add: N_def)
qed

lemma wait_credit_ok:
  assumes "cq_ok d0" "0 < drh_num_buf d0" "cq_inv t ops0 d0 st R"
  shows "\<exists>st' R'. wait_credit t st = Some (0, st') \<and> cq_inv t ops0 d0 st' R' \<and> \<not> fst st' \<le> 0 \<and>
    set (cq_posted st') \<union> set R' = set (cq_posted st) \<union> set R"
proof (rule poll_until [OF assms(1) _ _ assms(3) refl])
  show "wait_credit t st = (if fst st \<le> 0 then let r = dart_rdma_process_ibv_cq t st in if fst r < 0 then Some r else wait_credit t (snd r)
    else Some (0, st))" for st by (rule wait_credit.simps)
  fix st R assume "cq_inv t ops0 d0 st R" "fst st \<le> 0"
  then show "cq_posted st \<noteq> []" using assms(2) by (auto simp: cq_inv_def)
qed

lemma wait_all_ok:
  assumes "cq_ok d0" "cq_inv t ops0 d0 st R" "set (cq_posted st) \<union> set R = set ops0"
  shows "\<exists>st' R'. wait_all t st = Some (0, st') \<and> cq_inv t ops0 d0 st' R' \<and> \<not> fst (snd (snd st')) \<noteq> [] \<and>
    set (cq_posted st') \<union> set R' = set ops0"
proof (rule poll_until [OF assms(1) _ _ assms(2,3)])
  show "wait_all t st = (if fst (snd (snd st)) \<noteq> [] then let r = dart_rdma_process_ibv_cq t st in
    if fst r < 0 then Some r else wait_all t (snd r) else Some (0, st))" for st by (rule wait_all.simps)
  fix st R assume "cq_inv t ops0 d0 st R" "fst (snd (snd st)) \<noteq> []" "set (cq_posted st) \<union> set R = set ops0"
  then show "cq_posted st \<noteq> []" by (auto simp: cq_inv_def filter_empty_conv)
qed

lemma post_reads_ok:
  assumes "cq_ok d0" "0 < drh_num_buf d0" "\<forall>k. drh_rc d0 k = 0" "distinct ops0"
    "cq_inv t ops0 d0 st R" "ops0 = done' @ rs" "set (cq_posted st) \<union> set R = set done'"
  shows "\<exists>st' R'. post_reads t rs st = Some (0, st') \<and> cq_inv t ops0 d0 st' R' \<and> set (cq_posted st') \<union> set R' = set ops0"
  using assms(5-7)
proof (induction rs arbitrary: st R done')
  case Nil
  then show ?case by auto
next
  case (Cons r rs)
  obtain st1 R1 where s1: "wait_credit t st = Some (0, st1)" "cq_inv t ops0 d0 st1 R1" "\<not> fst st1 \<le> 0"
    "set (cq_posted st1) \<union> set R1 = set done'"
    using wait_credit_ok [OF assms(1,2) Cons.prems(1)] Cons.prems(3) by auto
  obtain credit posted ops d where st1: "st1 = (credit, posted, ops, d)" by (cases st1)
  let ?st2 = "(credit - 1, posted @ [r], ops, d\<lparr>drh_calls := drh_calls d + 1\<rparr>)"
  obtain k c where d: "d = d0\<lparr>drh_calls := c, drh_polls := k, drh_mem := fold (remote_op (drh_net d0) t) R1 (drh_mem d0)\<rparr>"
    using s1(2) by (auto simp: st1 cq_inv_def)
  have g: "dart_rdma_get r st1 = (0, (credit, posted @ [r], ops, d\<lparr>drh_calls := drh_calls d + 1\<rparr>))"
    using assms(3) by (simp add: st1 d dart_rdma_get_def rdma_attempt_def)
  have "r \<notin> set done'" "r \<in> set ops0" using assms(4) Cons.prems(2) by auto
  moreover have "\<exists>k c. d\<lparr>drh_calls := drh_calls d + 1\<rparr> = d0\<lparr>drh_calls := c, drh_polls := k, drh_mem := fold (remote_op (drh_net d0) t) R1 (drh_mem d0)\<rparr>"
    by (intro exI [of _ k] exI [of _ "c + 1"]) (simp add: d)
  ultimately have "cq_inv t ops0 d0 ?st2 R1" using s1(2,4) unfolding st1 cq_inv_def by auto
  moreover have "set (cq_posted ?st2) \<union> set R1 = set (done' @ [r])" using s1(4) by (auto simp: st1)
  ultimately have "\<exists>st' R'. post_reads t rs ?st2 = Some (0, st') \<and> cq_inv t ops0 d0 st' R' \<and> set (cq_posted st') \<union> set R' = set ops0"
    using Cons.IH [of ?st2 R1 "done' @ [r]"] Cons.prems(2) by simp
  then show ?case using s1(1) g by simp
qed

text \<open>All reads of the transaction complete, each once.\<close>

lemma check_reads_complete:
  assumes "cq_ok d" "0 < drh_num_buf d" "\<forall>k. drh_rc d k = 0" "drh_init d"
    "dart_rdma_find_read_tran i d = Some t" "distinct (read_ops_list t)"
  obtains R c k where "distinct R" "set R = set (read_ops_list t)"
    "dart_rdma_check_reads i d = Some (True, update_tran i (\<lambda>t. t\<lparr>read_ops_list := []\<rparr>)
       (d\<lparr>drh_calls := c, drh_polls := k, drh_mem := fold (remote_op (drh_net d) t) R (drh_mem d)\<rparr>))"
proof -
  let ?ops = "read_ops_list t"
  let ?st0 = "(drh_num_buf d, [], ?ops, d)"
  have "\<exists>k c. d = d\<lparr>drh_calls := c, drh_polls := k, drh_mem := drh_mem d\<rparr>" by (intro exI [of _ "drh_polls d"] exI [of _ "drh_calls d"]) simp
  then have i0: "cq_inv t ?ops d ?st0 []" by (simp add: cq_inv_def)
  have "\<exists>st1 R1. post_reads t ?ops ?st0 = Some (0, st1) \<and> cq_inv t ?ops d st1 R1 \<and> set (cq_posted st1) \<union> set R1 = set ?ops"
    by (rule post_reads_ok [OF assms(1-3,6) i0, of "[]"]) simp_all
  then obtain st1 R1 where s1: "post_reads t ?ops ?st0 = Some (0, st1)" "cq_inv t ?ops d st1 R1" "set (cq_posted st1) \<union> set R1 = set ?ops"
    by blast
  obtain st2 R2 where s2: "wait_all t st1 = Some (0, st2)" "cq_inv t ?ops d st2 R2" "fst (snd (snd st2)) = []"
    using wait_all_ok [OF assms(1) s1(2,3)] by auto
  obtain credit posted ops d2 where st2: "st2 = (credit, posted, ops, d2)" by (cases st2)
  have "set R2 = set ?ops" using s2(2,3) by (auto simp: st2 cq_inv_def filter_empty_conv)
  moreover have "distinct R2" using s2(2) by (simp add: st2 cq_inv_def)
  moreover obtain k c where "d2 = d\<lparr>drh_calls := c, drh_polls := k, drh_mem := fold (remote_op (drh_net d) t) R2 (drh_mem d)\<rparr>"
    using s2(2) by (auto simp: st2 cq_inv_def)
  ultimately show ?thesis
    using that [where R = R2 and c = c and k = k] s1(1) s2(1,3) assms(4,5) by (simp add: dart_rdma_check_reads_def st2)
qed

subsection \<open>What a set of reads copies\<close>

definition op_covers :: "dart_rdma_op \<Rightarrow> nat \<Rightarrow> bool" where
  "op_covers r p \<longleftrightarrow> unat (dst_offset r) \<le> p \<and> p < unat (dst_offset r) + unat (op_bytes r)"

definition op_source :: "dart_rdma_op \<Rightarrow> nat \<Rightarrow> nat" where
  "op_source r p = unat (src_offset r) + (p - unat (dst_offset r))"

text \<open>The reads in \<open>S\<close> move the elements \<open>ib x\<close> of the source to \<open>ia x\<close>, for \<open>x\<close> in \<open>V\<close>, and nothing else.\<close>

definition reads_exact :: "nat \<Rightarrow> 'x set \<Rightarrow> ('x \<Rightarrow> nat) \<Rightarrow> ('x \<Rightarrow> nat) \<Rightarrow> dart_rdma_op set \<Rightarrow> bool" where
  "reads_exact se V ia ib S \<longleftrightarrow>
     (\<forall>r\<in>S. \<forall>p. op_covers r p \<longrightarrow> (\<exists>x\<in>V. \<exists>t < se. p = se * ia x + t \<and> op_source r p = se * ib x + t)) \<and>
     (\<forall>x\<in>V. \<forall>t < se. \<exists>r\<in>S. op_covers r (se * ia x + t))"

lemma reads_exactD:
  assumes "reads_exact se V ia ib S"
  shows "r \<in> S \<Longrightarrow> op_covers r p \<Longrightarrow> \<exists>x\<in>V. \<exists>t < se. p = se * ia x + t \<and> op_source r p = se * ib x + t"
    "x \<in> V \<Longrightarrow> t < se \<Longrightarrow> \<exists>r\<in>S. op_covers r (se * ia x + t)"
  using assms unfolding reads_exact_def by simp_all

lemma reads_exact_empty: "reads_exact se {} ia ib {}"
  by (simp add: reads_exact_def)

lemma reads_exact_Un: "reads_exact se V ia ib S \<Longrightarrow> reads_exact se W ia ib T \<Longrightarrow> reads_exact se (V \<union> W) ia ib (S \<union> T)"
  unfolding reads_exact_def by blast

lemma reads_exact_reindex:
  assumes "reads_exact se V ia ib S" "\<And>x. x \<in> W \<Longrightarrow> g x \<in> V \<and> ia (g x) = ja x \<and> ib (g x) = jb x"
    and "\<And>y. y \<in> V \<Longrightarrow> \<exists>x\<in>W. ja x = ia y \<and> jb x = ib y"
  shows "reads_exact se W ja jb S"
  using assms unfolding reads_exact_def by metis

definition op_apply :: "(nat \<Rightarrow> byte) \<Rightarrow> dart_rdma_op \<Rightarrow> (nat \<Rightarrow> byte) \<Rightarrow> (nat \<Rightarrow> byte)" where
  "op_apply B r A = memcpy A (unat (dst_offset r)) B (unat (src_offset r)) (unat (op_bytes r))"

lemma op_apply_byte: "op_apply B r A p = (if op_covers r p then B (op_source r p) else A p)"
  by (simp add: op_apply_def memcpy_def op_covers_def op_source_def)

lemma ops_apply_byte:
  assumes "\<forall>r\<in>set R. op_covers r p \<longrightarrow> B (op_source r p) = v"
  shows "fold (op_apply B) R A p = (if \<exists>r\<in>set R. op_covers r p then v else A p)"
  using assms by (induction R arbitrary: A) (auto simp: op_apply_byte)

text \<open>The order of the reads does not matter.\<close>

lemma reads_exact_copied:
  assumes "reads_exact se V ia ib (set R)" "\<And>x y. x \<in> V \<Longrightarrow> y \<in> V \<Longrightarrow> ia x = ia y \<Longrightarrow> ib x = ib y"
  shows "copied se V ia ib B A (fold (op_apply B) R A)"
  unfolding copied_def
proof (intro conjI ballI allI impI)
  fix x t assume x: "x \<in> V" "t < se"
  have v: "\<forall>r\<in>set R. op_covers r (se * ia x + t) \<longrightarrow> B (op_source r (se * ia x + t)) = B (se * ib x + t)"
  proof (intro ballI impI)
    fix r assume r: "r \<in> set R" "op_covers r (se * ia x + t)"
    obtain y u where y: "y \<in> V" "u < se" "se * ia x + t = se * ia y + u" "op_source r (se * ia x + t) = se * ib y + u"
      using reads_exactD(1) [OF assms(1) r] by blast
    have i: "ia x = ia y" by (rule elem_pos_inj [OF x(2) y(2,3)])
    then have "t = u" using y(3) by simp
    then show "B (op_source r (se * ia x + t)) = B (se * ib x + t)" using y(4) assms(2) [OF x(1) y(1) i] by simp
  qed
  have "\<exists>r\<in>set R. op_covers r (se * ia x + t)" by (rule reads_exactD(2) [OF assms(1) x])
  then show "fold (op_apply B) R A (se * ia x + t) = B (se * ib x + t)"
    unfolding ops_apply_byte [OF v] by (rule if_P)
next
  fix p assume "\<forall>x\<in>V. \<forall>t < se. p \<noteq> se * ia x + t"
  then have n: "\<forall>r\<in>set R. \<not> op_covers r p" using reads_exactD(1) [OF assms(1)] by blast
  then have v: "\<forall>r\<in>set R. op_covers r p \<longrightarrow> B (op_source r p) = 0" by blast
  show "fold (op_apply B) R A p = A p" unfolding ops_apply_byte [OF v] using n by (intro if_not_P) blast
qed

lemma fold_remote_op:
  assumes "mh_mr (tr_dst t) = (bd, 0)" "mh_mr (tr_src t) = (bs, 0)"
  shows "fold (remote_op net t) R m = m(bd := fold (op_apply (net (remote_peer t) bs)) R (m bd))"
  using assms by (induction R arbitrary: m) (simp_all add: remote_op_def mem_copy_def ptr_add_def op_apply_def)

lemma fold_local_op:
  assumes "base_addr (tr_dst t) = (bd, 0)" "base_addr (tr_src t) = (bs, 0)" "bd \<noteq> bs"
  shows "fold (local_op t) R m = m(bd := fold (op_apply (m bs)) R (m bd))"
  using assms by (induction R arbitrary: m) (simp_all add: local_op_def mem_copy_def ptr_add_def op_apply_def)

end
