(* ===== verification/DS_Fetch.thy ===== *)
theory DS_Fetch
  imports DS_Rdma
begin

text \<open>
  How a DIMES client plans the remote reads for a part of a query (\<open>matrix_init_d\<close> to
  \<open>calculate_offset_for_remote_data\<close> in src/src/dimes_client.c): row by row for a sub-array, in one piece when
  the rows of the part lie contiguously in the memory of the owner. Both plans move exactly the bytes of
  the cells of the part.
\<close>

subsection \<open>Planning\<close>

definition matrix_init_d :: "storage_type \<Rightarrow> bbox \<Rightarrow> bbox \<Rightarrow> u64 \<Rightarrow> matrix_desc" where
  "matrix_init_d st bb_glb bb_loc se =
     (let ndims = num_dims bb_glb in
      \<lparr>dist = (\<lambda>i. if i < ndims then bbox_dist bb_glb i else 0),
       m_num_dims = ndims, size_elem = se, mat_storage = st,
       mv_lb = (\<lambda>i. if i < ndims then lb bb_loc i - lb bb_glb i else 0),
       mv_ub = (\<lambda>i. if i < ndims then ub bb_loc i - lb bb_glb i else 0)\<rparr>)"

text \<open>\<open>for (a = la, b = lb; a <= ua; a++, b++)\<close> around calls whose errors leave the loops.\<close>

partial_function (option) for2_err ::
  "u64 \<Rightarrow> u64 \<Rightarrow> u64 \<Rightarrow> (u64 \<Rightarrow> u64 \<Rightarrow> 's \<Rightarrow> (int \<times> 's) option) \<Rightarrow> 's \<Rightarrow> (int \<times> 's) option" where
  "for2_err a b ua f s =
     (if a \<le> ua
      then do { (err, s) \<leftarrow> f a b s; if err < 0 then Some (err, s) else for2_err (a + 1) (b + 1) ua f s }
      else Some (0, s))"

fun rdma_copy_level ::
  "matrix_desc \<Rightarrow> matrix_desc \<Rightarrow> int \<Rightarrow> nat \<Rightarrow> u64 \<Rightarrow> u64 \<Rightarrow> dart_rdma_handle \<Rightarrow> (int \<times> dart_rdma_handle) option" where
  "rdma_copy_level a b i 0 aloc1 bloc1 d =
     (let n = mv_ub a 0 - mv_lb a 0 + 1;
          aloc = aloc1 + mv_lb a 0;
          bloc = bloc1 + mv_lb b 0
      in Some (dart_rdma_schedule_read i (bloc * size_elem a) (aloc * size_elem a) (n * size_elem a) d))"
| "rdma_copy_level a b i (Suc k) aloc' bloc' d =
     for2_err (mv_lb a (Suc k)) (mv_lb b (Suc k)) (mv_ub a (Suc k))
       (\<lambda>ak bk. rdma_copy_level a b i k ((aloc' + ak) * dist a k) ((bloc' + bk) * dist b k)) d"

definition matrix_rdma_copy :: "matrix_desc \<Rightarrow> matrix_desc \<Rightarrow> int \<Rightarrow> dart_rdma_handle \<Rightarrow> (int \<times> dart_rdma_handle) option" where
  "matrix_rdma_copy a b i d =
     (if 1 \<le> m_num_dims a \<and> m_num_dims a \<le> 9
      then rdma_copy_level a b i (m_num_dims a - 1) 0 0 d
      else for2_err (mv_lb a 9) (mv_lb b 9) (mv_ub a 9)
             (\<lambda>a9 b9. rdma_copy_level a b i 8 (a9 * dist a 8) (a9 * dist b 8)) d)"

definition schedule_rdma_reads ::
  "bbox \<Rightarrow> int \<Rightarrow> obj_descriptor \<Rightarrow> obj_descriptor \<Rightarrow> dart_rdma_handle \<Rightarrow> (int \<times> dart_rdma_handle) option" where
  "schedule_rdma_reads bbcom0 i src_odsc dst_odsc d =
     (if obj_desc_equals_no_owner src_odsc dst_odsc
      then let (err, d) = dart_rdma_schedule_read i 0 0 (obj_data_size dst_odsc) d in Some (if err < 0 then err else 0, d)
      else do {
        let bbcom = bbox_intersect (od_bb dst_odsc) (od_bb src_odsc) bbcom0;
        let from' = matrix_init_d (od_st src_odsc) (od_bb src_odsc) bbcom (od_size src_odsc);
        let to = matrix_init_d (od_st dst_odsc) (od_bb dst_odsc) bbcom (od_size dst_odsc);
        (err, d) \<leftarrow> matrix_rdma_copy to from' i d;
        Some (if err < 0 then err else 0, d)
      })"

definition is_remote_data_contiguous_in_memory :: "bbox \<Rightarrow> obj_descriptor \<Rightarrow> obj_descriptor \<Rightarrow> bool" where
  "is_remote_data_contiguous_in_memory bb0 src_odsc dst_odsc \<longleftrightarrow>
     num_dims (od_bb src_odsc) = num_dims (od_bb dst_odsc) \<and>
     (let bb = bbox_intersect (od_bb dst_odsc) (od_bb src_odsc) bb0;
          from' = matrix_init_d (od_st src_odsc) (od_bb src_odsc) bb (od_size src_odsc)
      in list_all (\<lambda>i. mv_ub from' i - mv_lb from' i + 1 = dist from' i) [0..<m_num_dims from' - 1])"

text \<open>Without dimensions the index of the last one is -1.\<close>

definition calculate_offset_for_remote_data :: "bbox \<Rightarrow> obj_descriptor \<Rightarrow> obj_descriptor \<Rightarrow> u64 option" where
  "calculate_offset_for_remote_data bb0 src_odsc dst_odsc =
     (let bb = bbox_intersect (od_bb dst_odsc) (od_bb src_odsc) bb0;
          from' = matrix_init_d (od_st src_odsc) (od_bb src_odsc) bb (od_size src_odsc);
          num_elem = fold (\<lambda>i n. n * dist from' i) [0..<m_num_dims from' - 1] 1
      in if m_num_dims from' = 0 then None
         else Some (num_elem * mv_lb from' (m_num_dims from' - 1) * size_elem from'))"

subsection \<open>Scheduled reads\<close>

lemma matrix_init_d_eq: "matrix_init_d = matrix_init"
  by (simp add: matrix_init_d_def matrix_init_def fun_eq_iff)

text \<open>A plan that succeeds only adds reads to its transaction.\<close>

definition scheduled :: "int \<Rightarrow> dart_rdma_op list \<Rightarrow> dart_rdma_handle \<Rightarrow> dart_rdma_handle \<Rightarrow> bool" where
  "scheduled i R d d' \<longleftrightarrow> distinct (map op_addr R) \<and> (\<forall>r\<in>set R. drh_brk d \<le> op_addr r \<and> op_addr r < drh_brk d + length R) \<and>
     (\<exists>c. d' = update_tran i (\<lambda>t. t\<lparr>read_ops_list := R @ read_ops_list t\<rparr>) (d\<lparr>drh_brk := drh_brk d + length R, drh_calls := c\<rparr>))"

lemma update_tran_id: "update_tran i (\<lambda>t. t) d = d"
  by (simp add: update_tran_def)

lemma scheduled_Nil: "scheduled i [] d d"
  unfolding scheduled_def
  by (auto intro!: exI [of _ "drh_calls d"] simp: update_tran_def)

lemma update_tran_twice:
  assumes "\<And>t. tran_id (f t) = tran_id t"
  shows "update_tran i g (update_tran i f d) = update_tran i (\<lambda>t. g (f t)) d"
  using assms by (auto simp: update_tran_def)

lemma update_tran_fields [simp]:
  "drh_brk (update_tran i f d) = drh_brk d" "drh_calls (update_tran i f d) = drh_calls d" "drh_init (update_tran i f d) = drh_init d"
  "drh_rc (update_tran i f d) = drh_rc d" "drh_mem (update_tran i f d) = drh_mem d" "drh_net (update_tran i f d) = drh_net d"
  "drh_self (update_tran i f d) = drh_self d" "drh_cq (update_tran i f d) = drh_cq d" "drh_polls (update_tran i f d) = drh_polls d"
  "drh_num_buf (update_tran i f d) = drh_num_buf d" "rdma_error_flag (update_tran i f d) = rdma_error_flag d"
  "drh_next_id (update_tran i f d) = drh_next_id d" "drh_garbage (update_tran i f d) = drh_garbage d"
  by (simp_all add: update_tran_def)

lemma scheduled_trans:
  assumes "scheduled i R d d1" "scheduled i Q d1 d2"
  shows "scheduled i (Q @ R) d d2"
proof -
  obtain c1 where d1: "d1 = update_tran i (\<lambda>t. t\<lparr>read_ops_list := R @ read_ops_list t\<rparr>) (d\<lparr>drh_brk := drh_brk d + length R, drh_calls := c1\<rparr>)"
    using assms(1) by (auto simp: scheduled_def)
  obtain c2 where d2: "d2 = update_tran i (\<lambda>t. t\<lparr>read_ops_list := Q @ read_ops_list t\<rparr>) (d1\<lparr>drh_brk := drh_brk d1 + length Q, drh_calls := c2\<rparr>)"
    using assms(2) by (auto simp: scheduled_def)
  have "d2 = update_tran i (\<lambda>t. t\<lparr>read_ops_list := (Q @ R) @ read_ops_list t\<rparr>) (d\<lparr>drh_brk := drh_brk d + length (Q @ R), drh_calls := c2\<rparr>)"
    unfolding d2 d1 by (simp add: update_tran_def)
  moreover have "distinct (map op_addr (Q @ R))" "\<forall>r\<in>set (Q @ R). drh_brk d \<le> op_addr r \<and> op_addr r < drh_brk d + length (Q @ R)"
    using assms d1 by (fastforce simp: scheduled_def)+
  ultimately show ?thesis unfolding scheduled_def by blast
qed

lemma find_update_tran:
  assumes "\<And>t. tran_id (f t) = tran_id t"
  shows "dart_rdma_find_read_tran j (update_tran i f d) =
    (if j = i then map_option f (dart_rdma_find_read_tran j d) else dart_rdma_find_read_tran j d)"
proof -
  have "find (\<lambda>t. tran_id t = j) (map (\<lambda>t. if tran_id t = i then f t else t) ts) =
      (if j = i then map_option f (find (\<lambda>t. tran_id t = j) ts) else find (\<lambda>t. tran_id t = j) ts)" for ts
    using assms by (induction ts) auto
  then show ?thesis by (simp add: dart_rdma_find_read_tran_def update_tran_def)
qed

lemma scheduled_find:
  assumes "scheduled i R d d'"
  shows "dart_rdma_find_read_tran i d' = map_option (\<lambda>t. t\<lparr>read_ops_list := R @ read_ops_list t\<rparr>) (dart_rdma_find_read_tran i d)"
  using assms by (auto simp: scheduled_def find_update_tran) (simp add: dart_rdma_find_read_tran_def)

lemma scheduled_fields:
  assumes "scheduled i R d d'"
  shows "drh_init d' = drh_init d" "drh_rc d' = drh_rc d" "drh_mem d' = drh_mem d" "drh_net d' = drh_net d" "drh_self d' = drh_self d"
    "drh_cq d' = drh_cq d" "drh_num_buf d' = drh_num_buf d" "drh_brk d' = drh_brk d + length R"
  using assms by (auto simp: scheduled_def)

lemma schedule_read_ok:
  assumes "drh_init d" "\<forall>k. drh_rc d k = 0" "dart_rdma_find_read_tran i d \<noteq> None"
  shows "\<exists>d' r. dart_rdma_schedule_read i so dof n d = (0, d') \<and> scheduled i [r] d d' \<and>
    src_offset r = so \<and> dst_offset r = dof \<and> op_bytes r = n"
proof -
  let ?r = "\<lparr>op_addr = drh_brk d, src_offset = so, dst_offset = dof, op_bytes = n\<rparr>"
  let ?d = "update_tran i (\<lambda>t. t\<lparr>read_ops_list := [?r] @ read_ops_list t\<rparr>) (d\<lparr>drh_brk := drh_brk d + length [?r], drh_calls := drh_calls d + 1\<rparr>)"
  have "dart_rdma_schedule_read i so dof n d = (0, ?d)"
    using assms by (auto simp: dart_rdma_schedule_read_def rdma_attempt_def new_block_def update_tran_def)
  moreover have "scheduled i [?r] d ?d" unfolding scheduled_def by auto
  ultimately show ?thesis by (intro exI [of _ ?d] exI [of _ ?r]) simp
qed

subsection \<open>The rows of a sub-array\<close>

lemma for2_err_inv:
  assumes "unat ua < 2 ^ 64 - 1" "I (unat la) s" "unat la \<le> Suc (unat ua)" "unat lb0 + (unat ua - unat la) < 2 ^ 64 - 1"
    and "\<And>i (b :: u64) s. la \<le> i \<Longrightarrow> i \<le> ua \<Longrightarrow> unat b = unat lb0 + (unat i - unat la) \<Longrightarrow> I (unat i) s \<Longrightarrow>
      \<exists>s'. f i b s = Some (0, s') \<and> I (Suc (unat i)) s'"
  shows "\<exists>s'. for2_err la lb0 ua f s = Some (0, s') \<and> I (Suc (unat ua)) s'"
  using assms(2-5)
proof (induction "Suc (unat ua) - unat la" arbitrary: la lb0 s)
  case 0
  then have "\<not> la \<le> ua" "unat la = Suc (unat ua)" by (auto simp: u64_le_nat)
  then show ?case using 0 by (subst for2_err.simps) simp
next
  case (Suc n)
  then have le: "la \<le> ua" by (simp add: u64_le_nat)
  then obtain s1 where s1: "f la lb0 s = Some (0, s1)" "I (Suc (unat la)) s1" using Suc.prems(1,4) by force
  have u: "unat (la + 1) = Suc (unat la)" using le assms(1) by (subst unat_add_u64) (auto simp: u64_le_nat)
  have v: "unat (lb0 + 1) = Suc (unat lb0)" using Suc.prems(3) by (subst unat_add_u64) auto
  have "\<exists>s'. for2_err (la + 1) (lb0 + 1) ua f s1 = Some (0, s') \<and> I (Suc (unat ua)) s'"
  proof (cases "la = ua")
    case True
    have "\<not> la + 1 \<le> ua" using u True by (simp add: u64_le_nat)
    then show ?thesis using s1(2) True by (subst for2_err.simps) simp
  next
    case False
    then have lt: "unat la < unat ua" using le by (simp add: u64_le_nat order_less_le word_unat_eq_iff)
    show ?thesis
    proof (rule Suc.hyps(1))
      show "n = Suc (unat ua) - unat (la + 1)" using Suc.hyps(2) u by simp
      show "I (unat (la + 1)) s1" using s1 u by simp
      show "unat (la + 1) \<le> Suc (unat ua)" using lt u by simp
      show "unat (lb0 + 1) + (unat ua - unat (la + 1)) < 2 ^ 64 - 1" using Suc.prems(3) u v lt by simp
      show "\<exists>s'. f i b s = Some (0, s') \<and> I (Suc (unat i)) s'"
        if "la + 1 \<le> i" "i \<le> ua" "unat b = unat (lb0 + 1) + (unat i - unat (la + 1))" "I (unat i) s" for i b s
        using Suc.prems(4) [of i b s] that u v by (simp add: u64_le_nat)
    qed
  qed
  then show ?case using le s1 by (subst for2_err.simps) simp
qed

lemma exact_row:
  assumes "mfits a b 0" "size_elem a = s" "0 < unat s"
    and "mroom a (unat s) 0 (unat al)" "mroom b (unat s) 0 (unat bl)"
    and r: "src_offset r = (bl + mv_lb b 0) * s" "dst_offset r = (al + mv_lb a 0) * s" "op_bytes r = (mv_ub a 0 - mv_lb a 0 + 1) * s"
  shows "reads_exact (unat s) (mview a 0) (mpos a 0 (unat al)) (\<lambda>x. mpos b 0 (unat bl) (mshift a b x)) {r}"
proof -
  let ?la = "unat (mv_lb a 0)" and ?ua = "unat (mv_ub a 0)" and ?lb = "unat (mv_lb b 0)" and ?se = "unat s"
  have f: "?la \<le> ?ua" using assms(1) by (auto simp: mfits_def)
  note w = row_words [OF assms(1,3,4,5)]
  have R: "unat (src_offset r) = (unat bl + ?lb) * ?se" "unat (dst_offset r) = (unat al + ?la) * ?se"
    "unat (op_bytes r) = ?se * (?ua - ?la + 1)"
    using w r by (simp_all add: mult.commute)
  have "\<exists>x\<in>mview a 0. \<exists>t < ?se. p = ?se * mpos a 0 (unat al) x + t \<and> op_source r p = ?se * mpos b 0 (unat bl) (mshift a b x) + t"
    if p: "op_covers r p" for p
  proof -
    define q where "q = p - (unat al + ?la) * ?se"
    have q: "p = (unat al + ?la) * ?se + q" "q < ?se * (?ua - ?la + 1)" using p unfolding op_covers_def R by (auto simp: q_def)
    let ?x = "\<lambda>_. ?la + q div ?se"
    note e = row_element [OF f assms(3) q(2)]
    have "op_source r p = (unat bl + ?lb) * ?se + q" by (simp add: op_source_def R q(1))
    also have "\<dots> = ?se * mpos b 0 (unat bl) (mshift a b ?x) + q mod ?se"
      by (simp add: mpos_def mshift_def algebra_simps)
    finally show ?thesis using e q(1) by metis
  qed
  moreover have "op_covers r (?se * mpos a 0 (unat al) x + t)" if x: "x \<in> mview a 0" "t < ?se" for x t
  proof -
    obtain j where j: "x 0 = ?la + j" "?se * j + t < ?se * (?ua - ?la + 1)" by (rule row_byte [OF x])
    then show ?thesis unfolding op_covers_def R by (simp add: mpos_def algebra_simps)
  qed
  ultimately show ?thesis by (simp add: reads_exact_def)
qed

lemma exact_slab:
  assumes i: "unat (mv_lb a (Suc k)) \<le> i" "i \<le> unat (mv_ub a (Suc k))"
    and j: "j = unat (mv_lb b (Suc k)) + (i - unat (mv_lb a (Suc k)))"
    and c: "reads_exact se (mview a k) (mpos a k ((al + i) * unat (dist a k)))
      (\<lambda>x. mpos b k ((bl + j) * unat (dist b k)) (mshift a b x)) S"
  shows "reads_exact se {x \<in> mview a (Suc k). x (Suc k) = i} (mpos a (Suc k) al)
    (\<lambda>x. mpos b (Suc k) bl (mshift a b x)) S"
    (is "reads_exact se ?W ?ia ?ib S")
proof (rule reads_exact_reindex [OF c, where g = "\<lambda>x. x"])
  have pa: "mpos a k ((al + i) * unat (dist a k)) x = ?ia (x(Suc k := i))" for x
    unfolding mpos_def using mindex_cong [of "Suc k" "x(Suc k := i)" x] by (simp add: algebra_simps)
  have pb: "mpos b k ((bl + j) * unat (dist b k)) (mshift a b x) = ?ib (x(Suc k := i))" for x
    unfolding mpos_def using mindex_cong [of "Suc k" "mshift a b (x(Suc k := i))" "mshift a b x"] j
    by (simp add: mshift_def algebra_simps)
  show "x \<in> mview a k \<and> mpos a k ((al + i) * unat (dist a k)) x = ?ia x \<and>
      mpos b k ((bl + j) * unat (dist b k)) (mshift a b x) = ?ib x" if x: "x \<in> ?W" for x
  proof -
    have "x(Suc k := i) = x" using x by (auto simp: fun_eq_iff)
    moreover have "x \<in> mview a k" using x unfolding mview_def by (blast intro: le_SucI)
    ultimately show ?thesis using pa [of x] pb [of x] by simp
  qed
  show "\<exists>x\<in>?W. ?ia x = mpos a k ((al + i) * unat (dist a k)) y \<and> ?ib x = mpos b k ((bl + j) * unat (dist b k)) (mshift a b y)"
    if y: "y \<in> mview a k" for y
  proof -
    have "unat (mv_lb a l) \<le> (y(Suc k := i)) l \<and> (y(Suc k := i)) l \<le> unat (mv_ub a l)" if "l \<le> Suc k" for l
      using y that i by (cases "l = Suc k") (simp_all add: mview_def)
    then have "y(Suc k := i) \<in> ?W" by (simp add: mview_def)
    then show ?thesis using pa [of y] pb [of y] by (intro bexI [of _ "y(Suc k := i)"]) simp_all
  qed
qed

lemma rdma_level_exact:
  assumes "mfits a b k" "size_elem a = s" "0 < unat s"
    and "mroom a (unat s) k (unat al)" "mroom b (unat s) k (unat bl)"
    and "drh_init d" "\<forall>k. drh_rc d k = 0" "dart_rdma_find_read_tran i d \<noteq> None"
  shows "\<exists>d' R. rdma_copy_level a b i k al bl d = Some (0, d') \<and> scheduled i R d d' \<and>
    reads_exact (unat s) (mview a k) (mpos a k (unat al)) (\<lambda>x. mpos b k (unat bl) (mshift a b x)) (set R)"
  using assms(1,4-8)
proof (induction k arbitrary: al bl d)
  case 0
  let ?so = "(bl + mv_lb b 0) * s" and ?do = "(al + mv_lb a 0) * s" and ?n = "(mv_ub a 0 - mv_lb a 0 + 1) * s"
  obtain d' r where r: "dart_rdma_schedule_read i ?so ?do ?n d = (0, d')" "scheduled i [r] d d'"
    "src_offset r = ?so" "dst_offset r = ?do" "op_bytes r = ?n"
    using schedule_read_ok [OF 0(4-6), of ?so ?do ?n] by blast
  have "reads_exact (unat s) (mview a 0) (mpos a 0 (unat al)) (\<lambda>x. mpos b 0 (unat bl) (mshift a b x)) (set [r])"
    using exact_row [OF 0(1) assms(2,3) 0(2,3) r(3-5)] by simp
  then show ?case using r(1,2) by (intro exI [of _ d'] exI [of _ "[r]"]) (simp add: Let_def assms(2))
next
  case (Suc k)
  let ?la = "unat (mv_lb a (Suc k))" and ?ua = "unat (mv_ub a (Suc k))" and ?lb = "unat (mv_lb b (Suc k))"
  let ?ia = "mpos a (Suc k) (unat al)" and ?ib = "\<lambda>x. mpos b (Suc k) (unat bl) (mshift a b x)"
  let ?V = "\<lambda>n. {x \<in> mview a (Suc k). x (Suc k) < n}"
  let ?I = "\<lambda>n d1. \<exists>R. scheduled i R d d1 \<and> reads_exact (unat s) (?V n) ?ia ?ib (set R)"
  note f = mfitsD [OF Suc.prems(1) order_refl]
  have posa: "\<forall>i\<le>k. 0 < unat (dist a i)" and posb: "\<forall>i\<le>k. 0 < unat (dist b i)"
    using mfitsD(4,5) [OF Suc.prems(1)] by auto
  have "\<exists>d'. for2_err (mv_lb a (Suc k)) (mv_lb b (Suc k)) (mv_ub a (Suc k))
      (\<lambda>ak bk. rdma_copy_level a b i k ((al + ak) * dist a k) ((bl + bk) * dist b k)) d = Some (0, d') \<and> ?I (Suc ?ua) d'"
  proof (rule for2_err_inv [where I = ?I])
    show "?ua < 2 ^ 64 - 1" using f(2) u64_less_max [of "dist a (Suc k)"] by simp
    show "?lb + (?ua - ?la) < 2 ^ 64 - 1" using f(3) u64_less_max [of "dist b (Suc k)"] by simp
    show "?la \<le> Suc ?ua" using f(1) by simp
    have "?V ?la = {}" by (auto simp: mview_def)
    then show "?I ?la d" using scheduled_Nil reads_exact_empty by (metis list.set(1))
    fix ix b' :: u64 and d1
    assume ix: "mv_lb a (Suc k) \<le> ix" "ix \<le> mv_ub a (Suc k)" and b': "unat b' = ?lb + (unat ix - ?la)" and "?I (unat ix) d1"
    then obtain R where R: "scheduled i R d d1" "reads_exact (unat s) (?V (unat ix)) ?ia ?ib (set R)" by blast
    have ia: "?la \<le> unat ix" "unat ix \<le> ?ua" using ix by (auto simp: u64_le_nat)
    then have "unat ix < unat (dist a (Suc k))" using f(2) by simp
    note Ra = mroom_step [OF Suc.prems(2) assms(3) posa this]
    have "unat b' < unat (dist b (Suc k))" using f(3) b' ia by simp
    note Rb = mroom_step [OF Suc.prems(3) assms(3) posb this]
    have d1: "drh_init d1" "\<forall>k. drh_rc d1 k = 0" "dart_rdma_find_read_tran i d1 \<noteq> None"
      using scheduled_fields [OF R(1)] scheduled_find [OF R(1)] Suc.prems(4-6) by simp_all
    obtain d2 Q where Q: "rdma_copy_level a b i k ((al + ix) * dist a k) ((bl + b') * dist b k) d1 = Some (0, d2)" "scheduled i Q d1 d2"
      "reads_exact (unat s) (mview a k) (mpos a k (unat ((al + ix) * dist a k)))
         (\<lambda>x. mpos b k (unat ((bl + b') * dist b k)) (mshift a b x)) (set Q)"
      using Suc.IH [OF mfits_Suc [OF Suc.prems(1)] Ra(2) Rb(2) d1] by blast
    let ?W = "{x \<in> mview a (Suc k). x (Suc k) = unat ix}"
    have "reads_exact (unat s) ?W ?ia ?ib (set Q)" by (rule exact_slab [OF ia b' Q(3) [unfolded Ra(1) Rb(1)]])
    then have C: "reads_exact (unat s) (?W \<union> ?V (unat ix)) ?ia ?ib (set (Q @ R))"
      unfolding set_append by (rule reads_exact_Un [OF _ R(2)])
    have U: "?W \<union> ?V (unat ix) = ?V (Suc (unat ix))" by (rule set_eqI) (auto simp: less_Suc_eq)
    show "\<exists>d'. rdma_copy_level a b i k ((al + ix) * dist a k) ((bl + b') * dist b k) d1 = Some (0, d') \<and> ?I (Suc (unat ix)) d'"
      by (intro exI [of _ d2] conjI exI [of _ "Q @ R"]) (rule Q(1), rule scheduled_trans [OF R(1) Q(2)], rule C [unfolded U])
  qed
  moreover have U: "?V (Suc ?ua) = mview a (Suc k)" by (rule set_eqI) (auto simp: mview_def less_Suc_eq_le)
  ultimately show ?case unfolding rdma_copy_level.simps U by blast
qed

subsection \<open>Cells\<close>

lemma mindex_surj:
  assumes "p < mweight d k"
  shows "\<exists>x. (\<forall>i<k. x i < d i) \<and> mindex d k x = p"
  using assms
proof (induction k arbitrary: p)
  case (Suc k)
  let ?w = "mweight d k"
  have w: "0 < ?w" "0 < d k" using Suc.prems by (auto intro: gr0I)
  then obtain x where x: "\<forall>i<k. x i < d i" "mindex d k x = p mod ?w" using Suc.IH [of "p mod ?w"] by auto
  have q: "p div ?w < d k" using Suc.prems by (simp add: less_mult_imp_div_less)
  have "mindex d (Suc k) (x(k := p div ?w)) = p"
    using mindex_cong [of k "x(k := p div ?w)" x d] x(2) mod_div_mult_eq [of p ?w] by simp
  moreover have "\<forall>i<Suc k. (x(k := p div ?w)) i < d i" using x(1) q by (simp add: less_Suc_eq)
  ultimately show ?case by blast
qed (simp add: exI)

lemma cell_index_surj:
  assumes "obj_fits bb se" "p < bbox_vol bb"
  obtains x where "in_bbox bb x" "cell_index bb x = p"
proof -
  let ?d = "\<lambda>i. unat (bbox_dist bb i)"
  obtain y where y: "\<forall>i<num_dims bb. y i < ?d i" "mindex ?d (num_dims bb) y = p"
    using mindex_surj [of p ?d "num_dims bb"] assms(2) obj_fits_weight [OF assms(1)] by auto
  let ?x = "\<lambda>i. lb bb i + of_nat (y i)"
  have u: "unat (?x i) = unat (lb bb i) + y i" "unat (lb bb i) + y i \<le> unat (ub bb i)" if "i < num_dims bb" for i
  proof -
    have "lb bb i \<le> ub bb i" using assms(1) that by (simp add: obj_fits_def bbox_wf_def)
    then show le: "unat (lb bb i) + y i \<le> unat (ub bb i)"
      using y(1) that obj_fits_dist [OF assms(1) that] by (fastforce simp: u64_le_nat)
    have "y i < 2 ^ 64" using le u64_less_max [of "ub bb i"] by simp
    then have "unat (of_nat (y i) :: u64) = y i" by (simp add: unat_of_nat)
    moreover have "unat (lb bb i) + y i < 2 ^ 64" using le u64_less_max [of "ub bb i"] by simp
    ultimately show "unat (?x i) = unat (lb bb i) + y i" by (subst unat_add_u64) simp_all
  qed
  have "in_bbox bb ?x" using u by (simp add: in_bbox_def u64_le_nat)
  moreover have "cell_index bb ?x = p"
    unfolding cell_index_def y(2) [symmetric] by (rule mindex_cong) (simp add: u)
  ultimately show ?thesis by (rule that)
qed

lemma obj_data_size_fits:
  assumes "obj_fits (od_bb odsc) (unat (od_size odsc))"
  shows "unat (obj_data_size odsc) = unat (od_size odsc) * bbox_vol (od_bb odsc)"
  using assms by (intro obj_data_size_no_overflow) (auto simp: obj_fits_def mult.commute word_gt_0 intro: gr0I)

lemma cell_index_equals: "bbox_equals f g \<Longrightarrow> cell_index f x = cell_index g x"
  unfolding cell_index_def bbox_equals_def
  by (auto simp: bbox_dist_def coord_dist_def intro!: trans [OF mindex_dist_cong mindex_cong])

text \<open>One read of whole rows, shifted by \<open>off\<close> cells.\<close>

lemma exact_piece:
  assumes g: "obj_fits g (unat s)"
    and r: "dst_offset r = 0" "unat (src_offset r) = unat s * off" "unat (op_bytes r) = unat s * bbox_vol g"
    and f: "\<And>x. in_bbox g x \<Longrightarrow> cell_index f x = cell_index g x + off"
  shows "reads_exact (unat s) {x. in_bbox g x} (cell_index g) (cell_index f) {r}"
proof -
  let ?se = "unat s"
  have se: "0 < ?se" using g by (simp add: obj_fits_def)
  have "\<exists>x\<in>{x. in_bbox g x}. \<exists>t < ?se. p = ?se * cell_index g x + t \<and> op_source r p = ?se * cell_index f x + t"
    if "op_covers r p" for p
  proof -
    have p: "p < ?se * bbox_vol g" using that r by (simp add: op_covers_def)
    then have "p div ?se < bbox_vol g" by (simp add: less_mult_imp_div_less mult.commute)
    then obtain x where x: "in_bbox g x" "cell_index g x = p div ?se" by (rule cell_index_surj [OF g])
    have "p = ?se * cell_index g x + p mod ?se" using x(2) by simp
    moreover have "op_source r p = ?se * cell_index f x + p mod ?se"
      using f [OF x(1)] x(2) r by (simp add: op_source_def algebra_simps)
    ultimately show ?thesis using x(1) se by (metis mem_Collect_eq mod_less_divisor)
  qed
  moreover have "op_covers r (?se * cell_index g x + t)" if "in_bbox g x" "t < ?se" for x t
  proof -
    have "?se * cell_index g x + t < ?se * (cell_index g x + 1)" using that(2) by simp
    also have "\<dots> \<le> ?se * bbox_vol g" using cell_index_less [OF g that(1)] by (intro mult_le_mono2) simp
    finally show ?thesis using r by (simp add: op_covers_def)
  qed
  ultimately show ?thesis by (simp add: reads_exact_def)
qed

subsection \<open>The two plans\<close>

lemma matrix_rdma_exact:
  assumes t: "obj_fits g (unat s)" "num_dims g = Suc k" "k < 9"
    and f: "obj_fits f (unat s)" "num_dims f = Suc k" and i: "bbox_does_intersect g f"
    and c: "c = bbox_intersect g f c0" and a: "a = matrix_init st g c s" and b: "b = matrix_init st' f c s"
    and d: "drh_init d" "\<forall>k. drh_rc d k = 0" "dart_rdma_find_read_tran j d \<noteq> None"
  shows "\<exists>d' R. matrix_rdma_copy a b j d = Some (0, d') \<and> scheduled j R d d' \<and>
    reads_exact (unat s) {x. in_bbox g x \<and> in_bbox f x} (cell_index g) (cell_index f) (set R)"
proof -
  have fits: "mfits a b k" by (rule mfits_init [OF t(1) f(1) t(2) f(2) i c a b])
  have se: "0 < unat s" using t(1) by (simp add: obj_fits_def)
  have room: "mroom a (unat s) k (unat 0)" "mroom b (unat s) k (unat 0)"
    using mroom_init [OF t(1,2) a] mroom_init [OF f(1,2) b] by auto
  have sa: "size_elem a = s" by (simp add: a)
  obtain d' R where R: "rdma_copy_level a b j k 0 0 d = Some (0, d')" "scheduled j R d d'"
    "reads_exact (unat s) (mview a k) (mpos a k 0) (\<lambda>x. mpos b k 0 (mshift a b x)) (set R)"
    using rdma_level_exact [OF fits sa se room d] by auto
  have run: "matrix_rdma_copy a b j d = Some (0, d')"
    using R(1) t by (simp add: matrix_rdma_copy_def a)
  note C = view_cells [OF t(1) f(1) t(2) f(2) i c a b]
  let ?r = "\<lambda>x i. unat (x i) - unat (lb g i)"
  have pb: "mpos b k 0 (mshift a b (?r x)) = cell_index f x" if "in_bbox g x" "in_bbox f x" for x
    unfolding mpos_init [OF f(2) b] cell_index_def using C(1) that by (intro mindex_cong) (simp add: f(2))
  have "reads_exact (unat s) {x. in_bbox g x \<and> in_bbox f x} (cell_index g) (cell_index f) (set R)"
  proof (rule reads_exact_reindex [OF R(3), where g = ?r])
    fix x assume "x \<in> {x. in_bbox g x \<and> in_bbox f x}"
    then show "?r x \<in> mview a k \<and> mpos a k 0 (?r x) = cell_index g x \<and>
        mpos b k 0 (mshift a b (?r x)) = cell_index f x"
      using C(1) pb by (simp add: mpos_init [OF t(2) a] cell_index_def)
  next
    fix y assume y: "y \<in> mview a k"
    note V = C(2) [OF y]
    let ?x = "\<lambda>i. lb g i + of_nat (y i)"
    have r: "\<forall>j\<le>k. ?r ?x j = y j" using V by simp
    have "cell_index g ?x = mpos a k 0 y"
      unfolding mpos_init [OF t(2) a] cell_index_def using r by (intro mindex_cong) (simp add: t(2))
    moreover have "cell_index f ?x = mpos b k 0 (mshift a b y)"
      unfolding pb [symmetric, OF conjunct1 [OF V] conjunct1 [OF conjunct2 [OF V]]] mpos_init [OF f(2) b]
      using V by (intro mindex_cong) (simp add: f(2) mshift_def)
    ultimately show "\<exists>x\<in>{x. in_bbox g x \<and> in_bbox f x}. cell_index g x = mpos a k 0 y \<and>
        cell_index f x = mpos b k 0 (mshift a b y)" using V by blast
  qed
  then show ?thesis using run R(2) by blast
qed

text \<open>The descriptors of a part: the object of the owner, and the piece of it that a query needs.\<close>

definition part_of :: "obj_descriptor \<Rightarrow> obj_descriptor \<Rightarrow> bool" where
  "part_of src_odsc dst_odsc \<longleftrightarrow>
     (let g = od_bb dst_odsc; f = od_bb src_odsc; s = od_size dst_odsc in
      1 \<le> num_dims g \<and> num_dims g \<le> 9 \<and> num_dims f = num_dims g \<and> od_size src_odsc = s \<and>
      obj_fits g (unat s) \<and> obj_fits f (unat s) \<and> bbox_include f g)"

definition plan_exact :: "obj_descriptor \<Rightarrow> obj_descriptor \<Rightarrow> dart_rdma_op set \<Rightarrow> bool" where
  "plan_exact src_odsc dst_odsc S \<longleftrightarrow> reads_exact (unat (od_size dst_odsc)) {x. in_bbox (od_bb dst_odsc) x}
     (cell_index (od_bb dst_odsc)) (cell_index (od_bb src_odsc)) S"

lemma part_ofD:
  assumes "part_of src_odsc dst_odsc"
  shows "obj_fits (od_bb dst_odsc) (unat (od_size dst_odsc))" "obj_fits (od_bb src_odsc) (unat (od_size dst_odsc))"
    "num_dims (od_bb src_odsc) = num_dims (od_bb dst_odsc)" "od_size src_odsc = od_size dst_odsc"
    "i < num_dims (od_bb dst_odsc) \<Longrightarrow> lb (od_bb src_odsc) i \<le> lb (od_bb dst_odsc) i"
    "i < num_dims (od_bb dst_odsc) \<Longrightarrow> lb (od_bb dst_odsc) i \<le> ub (od_bb dst_odsc) i"
    "i < num_dims (od_bb dst_odsc) \<Longrightarrow> ub (od_bb dst_odsc) i \<le> ub (od_bb src_odsc) i"
  using assms by (auto simp: part_of_def Let_def bbox_include_def bbox_include_ondim_def list_all_upt obj_fits_def bbox_wf_def)

lemma schedule_exact:
  assumes p: "part_of src_odsc dst_odsc"
    and d: "drh_init d" "\<forall>k. drh_rc d k = 0" "dart_rdma_find_read_tran j d \<noteq> None"
  shows "\<exists>d' R. schedule_rdma_reads c0 j src_odsc dst_odsc d = Some (0, d') \<and> scheduled j R d d' \<and>
    plan_exact src_odsc dst_odsc (set R)"
proof -
  let ?g = "od_bb dst_odsc" and ?f = "od_bb src_odsc" and ?s = "od_size dst_odsc"
  note P = part_ofD [OF p]
  show ?thesis
  proof (cases "obj_desc_equals_no_owner src_odsc dst_odsc")
    case True
    then have eq: "bbox_equals ?f ?g" by (simp add: obj_desc_equals_no_owner_def)
    obtain d' r where r: "dart_rdma_schedule_read j 0 0 (obj_data_size dst_odsc) d = (0, d')" "scheduled j [r] d d'"
      "src_offset r = 0" "dst_offset r = 0" "op_bytes r = obj_data_size dst_odsc"
      using schedule_read_ok [OF d, of 0 0 "obj_data_size dst_odsc"] by blast
    have "plan_exact src_odsc dst_odsc {r}" unfolding plan_exact_def
      by (rule exact_piece [OF P(1), where off = 0]) (simp_all add: r obj_data_size_fits P(1) cell_index_equals [OF eq])
    then show ?thesis using True r by (intro exI [of _ d'] exI [of _ "[r]"]) (simp add: schedule_rdma_reads_def)
  next
    case False
    obtain k where k: "num_dims ?g = Suc k" "k < 9" using p by (cases "num_dims ?g") (auto simp: part_of_def Let_def)
    have "in_bbox ?f x" if "in_bbox ?g x" for x using that P(3,5,7) by (auto simp: in_bbox_def intro: order_trans)
    then have both: "{x. in_bbox ?g x \<and> in_bbox ?f x} = {x. in_bbox ?g x}" by auto
    have i: "bbox_does_intersect ?g ?f"
      using P(3,5) order_trans [OF P(6,7)] by (auto simp: bbox_does_intersect_def bbox_intersect_ondim_def list_all_upt)
    have k': "num_dims ?f = Suc k" using k P(3) by simp
    let ?c = "bbox_intersect ?g ?f c0"
    obtain d' R where "matrix_rdma_copy (matrix_init (od_st dst_odsc) ?g ?c ?s) (matrix_init (od_st src_odsc) ?f ?c ?s) j d = Some (0, d')"
      "scheduled j R d d'" "plan_exact src_odsc dst_odsc (set R)"
      using matrix_rdma_exact [OF P(1) k P(2) k' i refl refl refl d] unfolding plan_exact_def both by blast
    then show ?thesis using False
      by (intro exI [of _ d'] exI [of _ R]) (simp add: schedule_rdma_reads_def matrix_init_d_eq P(4) Let_def)
  qed
qed

text \<open>Rows that the part spans entirely lie one after the other.\<close>

lemma mweight_fold:
  "unat (fold (\<lambda>i n. n * d i) [0..<k] (1 :: u64)) = mweight (\<lambda>i. unat (d i)) k"
  if "mweight (\<lambda>i. unat (d i)) k < 2 ^ 64" "\<forall>i<k. 0 < d i"
  using that
proof (induction k)
  case (Suc k)
  have pos: "1 \<le> unat (d k)" using Suc.prems(2) by (metis One_nat_def Suc_le_eq lessI unat_gt_0 word_gt_0)
  then have "1 * mweight (\<lambda>i. unat (d i)) k \<le> mweight (\<lambda>i. unat (d i)) (Suc k)"
    unfolding mweight_Suc by (rule mult_le_mono1)
  then have "mweight (\<lambda>i. unat (d i)) k < 2 ^ 64" using Suc.prems(1) by linarith
  then have "unat (fold (\<lambda>i n. n * d i) [0..<k] (1 :: u64)) = mweight (\<lambda>i. unat (d i)) k"
    using Suc by simp
  then show ?case using Suc.prems(1) by (simp add: unat_mult_u64 mult.commute)
qed (simp add: mweight_def)

lemma contiguous_rows:
  assumes p: "part_of src_odsc dst_odsc" and c: "is_remote_data_contiguous_in_memory c0 src_odsc dst_odsc"
    and i: "Suc i < num_dims (od_bb dst_odsc)"
  shows "lb (od_bb src_odsc) i = lb (od_bb dst_odsc) i" "bbox_dist (od_bb src_odsc) i = bbox_dist (od_bb dst_odsc) i"
proof -
  let ?g = "od_bb dst_odsc" and ?f = "od_bb src_odsc"
  note P = part_ofD [OF p]
  have i': "i < num_dims ?g" "i < num_dims ?f" using i P(3) by auto
  have "ub ?g i - lb ?f i - (lb ?g i - lb ?f i) + 1 = bbox_dist ?f i"
    using c i i' P(3,5,7) unfolding is_remote_data_contiguous_in_memory_def Let_def matrix_init_d_eq
    by (simp add: list_all_upt max_absorb1 min_absorb1)
  then show d: "bbox_dist ?f i = bbox_dist ?g i" by (simp add: bbox_dist_def coord_dist_def)
  have "unat (lb ?f i) \<le> unat (lb ?g i)" "unat (lb ?g i) \<le> unat (ub ?g i)" "unat (ub ?g i) \<le> unat (ub ?f i)"
    using P(5-7) [OF i'(1)] by (simp_all add: u64_le_nat)
  moreover have "unat (ub ?f i) - unat (lb ?f i) + 1 = unat (ub ?g i) - unat (lb ?g i) + 1"
    using d obj_fits_dist [OF P(1) i'(1)] obj_fits_dist [OF P(2) i'(2)] by simp
  ultimately have "unat (lb ?f i) = unat (lb ?g i)" by linarith
  then show "lb ?f i = lb ?g i" by (simp add: word_unat_eq_iff)
qed

lemma contiguous_exact:
  assumes p: "part_of src_odsc dst_odsc" and c: "is_remote_data_contiguous_in_memory c0 src_odsc dst_odsc"
  shows "\<exists>off. calculate_offset_for_remote_data c1 src_odsc dst_odsc = Some off \<and>
    (\<forall>r. src_offset r = off \<and> dst_offset r = 0 \<and> op_bytes r = obj_data_size dst_odsc \<longrightarrow> plan_exact src_odsc dst_odsc {r})"
proof -
  let ?g = "od_bb dst_odsc" and ?f = "od_bb src_odsc" and ?s = "od_size dst_odsc"
  let ?df = "\<lambda>i. unat (bbox_dist ?f i)"
  note P = part_ofD [OF p] and rows = contiguous_rows [OF p c]
  obtain k where k: "num_dims ?g = Suc k" using p by (cases "num_dims ?g") (auto simp: part_of_def Let_def)
  have kf: "num_dims ?f = Suc k" using k P(3) by simp
  define o' where "o' = unat (lb ?g k) - unat (lb ?f k)"
  have lk: "unat (lb ?f k) \<le> unat (lb ?g k)" "unat (lb ?g k) \<le> unat (ub ?g k)" "unat (ub ?g k) \<le> unat (ub ?f k)"
    using P(5-7) [of k] k by (simp_all add: u64_le_nat)
  have pos: "\<forall>i<k. 0 < bbox_dist ?f i" using obj_fits_dist [OF P(2)] kf by (auto simp: word_less_nat_alt)
  have o: "o' + 1 \<le> ?df k" using obj_fits_dist [OF P(2), of k] kf lk by (simp add: o'_def)
  have w: "mweight ?df k * ?df k * unat ?s < 2 ^ 64" "0 < unat ?s"
    using P(2) obj_fits_weight [OF P(2)] kf by (simp_all add: obj_fits_def mult.commute)
  have m: "mweight ?df k * o' * unat ?s < 2 ^ 64" using w(1) o by (meson le_less_trans mult_le_mono le_refl add_leD1)
  have m1: "mweight ?df k * 1 * 1 < 2 ^ 64"
    using w o by (intro le_less_trans [OF _ w(1)] mult_le_mono) auto
  have m2: "mweight ?df k * o' * 1 < 2 ^ 64"
    using w(2) by (intro le_less_trans [OF _ m] mult_le_mono) auto
  define N where "N = fold (\<lambda>i n. n * bbox_dist ?f i) [0..<k] (1 :: u64)"
  have N: "unat N = mweight ?df k" unfolding N_def using m1 pos by (intro mweight_fold) simp_all
  have l: "unat (lb ?g k - lb ?f k) = o'" using P(5) [of k] k by (simp add: o'_def unat_diff_u64)
  let ?off = "N * (lb ?g k - lb ?f k) * ?s"
  have "fold (\<lambda>i n. n * dist (matrix_init st ?f b s) i) [0..<k] (1 :: u64) = N" for st b s
    unfolding N_def by (rule fold_cong) (simp_all add: kf)
  then have off: "calculate_offset_for_remote_data c1 src_odsc dst_odsc = Some ?off"
    using P(4) P(5) [of k] k unfolding calculate_offset_for_remote_data_def Let_def matrix_init_d_eq
    by (simp add: kf max_absorb1)
  have "unat (N * (lb ?g k - lb ?f k)) = mweight ?df k * o'" using m2 N l by (subst unat_mult_u64) simp_all
  then have uo: "unat ?off = unat ?s * (mweight ?df k * o')" using m by (subst unat_mult_u64) (simp_all add: mult.commute)
  have idx: "cell_index ?f x = cell_index ?g x + mweight ?df k * o'" if x: "in_bbox ?g x" for x
  proof -
    have "unat (lb ?g k) \<le> unat (x k)" using x k by (simp add: in_bbox_def u64_le_nat)
    then have "unat (x k) - unat (lb ?f k) = unat (x k) - unat (lb ?g k) + o'" using lk by (simp add: o'_def)
    moreover have "mindex ?df k (\<lambda>i. unat (x i) - unat (lb ?f i)) =
        mindex (\<lambda>i. unat (bbox_dist ?g i)) k (\<lambda>i. unat (x i) - unat (lb ?g i))"
      using rows k by (intro trans [OF mindex_dist_cong mindex_cong]) simp_all
    moreover have "mweight ?df k = mweight (\<lambda>i. unat (bbox_dist ?g i)) k" using rows k by (intro mweight_cong) simp
    ultimately show ?thesis by (simp add: cell_index_def k kf algebra_simps)
  qed
  have "plan_exact src_odsc dst_odsc {r}" if "src_offset r = ?off" "dst_offset r = 0" "op_bytes r = obj_data_size dst_odsc" for r
    unfolding plan_exact_def
    by (rule exact_piece [OF P(1), where off = "mweight ?df k * o'"]) (simp_all add: that uo idx obj_data_size_fits P(1))
  then show ?thesis using off by blast
qed

end
