(* ===== verification/DS_Dimes.thy ===== *)
theory DS_Dimes
  imports DS_Meta DS_Fetch DS_Client
begin

text \<open>
  The client of DIMES (src/src/dimes_client.c): it keeps the data of its puts in registered memory, tells
  the servers where they are, and serves a get by locating the parts at the servers and reading them from
  the memory of their owners. Conventions as in \<open>DS_Client\<close> and \<open>DS_Rdma\<close>.
  \<^item> modelled is the build for InfiniBand without \<open>DS_HAVE_DIMES_SHMEM\<close>; \<open>enable_pre_allocated_rdma_buffer\<close> is
    then always 0, and its branches are left out;
  \<^item> a pointer to a read transaction or to a query is its id; \<open>d_bb0\<close> and \<open>d_int0\<close> are the contents of
    uninitialised locals;
  \<^item> \<open>None\<close> is undefined behaviour or waiting forever.
\<close>

subsection \<open>State\<close>

record dimes_memory_obj =
  mo_id :: dimes_obj_id
  mo_desc :: obj_descriptor
  mo_gdim :: global_dimension
  mo_handle :: dart_rdma_mem_handle

record dimes_storage_group =
  sg_name :: string
  sg_tab :: "nat \<Rightarrow> dimes_memory_obj list"

datatype fetch_status = fetch_ready | fetch_posted | fetch_done

record fetch_entry =
  remote_obj_id :: dimes_obj_id
  src_odsc :: obj_descriptor
  dst_odsc :: obj_descriptor
  fe_tran :: int

record query_dht_d =
  qhd_size :: nat
  qhd_num_peer :: nat
  qhd_posted :: nat
  qhd_received :: nat
  qhd_tab :: "nat \<Rightarrow> int"

record query_tran_entry_d =
  qd_id :: int
  data_ref :: obj_data
  qd_obj :: obj_descriptor
  num_fetch :: int
  fetch_list :: "fetch_entry list"
  qd_qh :: query_dht_d
  f_locate_data_complete :: bool
  qd_complete :: bool

datatype dimes_req = DR_put dimes_cmd | DR_locate hdr_dimes_get

record dimes_client =
  d_dcg :: dcg_space
  default_ssd :: sspace
  sspace_list :: "(global_dimension \<times> sspace) list"
  d_gdims :: "gdim_list_entry list"
  d_qt :: "query_tran_entry_d list"
  d_qt_num :: int
  d_storage :: "dimes_storage_group list"
  rdma_buffer_size :: u64
  rdma_buffer_usage :: u64
  max_num_concurrent_rdma_read_op :: int
  d_default_st :: storage_type
  current_group_name :: string
  local_obj_index_seed :: u32
  qid_d :: int
  d_rdma :: dart_rdma_handle
  d_sent :: "(int \<times> dimes_req) list"
  d_cache :: "sfc_hash_cache list"
  d_brk :: nat
  d_ss_env :: "nat \<Rightarrow> ss_env"
  d_mem :: "nat \<Rightarrow> bbox"
  d_bb0 :: bbox
  d_int0 :: int

definition d_attempt :: "dimes_client \<Rightarrow> int \<times> dimes_client" where
  "d_attempt d = (let (rc, g) = c_attempt (d_dcg d) in (rc, d\<lparr>d_dcg := g\<rparr>))"

definition is_peer_myself :: "dimes_client \<Rightarrow> int \<Rightarrow> bool" where
  "is_peer_myself d peer \<longleftrightarrow> peer = c_id (d_dcg d)"

subsection \<open>Shared spaces\<close>

text \<open>The spaces only select servers: one version is enough.\<close>

definition init_sspace_dimes :: "dimes_client \<Rightarrow> (int \<times> dimes_client) option" where
  "init_sspace_dimes d = do {
     ss \<leftarrow> ssd_alloc (d_ss_env d (d_brk d)\<lparr>e_addr := d_brk d\<rparr>) (c_domain (d_dcg d)) (nat (c_info_srv (d_dcg d))) 1
             (hash_version_of (c_hash_version (d_dcg d)));
     case ss of
       None \<Rightarrow> Some (- ENOMEM, d)
     | Some ssd \<Rightarrow> Some (0, d\<lparr>default_ssd := ssd, sspace_list := [], d_brk := d_brk d + 1\<rparr>)
   }"

definition free_sspace_dimes :: "dimes_client \<Rightarrow> dimes_client" where
  "free_sspace_dimes d = d\<lparr>sspace_list := []\<rparr>"

definition lookup_sspace_dimes :: "dimes_client \<Rightarrow> global_dimension \<Rightarrow> (nat \<times> dimes_client) option" where
  "lookup_sspace_dimes d gd =
     (if global_dimension_equal gd (c_default_gdim (d_dcg d)) then Some (ss_addr (default_ssd d), d)
      else case find (\<lambda>(g, ss). ndim gd = ndim g \<and> global_dimension_equal gd g) (sspace_list d) of
             Some (g, ss) \<Rightarrow> Some (ss_addr ss, d)
           | None \<Rightarrow>
               let (rc, d) = d_attempt d
               in if rc \<noteq> 0 then None
                  else do {
                    ss \<leftarrow> ssd_alloc (d_ss_env d (d_brk d)\<lparr>e_addr := d_brk d\<rparr>) (gdim_domain gd)
                            (nat (c_info_srv (d_dcg d))) 1 (hash_version_of (c_hash_version (d_dcg d)));
                    let d = d\<lparr>d_brk := d_brk d + 1\<rparr>;
                    case ss of
                      None \<Rightarrow> Some (ss_addr (default_ssd d), d)
                    | Some ssd \<Rightarrow> Some (ss_addr ssd, d\<lparr>sspace_list := (gd, ssd) # sspace_list d\<rparr>)
                  })"

definition d_find_space :: "dimes_client \<Rightarrow> nat \<Rightarrow> sspace option" where
  "d_find_space d a = find (\<lambda>ss. ss_addr ss = a) (default_ssd d # map snd (sspace_list d))"

text \<open>\<open>ssd_hash\<close>, and the ranks behind the entries it returns.\<close>

definition dimes_hash :: "dimes_client \<Rightarrow> nat \<Rightarrow> bbox \<Rightarrow> (int list \<times> dimes_client) option" where
  "dimes_hash d a bb = do {
     ss \<leftarrow> d_find_space d a;
     let (rc, d) = d_attempt d;
     (de_tab, l) \<leftarrow> ssd_hash (d_mem d) (rc = 0) (d_cache d) ss bb;
     let d = d\<lparr>d_cache := l\<rparr>;
     ranks \<leftarrow> those (map (\<lambda>(a, i). map_option (\<lambda>ss. rank (ent_tab (dht ss) i)) (d_find_space d a)) de_tab);
     Some (ranks, d)
   }"

subsection \<open>Registered memory\<close>

definition get_available_rdma_buffer_size :: "dimes_client \<Rightarrow> u64" where
  "get_available_rdma_buffer_size d =
     (if rdma_buffer_usage d > rdma_buffer_size d then 0 else rdma_buffer_size d - rdma_buffer_usage d)"

definition dimes_memory_alloc ::
  "dart_rdma_mem_handle \<Rightarrow> u64 \<Rightarrow> dart_memory_type \<Rightarrow> dimes_client \<Rightarrow> int \<times> dart_rdma_mem_handle \<times> dimes_client" where
  "dimes_memory_alloc h n ty d =
     (let h = h\<lparr>mem_type := ty\<rparr> in
      if ty = dart_memory_rdma \<and> get_available_rdma_buffer_size d < n then (- 1, h, d)
      else let (rc, r) = rdma_attempt (d_rdma d) in
        if rc \<noteq> 0 then (- 1, h, d\<lparr>d_rdma := r\<rparr>)
        else let (b, r) = new_block r in
          case ty of
            dart_memory_non_rdma \<Rightarrow> (0, h\<lparr>base_addr := (b, 0), mh_size := n\<rparr>, d\<lparr>d_rdma := r\<rparr>)
          | dart_memory_rdma \<Rightarrow>
              let (err, h, r) = dart_rdma_register_mem h (b, 0) n r; d = d\<lparr>d_rdma := r\<rparr>
              in if err < 0 then (- 1, h, d) else (0, h, d\<lparr>rdma_buffer_usage := rdma_buffer_usage d + n\<rparr>))"

definition dimes_memory_free :: "dart_rdma_mem_handle \<Rightarrow> dimes_client \<Rightarrow> int \<times> dimes_client" where
  "dimes_memory_free h d =
     (case mem_type h of
        dart_memory_non_rdma \<Rightarrow> (0, d)
      | dart_memory_rdma \<Rightarrow>
          let (err, r) = dart_rdma_deregister_mem (d_rdma d); d = d\<lparr>d_rdma := r\<rparr>
          in if err < 0 then (- 1, d) else (0, d\<lparr>rdma_buffer_usage := rdma_buffer_usage d - mh_size h\<rparr>))"

subsection \<open>Storage\<close>

definition next_local_obj_index :: "dimes_client \<Rightarrow> u32 \<times> dimes_client" where
  "next_local_obj_index d = (local_obj_index_seed d, d\<lparr>local_obj_index_seed := local_obj_index_seed d + 1\<rparr>)"

definition STORAGE_GROUP_NAME_MAXLEN :: nat where
  "STORAGE_GROUP_NAME_MAXLEN = 256"

definition default_group_name :: string where
  "default_group_name = ''__default_storage_group__''"

definition update_current_group_name :: "string option \<Rightarrow> dimes_client \<Rightarrow> dimes_client" where
  "update_current_group_name name d =
     (case name of None \<Rightarrow> d | Some n \<Rightarrow> d\<lparr>current_group_name := take STORAGE_GROUP_NAME_MAXLEN n\<rparr>)"

definition mem_obj_list_lookup :: "dimes_memory_obj list \<Rightarrow> dimes_obj_id \<Rightarrow> dimes_memory_obj option" where
  "mem_obj_list_lookup l oid = find (\<lambda>p. equal_dimes_obj_id (mo_id p) oid) l"

definition storage_add_group :: "string \<Rightarrow> dimes_client \<Rightarrow> dimes_storage_group option \<times> dimes_client" where
  "storage_add_group name d =
     (let (rc, d) = d_attempt d in
      if rc \<noteq> 0 then (None, d)
      else let (rc, d) = d_attempt d in
        if rc \<noteq> 0 then (None, d)
        else let p = \<lparr>sg_name = name, sg_tab = (\<lambda>_. [])\<rparr> in (Some p, d\<lparr>d_storage := p # d_storage d\<rparr>))"

definition storage_lookup_group :: "string \<Rightarrow> dimes_client \<Rightarrow> dimes_storage_group option" where
  "storage_lookup_group name d = find (\<lambda>p. sg_name p = name) (d_storage d)"

text \<open>The names of groups are distinct: a group stands for its name. The results of the frees are ignored.\<close>

definition storage_free_group :: "dimes_storage_group \<Rightarrow> dimes_client \<Rightarrow> int \<times> dimes_client" where
  "storage_free_group g d =
     (let objs = concat (map (sg_tab g) [0..<nat (c_max_versions (d_dcg d))]);
          d = fold (\<lambda>p d. snd (dimes_memory_free (mo_handle p) d)) objs d
      in (0, d\<lparr>d_storage := filter (\<lambda>p. sg_name p \<noteq> sg_name g) (d_storage d)\<rparr>))"

definition storage_init :: "dimes_client \<Rightarrow> dimes_client" where
  "storage_init d = update_current_group_name (Some default_group_name) (d\<lparr>d_storage := []\<rparr>)"

definition storage_free :: "dimes_client \<Rightarrow> dimes_client" where
  "storage_free d = fold (\<lambda>p d. snd (storage_free_group p d)) (d_storage d) d"

text \<open>The version is unsigned here; a group that cannot be made is a NULL pointer.\<close>

definition storage_add_obj :: "dimes_memory_obj \<Rightarrow> dimes_client \<Rightarrow> (int \<times> dimes_client) option" where
  "storage_add_obj p d =
     (let name = current_group_name d;
          (g, d) = (case storage_lookup_group name d of Some g \<Rightarrow> (Some g, d) | None \<Rightarrow> storage_add_group name d);
          m = c_max_versions (d_dcg d);
          i = nat (int (unat (od_version (mo_desc p))) mod m)
      in if Option.is_none g \<or> m \<le> 0 then None
         else Some (0, d\<lparr>d_storage := map (\<lambda>g. if sg_name g = name then g\<lparr>sg_tab := (sg_tab g)(i := p # sg_tab g i)\<rparr> else g)
                              (d_storage d)\<rparr>))"

text \<open>The version is an \<open>int\<close> here, as in \<open>obj_location_list_lookup\<close>. The groups are searched one after the other.\<close>

definition storage_lookup_obj :: "dimes_obj_id \<Rightarrow> u32 \<Rightarrow> dimes_client \<Rightarrow> dimes_memory_obj option option" where
  "storage_lookup_obj oid version d =
     (let m = c_max_versions (d_dcg d); i = sint version smod m
      in if d_storage d = [] then Some None
         else if m = 0 \<or> i < 0 then None
         else Some (mem_obj_list_lookup (concat (map (\<lambda>p. sg_tab p (nat i)) (d_storage d))) oid))"

subsection \<open>Query transactions\<close>

definition qt_gen_qid_d :: "dimes_client \<Rightarrow> int \<times> dimes_client" where
  "qt_gen_qid_d d = (qid_d d, d\<lparr>qid_d := qid_d d + 1\<rparr>)"

definition qh_alloc_d :: "bool \<Rightarrow> nat \<Rightarrow> query_dht_d option" where
  "qh_alloc_d malloc_ok qh_num =
     (if malloc_ok
      then Some \<lparr>qhd_size = qh_num + 1, qhd_num_peer = 0, qhd_posted = 0, qhd_received = 0, qhd_tab = (\<lambda>_. 0)\<rparr>
      else None)"

definition qte_alloc_d :: "obj_data \<Rightarrow> dimes_client \<Rightarrow> query_tran_entry_d option \<times> dimes_client" where
  "qte_alloc_d od d =
     (let (rc, d) = d_attempt d in
      if rc \<noteq> 0 then (None, d)
      else let (q, d) = qt_gen_qid_d d; (rc, d) = d_attempt d
           in (map_option (\<lambda>h. \<lparr>qd_id = q, data_ref = od, qd_obj = obj_desc od, num_fetch = 0, fetch_list = [], qd_qh = h,
                               f_locate_data_complete = False, qd_complete = False\<rparr>)
                 (qh_alloc_d (rc = 0) (c_num_sp (d_dcg d))), d))"

definition qt_find_d :: "dimes_client \<Rightarrow> int \<Rightarrow> query_tran_entry_d option" where
  "qt_find_d d q = find (\<lambda>e. qd_id e = q) (d_qt d)"

definition qt_add_d :: "query_tran_entry_d \<Rightarrow> dimes_client \<Rightarrow> dimes_client" where
  "qt_add_d e d = d\<lparr>d_qt := e # d_qt d, d_qt_num := d_qt_num d + 1\<rparr>"

definition qt_remove_d :: "int \<Rightarrow> dimes_client \<Rightarrow> dimes_client" where
  "qt_remove_d q d = d\<lparr>d_qt := filter (\<lambda>e. qd_id e \<noteq> q) (d_qt d), d_qt_num := d_qt_num d - 1\<rparr>"

text \<open>Assignments through a pointer to a transaction.\<close>

definition qt_set_d :: "int \<Rightarrow> (query_tran_entry_d \<Rightarrow> query_tran_entry_d) \<Rightarrow> dimes_client \<Rightarrow> dimes_client" where
  "qt_set_d q f d = d\<lparr>d_qt := map (\<lambda>e. if qd_id e = q then f e else e) (d_qt d)\<rparr>"

definition qt_find_obj_d :: "query_tran_entry_d \<Rightarrow> obj_descriptor \<Rightarrow> obj_descriptor option" where
  "qt_find_obj_d e odsc = map_option dst_odsc (find (\<lambda>f. obj_desc_equals (dst_odsc f) odsc) (fetch_list e))"

text \<open>A read transaction with reads that are not complete is not released.\<close>

definition qt_free_obj_data_d :: "int \<Rightarrow> dimes_client \<Rightarrow> dimes_client" where
  "qt_free_obj_data_d q d =
     (case qt_find_d d q of
        None \<Rightarrow> d
      | Some e \<Rightarrow>
          qt_set_d q (\<lambda>e. e\<lparr>num_fetch := num_fetch e - int (length (fetch_list e)), fetch_list := []\<rparr>)
            (d\<lparr>d_rdma := fold (\<lambda>f r. snd (dart_rdma_delete_read_tran (fe_tran f) r)) (fetch_list e) (d_rdma d)\<rparr>))"

text \<open>
  malloc and \<open>dart_rdma_create_read_tran\<close> are not checked. Of the source region only \<open>mr\<close> comes with
  the request.
\<close>

definition qt_add_obj_with_cmd_d :: "int \<Rightarrow> obj_descriptor \<Rightarrow> dimes_cmd \<Rightarrow> dimes_client \<Rightarrow> dimes_client option" where
  "qt_add_obj_with_cmd_d q odsc cmd d =
     (let (rc, d) = d_attempt d in
      if rc \<noteq> 0 then None
      else let (err, i, r) = dart_rdma_create_read_tran (od_owner (cmd_odsc cmd)) (d_rdma d) in
        if err < 0 then None
        else let f = \<lparr>remote_obj_id = hd_obj_id (cmd_put cmd), src_odsc = cmd_odsc cmd, dst_odsc = odsc, fe_tran = i\<rparr>
             in Some (qt_set_d q (\<lambda>e. e\<lparr>fetch_list := f # fetch_list e\<rparr>)
                  (d\<lparr>d_rdma := update_tran i (\<lambda>t. t\<lparr>tr_src := (tr_src t)\<lparr>mh_mr := cmd_mr cmd\<rparr>\<rparr>) r\<rparr>)))"

subsection \<open>Replies of servers\<close>

definition locate_received :: "query_tran_entry_d \<Rightarrow> query_tran_entry_d" where
  "locate_received e = e\<lparr>qd_qh := (qd_qh e)\<lparr>qhd_received := qhd_received (qd_qh e) + 1\<rparr>\<rparr>"

definition check_located :: "query_tran_entry_d \<Rightarrow> query_tran_entry_d" where
  "check_located e = (if qhd_received (qd_qh e) = qhd_posted (qd_qh e) then e\<lparr>f_locate_data_complete := True\<rparr> else e)"

fun add_cmd_loop :: "int \<Rightarrow> dimes_cmd list \<Rightarrow> dimes_client \<Rightarrow> dimes_client option" where
  "add_cmd_loop q [] d = Some d"
| "add_cmd_loop q (c # cs) d = do {
     e \<leftarrow> qt_find_d d q;
     let odsc = (cmd_odsc c)\<lparr>od_bb := bbox_intersect (od_bb (qd_obj e)) (od_bb (cmd_odsc c)) (od_bb (cmd_odsc c))\<rparr>;
     d \<leftarrow> (case qt_find_obj_d e odsc of
             None \<Rightarrow> qt_add_obj_with_cmd_d q odsc c d
           | Some _ \<Rightarrow> Some (qt_set_d q (\<lambda>e. e\<lparr>num_fetch := num_fetch e - 1\<rparr>) d));
     add_cmd_loop q cs d
   }"

text \<open>The table of put requests has arrived.\<close>

definition locate_data_completion_client :: "int \<Rightarrow> dimes_cmd list \<Rightarrow> dimes_client \<Rightarrow> (int \<times> dimes_client) option" where
  "locate_data_completion_client q tab d =
     (case qt_find_d d q of
        None \<Rightarrow> Some (- ENOENT, d)
      | Some _ \<Rightarrow> do {
          d \<leftarrow> add_cmd_loop q tab (qt_set_d q (\<lambda>e. (locate_received e)\<lparr>num_fetch := num_fetch e + int (length tab)\<rparr>) d);
          Some (0, qt_set_d q check_located d)
        })"

text \<open>A server without locations, or the start of the transfer of its table.\<close>

definition dcgrpc_dimes_locate_data :: "int \<Rightarrow> int \<Rightarrow> int \<Rightarrow> dimes_client \<Rightarrow> int \<times> dimes_client" where
  "dcgrpc_dimes_locate_data q rc n d =
     (if rc = - 1
      then case qt_find_d d q of
             None \<Rightarrow> (- ENOMEM, d)
           | Some _ \<Rightarrow> (0, qt_set_d q (\<lambda>e. check_located (locate_received e)) d)
      else let (rc, d) = d_attempt d in
        if rc \<noteq> 0 then (- ENOMEM, d)
        else let (rc, d) = d_attempt d in
          if rc \<noteq> 0 then (- ENOMEM, d)
          else let (rc, d) = d_attempt d in
            if rc \<noteq> 0 \<or> n \<le> 0 then (- ENOMEM, d) else d_attempt d)"

datatype dimes_event =
    dv_locate int int int
  | dv_tab int "dimes_cmd list"
  | dv_other dc_event

definition dimes_process :: "dimes_event \<Rightarrow> dimes_client \<Rightarrow> (int \<times> dimes_client) option" where
  "dimes_process ev d =
     (case ev of
        dv_locate q rc n \<Rightarrow> Some (0, snd (dcgrpc_dimes_locate_data q rc n d))
      | dv_tab q tab \<Rightarrow> map_option (\<lambda>(_, d). (0, d)) (locate_data_completion_client q tab d)
      | dv_other ev \<Rightarrow> map_option (\<lambda>(err, g). (err, d\<lparr>d_dcg := g\<rparr>)) (dc_process ev (d_dcg d)))"

text \<open>\<open>DIMES_WAIT_COMPLETION(x)\<close>.\<close>

fun dimes_wait ::
  "(dimes_client \<Rightarrow> bool) \<Rightarrow> dimes_event list \<Rightarrow> dimes_client \<Rightarrow> (int \<times> dimes_client \<times> dimes_event list) option" where
  "dimes_wait x [] d = None"
| "dimes_wait x (ev # evs) d = do {
     (err, d) \<leftarrow> dimes_process ev d;
     if err < 0 then Some (err, d, evs) else if x d then Some (0, d, evs) else dimes_wait x evs d
   }"

subsection \<open>Put\<close>

definition no_shmem :: dimes_shmem_descriptor where
  "no_shmem = \<lparr>sd_size = 0, sd_offset = 0, sd_shmem_obj_id = 0, sd_owner_node_rank = 0\<rparr>"

definition put_cmd :: "dimes_client \<Rightarrow> dimes_memory_obj \<Rightarrow> dimes_cmd" where
  "put_cmd d p = \<lparr>cmd_id = c_id (d_dcg d), cmd_mr = mh_mr (mo_handle p),
     cmd_put = \<lparr>hd_ptlmap = c_id (d_dcg d), hd_obj_id = mo_id p, hd_odsc = mo_desc p, hd_has_shmem_data = False,
                hd_shmem_desc = no_shmem\<rparr>\<rparr>"

text \<open>
  The loop over the servers, with \<open>err\<close> from before; the flag is whether it ended without a jump to
  \<open>err_out\<close>. When a message cannot be allocated, \<open>err\<close> is still the result of the previous send.
\<close>

fun put_loop :: "int \<Rightarrow> dimes_cmd \<Rightarrow> int list \<Rightarrow> dimes_client \<Rightarrow> bool \<times> int \<times> dimes_client" where
  "put_loop err cmd [] d = (True, err, d)"
| "put_loop err cmd (p # ps) d =
     (let (rc, d) = d_attempt d in
      if rc \<noteq> 0 then (False, err, d)
      else let (err, d) = d_attempt d in
        if err < 0 then (False, err, d)
        else put_loop err cmd ps (d\<lparr>d_sent := d_sent d @ [(p, DR_put cmd)]\<rparr>))"

definition dimes_obj_put :: "dimes_memory_obj \<Rightarrow> dimes_client \<Rightarrow> (int \<times> dimes_client) option" where
  "dimes_obj_put p d = do {
     (a, d) \<leftarrow> lookup_sspace_dimes d (mo_gdim p);
     (nodes, d) \<leftarrow> dimes_hash d a (od_bb (mo_desc p));
     if nodes = [] then Some (- ENOMEM, d)
     else let (ok, err, d) = put_loop (- ENOMEM) (put_cmd d p) nodes d in
       if \<not> ok then Some (err, d)
       else do { (_, d) \<leftarrow> storage_add_obj p d; Some (0, d) }
   }"

subsection \<open>Locating and fetching\<close>

text \<open>The table of servers is read up to the marker -1.\<close>

fun locate_loop :: "int \<Rightarrow> int list \<Rightarrow> hdr_dimes_get \<Rightarrow> dimes_client \<Rightarrow> (int \<times> dimes_client) option" where
  "locate_loop q [] oh d = None"
| "locate_loop q (p # ps) oh d =
     (if p = - 1 then Some (0, d)
      else let (rc, d) = d_attempt d in
        if rc \<noteq> 0 then Some (- ENOMEM, d)
        else let (err, d) = d_attempt d in
          if err < 0 then Some (err, d)
          else locate_loop q ps oh
                 (qt_set_d q (\<lambda>e. e\<lparr>qd_qh := (qd_qh e)\<lparr>qhd_posted := qhd_posted (qd_qh e) + 1\<rparr>\<rparr>)
                    (d\<lparr>d_sent := d_sent d @ [(p, DR_locate oh)]\<rparr>)))"

definition dimes_locate_data :: "int \<Rightarrow> dimes_client \<Rightarrow> (int \<times> dimes_client) option" where
  "dimes_locate_data q d = do {
     let d = qt_set_d q (\<lambda>e. e\<lparr>f_locate_data_complete := False,
               qd_qh := (qd_qh e)\<lparr>qhd_posted := 0, qhd_received := 0\<rparr>\<rparr>) d;
     e \<leftarrow> qt_find_d d q;
     locate_loop q (map (qhd_tab (qd_qh e)) [0..<qhd_size (qd_qh e)])
       \<lparr>hg_qid = q, hg_rc = 0, hg_num_obj = 0, hg_odsc = qd_obj e\<rparr> d
   }"

text \<open>\<open>dimes_memory_alloc\<close> and \<open>dimes_memory_free\<close> on \<open>fetch->read_tran->dst\<close>.\<close>

definition fetch_alloc :: "fetch_entry \<Rightarrow> dart_memory_type \<Rightarrow> dimes_client \<Rightarrow> (int \<times> dimes_client) option" where
  "fetch_alloc f ty d = do {
     t \<leftarrow> dart_rdma_find_read_tran (fe_tran f) (d_rdma d);
     let (err, h, d) = dimes_memory_alloc (tr_dst t) (obj_data_size (dst_odsc f)) ty d;
     Some (err, d\<lparr>d_rdma := update_tran (fe_tran f) (\<lambda>t. t\<lparr>tr_dst := h\<rparr>) (d_rdma d)\<rparr>)
   }"

definition fetch_free :: "fetch_entry \<Rightarrow> dimes_client \<Rightarrow> (int \<times> dimes_client) option" where
  "fetch_free f d = do {
     t \<leftarrow> dart_rdma_find_read_tran (fe_tran f) (d_rdma d);
     Some (dimes_memory_free (tr_dst t) d)
   }"

text \<open>The callers ignore the result of \<open>obj_assemble\<close>; malloc is not checked.\<close>

definition obj_assemble :: "int \<Rightarrow> fetch_entry \<Rightarrow> dimes_client \<Rightarrow> dimes_client option" where
  "obj_assemble q f d = do {
     let (rc, d) = d_attempt d;
     t \<leftarrow> dart_rdma_find_read_tran (fe_tran f) (d_rdma d);
     e \<leftarrow> qt_find_d d q;
     let p = base_addr (tr_dst t);
     from' \<leftarrow> obj_data_alloc_no_data (if rc = 0 then Some 0 else None) (dst_odsc f)
                (\<lambda>k. drh_mem (d_rdma d) (fst p) (unat (snd p) + k));
     od \<leftarrow> ssd_copy (d_bb0 d) (data_ref e) from';
     Some (qt_set_d q (\<lambda>e. e\<lparr>data_ref := od\<rparr>) d)
   }"

definition get_num_posted_fetch :: "fetch_status list \<Rightarrow> nat" where
  "get_num_posted_fetch st = length (filter (\<lambda>s. s = fetch_posted) st)"

text \<open>One pass of the loop over \<open>fetch_tab\<close> in \<open>all_fetch_done\<close>; the flag is \<open>complete_one_fetch\<close>.\<close>

fun complete_pass ::
  "int \<Rightarrow> fetch_entry list \<Rightarrow> nat list \<Rightarrow> fetch_status list \<Rightarrow> bool \<Rightarrow> dimes_client \<Rightarrow>
     (int \<times> fetch_status list \<times> bool \<times> dimes_client) option" where
  "complete_pass q tab [] st c d = Some (0, st, c, d)"
| "complete_pass q tab (i # is) st c d =
     (if st ! i = fetch_posted
      then do {
        (ready, r) \<leftarrow> dart_rdma_check_reads (fe_tran (tab ! i)) (d_rdma d);
        let d = d\<lparr>d_rdma := r\<rparr>;
        if ready
        then do {
          d \<leftarrow> obj_assemble q (tab ! i) d;
          (err, d) \<leftarrow> fetch_free (tab ! i) d;
          if err < 0 then Some (err, st, c, d) else complete_pass q tab is (st[i := fetch_done]) True d
        }
        else complete_pass q tab is st c d
      }
      else complete_pass q tab is st c d)"

partial_function (option) wait_fetch ::
  "int \<Rightarrow> fetch_entry list \<Rightarrow> nat \<Rightarrow> fetch_status list \<Rightarrow> bool \<Rightarrow> dimes_client \<Rightarrow>
     (int \<times> fetch_status list \<times> dimes_client) option" where
  "wait_fetch q tab n st c d =
     (if n > 0 \<and> \<not> c
      then let (err, r) = dart_rdma_process_reads (d_rdma d); d = d\<lparr>d_rdma := r\<rparr> in
        if err < 0 then Some (err, st, d)
        else do {
          (err, st, c, d) \<leftarrow> complete_pass q tab [0..<length tab] st c d;
          if err < 0 then Some (err, st, d) else wait_fetch q tab n st c d
        }
      else Some (0, st, d))"

text \<open>The result holds \<open>*all_done\<close>.\<close>

definition all_fetch_done ::
  "int \<Rightarrow> fetch_entry list \<Rightarrow> fetch_status list \<Rightarrow> dimes_client \<Rightarrow> (int \<times> bool \<times> fetch_status list \<times> dimes_client) option" where
  "all_fetch_done q tab st d = do {
     (err, st, d) \<leftarrow> wait_fetch q tab (get_num_posted_fetch st) st False d;
     Some (err, err \<ge> 0 \<and> list_all (\<lambda>s. s = fetch_done) st, st, d)
   }"

text \<open>The result holds \<open>*index\<close>.\<close>

definition get_next_fetch ::
  "fetch_entry list \<Rightarrow> fetch_status list \<Rightarrow> dimes_client \<Rightarrow> (int \<times> nat option \<times> dimes_client) option" where
  "get_next_fetch tab st d =
     (if int (get_num_posted_fetch st) \<ge> max_num_concurrent_rdma_read_op d then Some (0, None, d)
      else case find (\<lambda>i. st ! i = fetch_ready) [0..<length tab] of
             None \<Rightarrow> Some (0, None, d)
           | Some i \<Rightarrow> do {
               (err, d) \<leftarrow> fetch_alloc (tab ! i) dart_memory_rdma d;
               Some (if err < 0 then (err, None, d) else (0, Some i, d))
             })"

definition estimate_fetch_tab_capacity :: "query_tran_entry_d \<Rightarrow> int" where
  "estimate_fetch_tab_capacity e = num_fetch e"

subsection \<open>The fetch loops\<close>

text \<open>
  The first loop of \<open>dimes_fetch_data\<close>: parts of other clients whose rows are contiguous enter the table. The
  flag is false when the buffer is too small for a part.
\<close>

fun fetch_plan :: "nat \<Rightarrow> fetch_entry list \<Rightarrow> fetch_entry list \<Rightarrow> dimes_client \<Rightarrow> (bool \<times> fetch_entry list \<times> dimes_client) option" where
  "fetch_plan cap [] tab d = Some (True, tab, d)"
| "fetch_plan cap (f # fs) tab d =
     (if obj_data_size (dst_odsc f) > get_available_rdma_buffer_size d then Some (False, tab, d)
      else do {
        t \<leftarrow> dart_rdma_find_read_tran (fe_tran f) (d_rdma d);
        if \<not> is_peer_myself d (remote_peer t) \<and> is_remote_data_contiguous_in_memory (d_bb0 d) (src_odsc f) (dst_odsc f)
        then if length tab \<ge> cap then None
             else do {
               off \<leftarrow> calculate_offset_for_remote_data (d_bb0 d) (src_odsc f) (dst_odsc f);
               let (_, r) = dart_rdma_schedule_read (fe_tran f) off 0 (obj_data_size (dst_odsc f)) (d_rdma d);
               fetch_plan cap fs (tab @ [f]) (d\<lparr>d_rdma := r\<rparr>)
             }
        else fetch_plan cap fs tab d
      })"

partial_function (option) post_fetches ::
  "fetch_entry list \<Rightarrow> fetch_status list \<Rightarrow> dimes_client \<Rightarrow> (int \<times> fetch_status list \<times> dimes_client) option" where
  "post_fetches tab st d = do {
     (err, i, d) \<leftarrow> get_next_fetch tab st d;
     if err < 0 then Some (err, st, d)
     else case i of
       None \<Rightarrow> Some (0, st, d)
     | Some i \<Rightarrow>
         let (err, r) = dart_rdma_perform_reads (fe_tran (tab ! i)) (d_rdma d); d = d\<lparr>d_rdma := r\<rparr>;
             st = st[i := fetch_posted]
         in if err < 0 then Some (err, st, d) else post_fetches tab st d
   }"

partial_function (option) fetch_loop ::
  "int \<Rightarrow> fetch_entry list \<Rightarrow> fetch_status list \<Rightarrow> dimes_client \<Rightarrow> (int \<times> fetch_status list \<times> dimes_client) option" where
  "fetch_loop q tab st d = do {
     (err, st, d) \<leftarrow> post_fetches tab st d;
     if err < 0 then Some (err, st, d)
     else do {
       (err, loop_done, st, d) \<leftarrow> all_fetch_done q tab st d;
       if err < 0 \<or> loop_done then Some (err, st, d) else fetch_loop q tab st d
     }
   }"

partial_function (option) check_loop :: "int \<Rightarrow> dimes_client \<Rightarrow> (int \<times> dimes_client) option" where
  "check_loop i d = do {
     (ready, r) \<leftarrow> dart_rdma_check_reads i (d_rdma d);
     let d = d\<lparr>d_rdma := r\<rparr>;
     if ready then Some (0, d)
     else let (err, r) = dart_rdma_process_reads (d_rdma d); d = d\<lparr>d_rdma := r\<rparr>
          in if err < 0 then Some (err, d) else check_loop i d
   }"

text \<open>
  A part in the memory of this client, and a part of another client that is not contiguous. The flag is
  false after a jump to \<open>err_out\<close>; \<open>err\<close> is then 0 if the local object was not found. The results of
  allocation, planning and copying are ignored for a local part; without a buffer the copy is undefined.
\<close>

definition fetch_local :: "int \<Rightarrow> fetch_entry \<Rightarrow> dimes_client \<Rightarrow> (bool \<times> int \<times> dimes_client) option" where
  "fetch_local q f d = do {
     p \<leftarrow> storage_lookup_obj (remote_obj_id f) (od_version (src_odsc f)) d;
     case p of
       None \<Rightarrow> Some (False, 0, d)
     | Some p \<Rightarrow> do {
         let d = d\<lparr>d_rdma := update_tran (fe_tran f) (\<lambda>t. t\<lparr>tr_src := (tr_src t)\<lparr>base_addr := base_addr (mo_handle p),
                   mh_size := mh_size (mo_handle p)\<rparr>\<rparr>) (d_rdma d)\<rparr>;
         (err, d) \<leftarrow> fetch_alloc f dart_memory_non_rdma d;
         if err < 0 then None
         else do {
           (_, r) \<leftarrow> schedule_rdma_reads (d_bb0 d) (fe_tran f) (src_odsc f) (dst_odsc f) (d_rdma d);
           let (_, r) = dart_rdma_perform_reads (fe_tran f) r;
           d \<leftarrow> obj_assemble q f (d\<lparr>d_rdma := r\<rparr>);
           (_, d) \<leftarrow> fetch_free f d;
           Some (True, 0, d)
         }
       }
   }"

definition fetch_remote :: "int \<Rightarrow> fetch_entry \<Rightarrow> dimes_client \<Rightarrow> (bool \<times> int \<times> dimes_client) option" where
  "fetch_remote q f d = do {
     (err, d) \<leftarrow> fetch_alloc f dart_memory_rdma d;
     if err < 0 then Some (False, err, d)
     else do {
       (_, r) \<leftarrow> schedule_rdma_reads (d_bb0 d) (fe_tran f) (src_odsc f) (dst_odsc f) (d_rdma d);
       let (err, r) = dart_rdma_perform_reads (fe_tran f) r;
       let d = d\<lparr>d_rdma := r\<rparr>;
       if err < 0 then Some (False, err, d)
       else do {
         (err, d) \<leftarrow> check_loop (fe_tran f) d;
         if err < 0 then Some (False, err, d)
         else do {
           d \<leftarrow> obj_assemble q f d;
           (_, d) \<leftarrow> fetch_free f d;
           Some (True, 0, d)
         }
       }
     }
   }"

fun fetch_rest :: "int \<Rightarrow> fetch_entry list \<Rightarrow> dimes_client \<Rightarrow> (bool \<times> int \<times> dimes_client) option" where
  "fetch_rest q [] d = Some (True, 0, d)"
| "fetch_rest q (f # fs) d = do {
     t \<leftarrow> dart_rdma_find_read_tran (fe_tran f) (d_rdma d);
     (ok, err, d) \<leftarrow>
       (if is_peer_myself d (remote_peer t) then fetch_local q f d
        else if \<not> is_remote_data_contiguous_in_memory (d_bb0 d) (src_odsc f) (dst_odsc f) then fetch_remote q f d
        else Some (True, 0, d));
     if ok then fetch_rest q fs d else Some (False, err, d)
   }"

text \<open>\<open>err_out_free\<close>: the buffers of posted parts.\<close>

definition free_posted :: "fetch_entry list \<Rightarrow> fetch_status list \<Rightarrow> dimes_client \<Rightarrow> dimes_client option" where
  "free_posted tab st d =
     foldM (\<lambda>i d. if st ! i = fetch_posted then map_option snd (fetch_free (tab ! i) d) else Some d) [0..<length tab] d"

definition dimes_fetch_data :: "int \<Rightarrow> dimes_client \<Rightarrow> (int \<times> dimes_client) option" where
  "dimes_fetch_data q d = do {
     let d = qt_set_d q (\<lambda>e. e\<lparr>qd_complete := False\<rparr>) d;
     e \<leftarrow> qt_find_d d q;
     let cap = estimate_fetch_tab_capacity e;
     let (rc1, d) = d_attempt d;
     let (rc2, d) = d_attempt d;
     if (rc1 \<noteq> 0 \<or> rc2 \<noteq> 0) \<and> cap > 0 then None
     else do {
       (ok, tab, d) \<leftarrow> fetch_plan (nat cap) (fetch_list e) [] d;
       if \<not> ok then Some (d_int0 d, d)
       else do {
         (err, st, d) \<leftarrow> fetch_loop q tab (replicate (length tab) fetch_ready) d;
         if err < 0 then do { d \<leftarrow> free_posted tab st d; Some (err, d) }
         else do {
           (ok, err, d) \<leftarrow> fetch_rest q (fetch_list e) d;
           Some (if ok then (0, qt_set_d q (\<lambda>e. e\<lparr>qd_complete := True\<rparr>) d) else (err, d))
         }
       }
     }
   }"

subsection \<open>Get\<close>

definition located :: "int \<Rightarrow> dimes_client \<Rightarrow> bool" where
  "located q d = (case qt_find_d d q of Some e \<Rightarrow> f_locate_data_complete e | None \<Rightarrow> False)"

text \<open>The ends of \<open>dimes_obj_get\<close>.\<close>

definition out_no_data_d :: "int \<Rightarrow> dimes_client \<Rightarrow> dimes_client" where
  "out_no_data_d q d = qt_remove_d q (qt_free_obj_data_d q d)"

definition set_peers :: "int list \<Rightarrow> query_tran_entry_d \<Rightarrow> query_tran_entry_d" where
  "set_peers nodes e =
     e\<lparr>qd_qh := (qd_qh e)\<lparr>qhd_tab := (\<lambda>i. if i < length nodes then nodes ! i else if i = length nodes then - 1 else qhd_tab (qd_qh e) i),
                         qhd_num_peer := length nodes\<rparr>\<rparr>"

text \<open>
  The object of the caller is filled through \<open>data_ref\<close>. After a failure while waiting the transaction stays in
  the table. More servers than \<open>NUM_SERVER\<close> would be written past the end of the table of peers.
\<close>

definition dimes_obj_get ::
  "obj_data \<Rightarrow> dimes_event list \<Rightarrow> dimes_client \<Rightarrow> (int \<times> obj_data \<times> dimes_client \<times> dimes_event list) option" where
  "dimes_obj_get od evs d =
     (case qte_alloc_d od d of
        (None, d) \<Rightarrow> Some (- ENOMEM, od, d, evs)
      | (Some e, d) \<Rightarrow>
          let q = qd_id e; d = qt_add_d e d in do {
            (a, d) \<leftarrow> lookup_sspace_dimes d (od_gdim od);
            (nodes, d) \<leftarrow> dimes_hash d a (od_bb (obj_desc od));
            if nodes = [] then Some (- ENOMEM, od, qt_remove_d q d, evs)
            else if length nodes \<ge> qhd_size (qd_qh e) then None
            else do {
              (err, d) \<leftarrow> dimes_locate_data q (qt_set_d q (set_peers nodes) d);
              if err < 0 then Some (err, od, if err = - EAGAIN then out_no_data_d q d else qt_remove_d q d, evs)
              else do {
                (err, d, evs) \<leftarrow> dimes_wait (located q) evs d;
                if err < 0 then Some (err, od, d, evs)
                else do {
                  (err, d) \<leftarrow> dimes_fetch_data q d;
                  e \<leftarrow> qt_find_d d q;
                  Some (if err < 0 then err else if \<not> qd_complete e then - ENODATA else err,
                    data_ref e, out_no_data_d q d, evs)
                }
              }
            }
          })"

definition OD_NAME_SIZE :: nat where
  "OD_NAME_SIZE = 154"

text \<open>The descriptor of a get or put; the corners have room for \<open>BBOX_MAX_NDIM\<close> (\<open>max_ndim\<close>) coordinates.\<close>

definition user_odsc :: "nat \<Rightarrow> string \<Rightarrow> u32 \<Rightarrow> int \<Rightarrow> int \<Rightarrow> coord \<Rightarrow> coord \<Rightarrow> int \<Rightarrow> dimes_client \<Rightarrow> obj_descriptor option" where
  "user_odsc max_ndim name ver sz n l u owner d =
     (if n < 0 \<or> n > int max_ndim then None
      else Some \<lparr>od_name = take (OD_NAME_SIZE - 1) name, od_st = d_default_st d, od_owner = owner, od_version = ver,
                 od_bb = \<lparr>num_dims = nat n, lb = (\<lambda>i. if i < nat n then l i else 0), ub = (\<lambda>i. if i < nat n then u i else 0)\<rparr>,
                 od_size = word_of_int sz\<rparr>)"

definition dimes_client_get ::
  "nat \<Rightarrow> string \<Rightarrow> u32 \<Rightarrow> int \<Rightarrow> int \<Rightarrow> coord \<Rightarrow> coord \<Rightarrow> (nat \<Rightarrow> byte) \<Rightarrow> dimes_event list \<Rightarrow> dimes_client \<Rightarrow>
     (int \<times> (nat \<Rightarrow> byte) \<times> dimes_client \<times> dimes_event list) option" where
  "dimes_client_get max_ndim name ver sz n l u dat evs d = do {
     odsc \<leftarrow> user_odsc max_ndim name ver sz n l u (- 1) d;
     let (rc, d) = d_attempt d;
     case obj_data_alloc_no_data (if rc = 0 then Some 0 else None) odsc dat of
       None \<Rightarrow> Some (- ENOMEM, dat, d, evs)
     | Some od \<Rightarrow> do {
         (err, od, d, evs) \<leftarrow> dimes_obj_get
           (od\<lparr>od_gdim := set_global_dimension (d_gdims d) name (c_default_gdim (d_dcg d))\<rparr>) evs d;
         Some (err, data od, d, evs)
       }
   }"

text \<open>malloc of the object is not checked. After a failure the memory is released, although servers may know it.\<close>

definition dimes_client_put ::
  "nat \<Rightarrow> string \<Rightarrow> u32 \<Rightarrow> int \<Rightarrow> int \<Rightarrow> coord \<Rightarrow> coord \<Rightarrow> (nat \<Rightarrow> byte) \<Rightarrow> dimes_client \<Rightarrow> (int \<times> dimes_client) option" where
  "dimes_client_put max_ndim name ver sz n l u dat d = do {
     odsc \<leftarrow> user_odsc max_ndim name ver sz n l u (c_id (d_dcg d)) d;
     let (rc, d) = d_attempt d;
     if rc \<noteq> 0 then None
     else do {
       let (i, d) = next_local_obj_index d;
       let (err, h, d) = dimes_memory_alloc (drh_garbage (d_rdma d) 2) (obj_data_size odsc) dart_memory_rdma d;
       if err < 0 then Some (err, d)
       else do {
         let d = d\<lparr>d_rdma := (d_rdma d)\<lparr>drh_mem := (drh_mem (d_rdma d))(fst (base_addr h) :=
                   memcpy (drh_mem (d_rdma d) (fst (base_addr h))) (unat (snd (base_addr h))) dat 0 (unat (obj_data_size odsc)))\<rparr>\<rparr>;
         (err, d) \<leftarrow> dimes_obj_put \<lparr>mo_id = \<lparr>dart_id = c_id (d_dcg d), local_obj_index = i\<rparr>, mo_desc = odsc,
                        mo_gdim = set_global_dimension (d_gdims d) name (c_default_gdim (d_dcg d)), mo_handle = h\<rparr> d;
         Some (if err < 0 then (err, snd (dimes_memory_free h d)) else (0, d))
       }
     }
   }"

definition dimes_client_put_sync_all :: "dimes_client \<Rightarrow> int \<times> dimes_client" where
  "dimes_client_put_sync_all d = (0, fold (\<lambda>p d. snd (storage_free_group p d)) (d_storage d) d)"

definition dimes_client_put_set_group :: "string option \<Rightarrow> dimes_client \<Rightarrow> int \<times> dimes_client" where
  "dimes_client_put_set_group name d = (0, update_current_group_name name d)"

definition dimes_client_put_unset_group :: "dimes_client \<Rightarrow> int \<times> dimes_client" where
  "dimes_client_put_unset_group d = (0, update_current_group_name (Some default_group_name) d)"

definition dimes_client_put_sync_group :: "string \<Rightarrow> dimes_client \<Rightarrow> int \<times> dimes_client" where
  "dimes_client_put_sync_group name d =
     (case storage_lookup_group name d of None \<Rightarrow> (0, d) | Some g \<Rightarrow> storage_free_group g d)"

subsection \<open>Start and end\<close>

text \<open>
  \<open>DIMES_RDMA_BUFFER_SIZE\<close> (megabytes) and \<open>DIMES_RDMA_MAX_NUM_CONCURRENT_READ\<close> are chosen at configuration;
  \<open>d0\<close> holds the static variables. calloc and malloc are not checked.
\<close>

definition dimes_client_alloc :: "u64 \<Rightarrow> int \<Rightarrow> dcg_space option \<Rightarrow> dimes_client \<Rightarrow> dimes_client option option" where
  "dimes_client_alloc buffer_size max_read ptr d0 =
     (case ptr of
        None \<Rightarrow> Some None
      | Some dcg \<Rightarrow>
          let (rc, d) = d_attempt (d0\<lparr>d_dcg := dcg, rdma_buffer_size := buffer_size * 1024 * 1024, rdma_buffer_usage := 0,
                max_num_concurrent_rdma_read_op := max_read, d_qt := [], d_qt_num := 0, d_sent := []\<rparr>)
          in if rc \<noteq> 0 then None
             else if \<not> c_f_ss_info dcg then Some None
             else do {
               (err, d) \<leftarrow> init_sspace_dimes d;
               if err < 0 then Some None
               else do {
                 (_, r) \<leftarrow> dart_rdma_init (c_id dcg) (d_rdma d);
                 Some (Some ((storage_init d)\<lparr>d_rdma := r, d_gdims := []\<rparr>))
               }
             })"

definition dimes_client_free :: "dimes_client \<Rightarrow> dimes_client" where
  "dimes_client_free d = storage_free (free_sspace_dimes (d\<lparr>d_gdims := []\<rparr>))"

end
