(* ===== verification/DS_Transfer.thy ===== *)
theory DS_Transfer
  imports DS_Dimes
begin

text \<open>
  The get of a DIMES client (\<open>dimes_fetch_data\<close>, \<open>dimes_obj_get\<close> in src/src/dimes_client.c): the fetch loops end,
  for every order in which reads complete, and every cell of a located part has its data.
\<close>

subsection \<open>Frames\<close>

text \<open>Nothing fails, and the adapter completes what is posted.\<close>

definition dimes_env :: "dimes_client \<Rightarrow> bool" where
  "dimes_env d \<longleftrightarrow> c_rc (d_dcg d) = (\<lambda>_. 0) \<and> drh_init (d_rdma d) \<and> (\<forall>k. drh_rc (d_rdma d) k = 0) \<and>
     cq_ok (d_rdma d) \<and> 0 < drh_num_buf (d_rdma d) \<and> drh_self (d_rdma d) = c_id (d_dcg d) \<and>
     0 < max_num_concurrent_rdma_read_op d \<and> \<not> rdma_error_flag (d_rdma d)"

text \<open>A step may change transactions in \<open>I\<close> and blocks from \<open>n\<close> on, and keeps what the others depend on.\<close>

definition step_frame :: "int set \<Rightarrow> nat \<Rightarrow> dimes_client \<Rightarrow> dimes_client \<Rightarrow> bool" where
  "step_frame I n d d' \<longleftrightarrow> c_rc (d_dcg d') = c_rc (d_dcg d) \<and> c_id (d_dcg d') = c_id (d_dcg d) \<and>
     c_max_versions (d_dcg d') = c_max_versions (d_dcg d) \<and> d_storage d' = d_storage d \<and>
     rdma_buffer_size d' = rdma_buffer_size d \<and> max_num_concurrent_rdma_read_op d' = max_num_concurrent_rdma_read_op d \<and>
     d_bb0 d' = d_bb0 d \<and> d_sent d' = d_sent d \<and> rdma_error_flag (d_rdma d') = rdma_error_flag (d_rdma d) \<and>
     drh_init (d_rdma d') = drh_init (d_rdma d) \<and> drh_self (d_rdma d') = drh_self (d_rdma d) \<and>
     drh_num_buf (d_rdma d') = drh_num_buf (d_rdma d) \<and> drh_net (d_rdma d') = drh_net (d_rdma d) \<and>
     drh_rc (d_rdma d') = drh_rc (d_rdma d) \<and> drh_cq (d_rdma d') = drh_cq (d_rdma d) \<and>
     drh_brk (d_rdma d) \<le> drh_brk (d_rdma d') \<and> (\<forall>b<n. drh_mem (d_rdma d') b = drh_mem (d_rdma d) b) \<and>
     (\<forall>i. i \<notin> I \<longrightarrow> dart_rdma_find_read_tran i (d_rdma d') = dart_rdma_find_read_tran i (d_rdma d))"

lemma step_frame_refl: "step_frame I n d d"
  by (simp add: step_frame_def)

lemma step_frame_trans: "step_frame I n d d1 \<Longrightarrow> step_frame I n d1 d2 \<Longrightarrow> step_frame I n d d2"
  by (simp add: step_frame_def)

lemma step_frame_mono: "step_frame I n d d' \<Longrightarrow> I \<subseteq> J \<Longrightarrow> step_frame J n d d'"
  unfolding step_frame_def by (elim conjE, intro conjI) blast+

lemma step_frame_sel:
  assumes "step_frame I n d d'"
  shows "dimes_env d' = dimes_env d" "c_id (d_dcg d') = c_id (d_dcg d)" "d_bb0 d' = d_bb0 d" "d_storage d' = d_storage d"
    "c_max_versions (d_dcg d') = c_max_versions (d_dcg d)" "drh_net (d_rdma d') = drh_net (d_rdma d)"
    "drh_brk (d_rdma d) \<le> drh_brk (d_rdma d')" "rdma_buffer_size d' = rdma_buffer_size d"
    "b < n \<Longrightarrow> drh_mem (d_rdma d') b = drh_mem (d_rdma d) b"
    "i \<notin> I \<Longrightarrow> dart_rdma_find_read_tran i (d_rdma d') = dart_rdma_find_read_tran i (d_rdma d)"
    "storage_lookup_obj oid v d' = storage_lookup_obj oid v d"
    "max_num_concurrent_rdma_read_op d' = max_num_concurrent_rdma_read_op d" "d_sent d' = d_sent d"
  using assms by (auto simp: step_frame_def dimes_env_def cq_ok_def storage_lookup_obj_def Let_def)

text \<open>The object of the query.\<close>

definition holds_od :: "int \<Rightarrow> obj_data \<Rightarrow> dimes_client \<Rightarrow> bool" where
  "holds_od q od d \<longleftrightarrow> map_option data_ref (qt_find_d d q) = Some od"

lemma qt_find_set_d:
  assumes "\<And>e. qd_id (f e) = qd_id e"
  shows "qt_find_d (qt_set_d q f d) q' = (if q' = q then map_option f (qt_find_d d q') else qt_find_d d q')"
proof -
  have "find (\<lambda>e. qd_id e = q') (map (\<lambda>e. if qd_id e = q then f e else e) es) =
      (if q' = q then map_option f (find (\<lambda>e. qd_id e = q') es) else find (\<lambda>e. qd_id e = q') es)" for es
    using assms by (induction es) auto
  then show ?thesis by (simp add: qt_find_d_def qt_set_d_def)
qed

lemma qt_set_d_sel [simp]:
  "d_dcg (qt_set_d q f d) = d_dcg d" "d_rdma (qt_set_d q f d) = d_rdma d" "d_storage (qt_set_d q f d) = d_storage d"
  "rdma_buffer_size (qt_set_d q f d) = rdma_buffer_size d" "rdma_buffer_usage (qt_set_d q f d) = rdma_buffer_usage d"
  "max_num_concurrent_rdma_read_op (qt_set_d q f d) = max_num_concurrent_rdma_read_op d" "d_bb0 (qt_set_d q f d) = d_bb0 d"
  "d_sent (qt_set_d q f d) = d_sent d"
  by (simp_all add: qt_set_d_def)

lemma d_attempt_ok: "dimes_env d \<Longrightarrow> d_attempt d = (0, d\<lparr>d_dcg := (d_dcg d)\<lparr>c_calls := c_calls (d_dcg d) + 1\<rparr>\<rparr>)"
  by (simp add: d_attempt_def c_attempt_def dimes_env_def)

lemma holds_od_cong: "d_qt d' = d_qt d \<Longrightarrow> holds_od q od d' = holds_od q od d"
  by (simp add: holds_od_def qt_find_d_def)

subsection \<open>Parts\<close>

text \<open>The data \<open>G\<close> of a block are those of the object \<open>odsc\<close>, as far as the cells of \<open>bb\<close> are concerned.\<close>

definition has_cells :: "(coord \<Rightarrow> nat \<Rightarrow> byte) \<Rightarrow> obj_descriptor \<Rightarrow> bbox \<Rightarrow> (nat \<Rightarrow> byte) \<Rightarrow> bool" where
  "has_cells F odsc bb G \<longleftrightarrow> (\<forall>x t. in_bbox bb x \<and> t < unat (od_size odsc) \<longrightarrow>
     G (unat (od_size odsc) * cell_index (od_bb odsc) x + t) = F x t)"

text \<open>The cells that the parts in \<open>S\<close> cover have their data in \<open>od\<close>, the others are as in \<open>od0\<close>.\<close>

definition progress :: "(coord \<Rightarrow> nat \<Rightarrow> byte) \<Rightarrow> obj_data \<Rightarrow> fetch_entry set \<Rightarrow> obj_data \<Rightarrow> bool" where
  "progress F od0 S od \<longleftrightarrow> (\<exists>A. od = od0\<lparr>data := A\<rparr>) \<and>
     (\<forall>x t. in_bbox (od_bb (obj_desc od0)) x \<and> t < unat (od_size (obj_desc od0)) \<longrightarrow>
        cell_byte od x t = (if \<exists>f\<in>S. in_bbox (od_bb (dst_odsc f)) x then F x t else cell_byte od0 x t))"

text \<open>A part of the query: a piece of the object of its owner that the object of the query can take.\<close>

definition query_part :: "obj_descriptor \<Rightarrow> fetch_entry \<Rightarrow> bool" where
  "query_part q f \<longleftrightarrow> part_of (src_odsc f) (dst_odsc f) \<and> num_dims (od_bb q) = num_dims (od_bb (dst_odsc f)) \<and>
     od_size (dst_odsc f) = od_size q \<and> obj_fits (od_bb q) (unat (od_size q)) \<and>
     bbox_does_intersect (od_bb q) (od_bb (dst_odsc f))"

lemma query_part_compat:
  assumes "query_part (obj_desc od) f"
  shows "copy_compat od \<lparr>od_addr = a, obj_desc = dst_odsc f, od_gdim = g, data = A, own_data = w, obj_ref = r, refcnt = c, f_free = z\<rparr>"
  using assms by (auto simp: copy_compat_def query_part_def part_of_def Let_def)

lemma progress_assemble:
  assumes "progress F od0 S od" "query_part (obj_desc od0) f" "has_cells F (dst_odsc f) (od_bb (dst_odsc f)) G"
    and "from' = \<lparr>od_addr = a, obj_desc = dst_odsc f, od_gdim = g, data = G, own_data = w, obj_ref = r, refcnt = c, f_free = z\<rparr>"
  shows "\<exists>od'. ssd_copy b0 od from' = Some od' \<and> progress F od0 (insert f S) od'"
proof -
  obtain A where od: "od = od0\<lparr>data := A\<rparr>" using assms(1) by (auto simp: progress_def)
  have c: "copy_compat od from'" using query_part_compat [of od f] assms(2,4) by (simp add: od)
  obtain A' where A': "ssd_copy b0 od from' = Some (od\<lparr>data := A'\<rparr>)"
    "\<forall>x t. in_bbox (od_bb (obj_desc od)) x \<and> t < unat (od_size (obj_desc od)) \<longrightarrow>
       cell_byte (od\<lparr>data := A'\<rparr>) x t = (if in_bbox (od_bb (obj_desc from')) x then cell_byte from' x t else cell_byte od x t)"
    using ssd_copy_cells [OF c] by blast
  have G: "cell_byte from' x t = F x t" if "in_bbox (od_bb (dst_odsc f)) x" "t < unat (od_size (obj_desc od0))" for x t
    using assms(2,3) that unfolding has_cells_def assms(4) cell_byte_def query_part_def by simp
  have "cell_byte (od\<lparr>data := A'\<rparr>) x t = (if \<exists>f\<in>insert f S. in_bbox (od_bb (dst_odsc f)) x then F x t else cell_byte od0 x t)"
    if "in_bbox (od_bb (obj_desc od0)) x" "t < unat (od_size (obj_desc od0))" for x t
  proof -
    have "cell_byte (od\<lparr>data := A'\<rparr>) x t = (if in_bbox (od_bb (dst_odsc f)) x then cell_byte from' x t else cell_byte od x t)"
      using A'(2) that by (simp add: od assms(4))
    moreover have "cell_byte od x t = (if \<exists>f\<in>S. in_bbox (od_bb (dst_odsc f)) x then F x t else cell_byte od0 x t)"
      using assms(1) that by (simp add: progress_def)
    ultimately show ?thesis using G that(2) by simp
  qed
  then show ?thesis using A'(1) by (auto simp: progress_def od)
qed

text \<open>A set of reads that is exact moves the data of the part.\<close>

lemma plan_exact_cells:
  assumes "part_of sd dd" "plan_exact sd dd (set R)" "has_cells F sd (od_bb dd) B"
  shows "has_cells F dd (od_bb dd) (fold (op_apply B) R A)"
proof -
  let ?g = "od_bb dd" and ?f = "od_bb sd" and ?se = "unat (od_size dd)"
  note P = part_ofD [OF assms(1)]
  have inj: "cell_index ?f x = cell_index ?f y" if "in_bbox ?g x" "in_bbox ?g y" "cell_index ?g x = cell_index ?g y" for x y
  proof -
    have e: "x i = y i" if "i < num_dims ?f" for i
      by (rule cell_index_inj [OF P(1)]) (use \<open>in_bbox ?g x\<close> \<open>in_bbox ?g y\<close> \<open>cell_index ?g x = cell_index ?g y\<close> that P(3) in simp_all)
    show ?thesis unfolding cell_index_def by (rule mindex_cong) (simp only: e)
  qed
  have "copied ?se {x. in_bbox ?g x} (cell_index ?g) (cell_index ?f) B A (fold (op_apply B) R A)"
    by (rule reads_exact_copied [OF assms(2) [unfolded plan_exact_def]]) (rule inj, simp_all)
  then show ?thesis using assms(3) P(4) unfolding has_cells_def copied_def by simp
qed

subsection \<open>Single steps\<close>

abbreviation find_tran :: "fetch_entry \<Rightarrow> dimes_client \<Rightarrow> dart_rdma_tran option" where
  "find_tran f d \<equiv> dart_rdma_find_read_tran (fe_tran f) (d_rdma d)"

abbreviation part_bytes :: "fetch_entry \<Rightarrow> nat" where
  "part_bytes f \<equiv> unat (obj_data_size (dst_odsc f))"

lemma find_tran_cong: "read_tran_list r' = read_tran_list r \<Longrightarrow> dart_rdma_find_read_tran i r' = dart_rdma_find_read_tran i r"
  by (simp add: dart_rdma_find_read_tran_def)

lemma find_tran_fields [simp]:
  "dart_rdma_find_read_tran i (r\<lparr>drh_calls := c\<rparr>) = dart_rdma_find_read_tran i r"
  "dart_rdma_find_read_tran i (r\<lparr>drh_brk := b\<rparr>) = dart_rdma_find_read_tran i r"
  "dart_rdma_find_read_tran i (r\<lparr>drh_polls := p\<rparr>) = dart_rdma_find_read_tran i r"
  "dart_rdma_find_read_tran i (r\<lparr>drh_mem := m\<rparr>) = dart_rdma_find_read_tran i r"
  by (simp_all add: dart_rdma_find_read_tran_def)

lemma step_frame_rdma:
  assumes "drh_init r = drh_init (d_rdma d)" "drh_self r = drh_self (d_rdma d)" "drh_num_buf r = drh_num_buf (d_rdma d)"
    "rdma_error_flag r = rdma_error_flag (d_rdma d)"
    "drh_net r = drh_net (d_rdma d)" "drh_rc r = drh_rc (d_rdma d)" "drh_cq r = drh_cq (d_rdma d)" "drh_brk (d_rdma d) \<le> drh_brk r"
    "\<And>b. b < n \<Longrightarrow> drh_mem r b = drh_mem (d_rdma d) b"
    "\<And>i. i \<notin> I \<Longrightarrow> dart_rdma_find_read_tran i r = dart_rdma_find_read_tran i (d_rdma d)"
  shows "step_frame I n d (d\<lparr>d_rdma := r\<rparr>)" "step_frame I n d (d\<lparr>rdma_buffer_usage := u, d_rdma := r\<rparr>)"
  using assms by (simp_all add: step_frame_def)

definition dst_ready :: "nat \<Rightarrow> fetch_entry \<Rightarrow> dart_rdma_tran \<Rightarrow> bool" where
  "dst_ready n f t \<longleftrightarrow> (\<exists>b\<ge>n. mh_mr (tr_dst t) = (b, 0) \<and> base_addr (tr_dst t) = (b, 0)) \<and>
     mem_type (tr_dst t) = dart_memory_rdma \<and> mh_size (tr_dst t) = obj_data_size (dst_odsc f)"

lemma available_nat:
  assumes "unat (rdma_buffer_usage d) + part_bytes f \<le> unat (rdma_buffer_size d)"
  shows "obj_data_size (dst_odsc f) \<le> get_available_rdma_buffer_size d"
proof -
  have le: "rdma_buffer_usage d \<le> rdma_buffer_size d" using assms by (simp add: u64_le_nat)
  have "obj_data_size (dst_odsc f) \<le> rdma_buffer_size d - rdma_buffer_usage d"
    unfolding u64_le_nat unat_diff_u64 [OF le] using assms by simp
  then show ?thesis using le by (simp add: get_available_rdma_buffer_size_def not_less [symmetric])
qed

lemma fetch_alloc_ok:
  assumes "dimes_env d" "find_tran f d = Some t" "n \<le> drh_brk (d_rdma d)"
    and "unat (rdma_buffer_usage d) + part_bytes f \<le> unat (rdma_buffer_size d)"
  shows "\<exists>d' h. fetch_alloc f dart_memory_rdma d = Some (0, d') \<and> step_frame {fe_tran f} n d d' \<and> d_qt d' = d_qt d \<and>
    find_tran f d' = Some (t\<lparr>tr_dst := h\<rparr>) \<and> dst_ready n f (t\<lparr>tr_dst := h\<rparr>) \<and>
    unat (rdma_buffer_usage d') = unat (rdma_buffer_usage d) + part_bytes f"
proof -
  let ?r = "d_rdma d" and ?s = "obj_data_size (dst_odsc f)"
  let ?b = "(drh_brk ?r, 0 :: u64)"
  let ?h = "(tr_dst t)\<lparr>mem_type := dart_memory_rdma, mh_mr := ?b, mh_size := ?s, base_addr := ?b\<rparr>"
  let ?r' = "update_tran (fe_tran f) (\<lambda>t. t\<lparr>tr_dst := ?h\<rparr>) (?r\<lparr>drh_brk := drh_brk ?r + 1, drh_calls := drh_calls ?r + 2\<rparr>)"
  let ?d' = "d\<lparr>rdma_buffer_usage := rdma_buffer_usage d + ?s, d_rdma := ?r'\<rparr>"
  have a: "\<not> get_available_rdma_buffer_size d < ?s" using available_nat [OF assms(4)] by simp
  have "fetch_alloc f dart_memory_rdma d = Some (0, ?d')"
    using assms(1,2) a
    by (simp add: fetch_alloc_def dimes_memory_alloc_def dart_rdma_register_mem_def rdma_attempt_def new_block_def dimes_env_def)
  moreover have "step_frame {fe_tran f} n d ?d'"
    by (rule step_frame_rdma) (simp_all add: find_update_tran)
  moreover have "find_tran f ?d' = Some (t\<lparr>tr_dst := ?h\<rparr>)" using assms(2) by (simp add: find_update_tran)
  moreover have "unat (rdma_buffer_usage d + ?s) = unat (rdma_buffer_usage d) + part_bytes f"
    using assms(4) u64_less_max [of "rdma_buffer_size d"] by (intro unat_add_u64) simp
  ultimately show ?thesis
    using assms(3) by (intro exI [of _ ?d'] exI [of _ ?h]) (simp add: dst_ready_def)
qed

lemma fetch_alloc_local_ok:
  assumes "dimes_env d" "find_tran f d = Some t" "n \<le> drh_brk (d_rdma d)"
  shows "\<exists>d' h. fetch_alloc f dart_memory_non_rdma d = Some (0, d') \<and> step_frame {fe_tran f} n d d' \<and> d_qt d' = d_qt d \<and>
    find_tran f d' = Some (t\<lparr>tr_dst := h\<rparr>) \<and> base_addr h = (drh_brk (d_rdma d), 0) \<and> mem_type h = dart_memory_non_rdma \<and>
    rdma_buffer_usage d' = rdma_buffer_usage d"
proof -
  let ?r = "d_rdma d" and ?s = "obj_data_size (dst_odsc f)"
  let ?b = "(drh_brk ?r, 0 :: u64)"
  let ?h = "(tr_dst t)\<lparr>mem_type := dart_memory_non_rdma, base_addr := ?b, mh_size := ?s\<rparr>"
  let ?r' = "update_tran (fe_tran f) (\<lambda>t. t\<lparr>tr_dst := ?h\<rparr>) (?r\<lparr>drh_calls := drh_calls ?r + 1, drh_brk := drh_brk ?r + 1\<rparr>)"
  let ?d' = "d\<lparr>d_rdma := ?r'\<rparr>"
  have "fetch_alloc f dart_memory_non_rdma d = Some (0, ?d')"
    using assms(1,2) by (simp add: fetch_alloc_def dimes_memory_alloc_def rdma_attempt_def new_block_def dimes_env_def)
  moreover have "step_frame {fe_tran f} n d ?d'"
    by (rule step_frame_rdma) (simp_all add: find_update_tran)
  moreover have "find_tran f ?d' = Some (t\<lparr>tr_dst := ?h\<rparr>)" using assms(2) by (simp add: find_update_tran)
  ultimately show ?thesis by (intro exI [of _ ?d'] exI [of _ ?h]) simp
qed

lemma fetch_free_ok:
  assumes "dimes_env d" "find_tran f d = Some t" "dst_ready n f t" "part_bytes f \<le> unat (rdma_buffer_usage d)"
  shows "\<exists>d'. fetch_free f d = Some (0, d') \<and> step_frame {} n d d' \<and> d_qt d' = d_qt d \<and>
    unat (rdma_buffer_usage d') + part_bytes f = unat (rdma_buffer_usage d)"
proof -
  let ?d' = "d\<lparr>rdma_buffer_usage := rdma_buffer_usage d - obj_data_size (dst_odsc f),
    d_rdma := (d_rdma d)\<lparr>drh_calls := drh_calls (d_rdma d) + 1\<rparr>\<rparr>"
  have "fetch_free f d = Some (0, ?d')"
    using assms(1-3) by (simp add: fetch_free_def dimes_memory_free_def dart_rdma_deregister_mem_def rdma_attempt_def dst_ready_def dimes_env_def)
  moreover have "step_frame {} n d ?d'" by (rule step_frame_rdma) simp_all
  moreover have "unat (rdma_buffer_usage d - obj_data_size (dst_odsc f)) + part_bytes f = unat (rdma_buffer_usage d)"
    using assms(4) by (simp add: unat_diff_u64 u64_le_nat)
  ultimately show ?thesis by (intro exI [of _ ?d']) simp
qed

lemma assemble_ok:
  assumes "dimes_env d" "find_tran f d = Some t" "base_addr (tr_dst t) = (b, 0)" "holds_od q od d" "progress F od0 S od"
    and "query_part (obj_desc od0) f" "has_cells F (dst_odsc f) (od_bb (dst_odsc f)) (drh_mem (d_rdma d) b)"
  shows "\<exists>d' od'. obj_assemble q f d = Some d' \<and> step_frame {} n d d' \<and> holds_od q od' d' \<and> progress F od0 (insert f S) od' \<and>
    d_rdma d' = d_rdma d \<and> rdma_buffer_usage d' = rdma_buffer_usage d"
proof -
  let ?d1 = "d\<lparr>d_dcg := (d_dcg d)\<lparr>c_calls := c_calls (d_dcg d) + 1\<rparr>\<rparr>"
  let ?from = "\<lparr>od_addr = 0, obj_desc = dst_odsc f, od_gdim = gdim_zero, data = drh_mem (d_rdma d) b, own_data = False,
    obj_ref = None, refcnt = 0, f_free = False\<rparr>"
  obtain e where e: "qt_find_d d q = Some e" "data_ref e = od" using assms(4) by (auto simp: holds_od_def)
  obtain od' where od': "ssd_copy (d_bb0 d) od ?from = Some od'" "progress F od0 (insert f S) od'"
    using progress_assemble [OF assms(5-7) refl] by blast
  let ?d' = "qt_set_d q (\<lambda>e. e\<lparr>data_ref := od'\<rparr>) ?d1"
  have f1: "qt_find_d ?d1 q = Some e" using e(1) by (simp add: qt_find_d_def)
  have "obj_assemble q f d = Some ?d'"
    using assms(2,3) e(2) od'(1) f1 by (simp add: obj_assemble_def d_attempt_ok [OF assms(1)] obj_data_alloc_no_data_def)
  moreover have "step_frame {} n d ?d'" by (simp add: step_frame_def)
  moreover have "holds_od q od' ?d'" using f1 by (simp add: holds_od_def qt_find_set_d)
  ultimately show ?thesis using od'(2) by (intro exI [of _ ?d'] exI [of _ od']) simp
qed

subsection \<open>Reads of one part\<close>

definition remote_source :: "(coord \<Rightarrow> nat \<Rightarrow> byte) \<Rightarrow> dimes_client \<Rightarrow> fetch_entry \<Rightarrow> dart_rdma_tran \<Rightarrow> bool" where
  "remote_source F d f t \<longleftrightarrow> remote_peer t = od_owner (src_odsc f) \<and> od_owner (src_odsc f) \<noteq> c_id (d_dcg d) \<and>
     (\<exists>b. mh_mr (tr_src t) = (b, 0) \<and>
        has_cells F (src_odsc f) (od_bb (dst_odsc f)) (drh_net (d_rdma d) (od_owner (src_odsc f)) b))"

definition planned :: "(coord \<Rightarrow> nat \<Rightarrow> byte) \<Rightarrow> dimes_client \<Rightarrow> fetch_entry \<Rightarrow> dart_rdma_tran \<Rightarrow> bool" where
  "planned F d f t \<longleftrightarrow> find_tran f d = Some t \<and> remote_source F d f t \<and> distinct (read_ops_list t) \<and>
     plan_exact (src_odsc f) (dst_odsc f) (set (read_ops_list t))"

text \<open>The transaction of a part.\<close>

definition part_tran :: "dimes_client \<Rightarrow> fetch_entry \<Rightarrow> bool" where
  "part_tran d f \<longleftrightarrow> (\<exists>t. find_tran f d = Some t \<and> remote_peer t = od_owner (src_odsc f))"

lemma part_tran_frame: "step_frame I n d d' \<Longrightarrow> fe_tran f \<notin> I \<Longrightarrow> part_tran d' f = part_tran d f"
  by (simp add: part_tran_def step_frame_sel)

lemma remote_source_frame: "step_frame I n d d' \<Longrightarrow> remote_source F d' f t = remote_source F d f t"
  by (simp add: remote_source_def step_frame_sel)

lemma planned_frame: "step_frame I n d d' \<Longrightarrow> fe_tran f \<notin> I \<Longrightarrow> planned F d' f = planned F d f"
  by (simp add: planned_def remote_source_frame step_frame_sel fun_eq_iff)

lemma check_ok:
  assumes "dimes_env d" "planned F d f t" "mh_mr (tr_dst t) = (b, 0)" "n \<le> b" "part_of (src_odsc f) (dst_odsc f)"
  shows "\<exists>r. dart_rdma_check_reads (fe_tran f) (d_rdma d) = Some (True, r) \<and> step_frame {fe_tran f} n d (d\<lparr>d_rdma := r\<rparr>) \<and>
    dart_rdma_find_read_tran (fe_tran f) r = Some (t\<lparr>read_ops_list := []\<rparr>) \<and>
    has_cells F (dst_odsc f) (od_bb (dst_odsc f)) (drh_mem r b)"
proof -
  let ?r = "d_rdma d"
  have P: "find_tran f d = Some t" "remote_source F d f t" "distinct (read_ops_list t)"
    "plan_exact (src_odsc f) (dst_odsc f) (set (read_ops_list t))"
    using assms(2) by (auto simp: planned_def)
  have E: "cq_ok ?r" "0 < drh_num_buf ?r" "\<forall>k. drh_rc ?r k = 0" "drh_init ?r" using assms(1) by (auto simp: dimes_env_def)
  obtain R c k where R: "set R = set (read_ops_list t)"
    "dart_rdma_check_reads (fe_tran f) ?r = Some (True, update_tran (fe_tran f) (\<lambda>t. t\<lparr>read_ops_list := []\<rparr>)
       (?r\<lparr>drh_calls := c, drh_polls := k, drh_mem := fold (remote_op (drh_net ?r) t) R (drh_mem ?r)\<rparr>))"
    by (rule check_reads_complete [OF E P(1,3)]) (rule that)
  obtain bs where bs: "mh_mr (tr_src t) = (bs, 0)"
    "has_cells F (src_odsc f) (od_bb (dst_odsc f)) (drh_net ?r (remote_peer t) bs)"
    using P(2) by (auto simp: remote_source_def)
  have m: "fold (remote_op (drh_net ?r) t) R (drh_mem ?r) =
      (drh_mem ?r)(b := fold (op_apply (drh_net ?r (remote_peer t) bs)) R (drh_mem ?r b))"
    by (rule fold_remote_op [OF assms(3) bs(1)])
  let ?r' = "update_tran (fe_tran f) (\<lambda>t. t\<lparr>read_ops_list := []\<rparr>)
    (?r\<lparr>drh_calls := c, drh_polls := k, drh_mem := fold (remote_op (drh_net ?r) t) R (drh_mem ?r)\<rparr>)"
  have "step_frame {fe_tran f} n d (d\<lparr>d_rdma := ?r'\<rparr>)"
    by (rule step_frame_rdma) (use assms(4) in \<open>simp_all add: m find_update_tran\<close>)
  moreover have "dart_rdma_find_read_tran (fe_tran f) ?r' = Some (t\<lparr>read_ops_list := []\<rparr>)"
    using P(1) by (simp add: find_update_tran)
  moreover have "has_cells F (dst_odsc f) (od_bb (dst_odsc f)) (drh_mem ?r' b)"
    using plan_exact_cells [OF assms(5) _ bs(2), of R] P(4) R(1) by (simp add: m)
  ultimately show ?thesis using R(2) by (intro exI [of _ ?r']) simp
qed

lemma complete_one:
  assumes "dimes_env d" "planned F d f t" "dst_ready n f t" "query_part (obj_desc od0) f" "holds_od q od d" "progress F od0 S od"
    and "part_bytes f \<le> unat (rdma_buffer_usage d)"
  shows "\<exists>r d1 d2 od'. dart_rdma_check_reads (fe_tran f) (d_rdma d) = Some (True, r) \<and>
    obj_assemble q f (d\<lparr>d_rdma := r\<rparr>) = Some d1 \<and> fetch_free f d1 = Some (0, d2) \<and> step_frame {fe_tran f} n d d2 \<and>
    holds_od q od' d2 \<and> progress F od0 (insert f S) od' \<and>
    unat (rdma_buffer_usage d2) + part_bytes f = unat (rdma_buffer_usage d) \<and> part_tran d2 f"
proof -
  obtain b where b: "n \<le> b" "mh_mr (tr_dst t) = (b, 0)" "base_addr (tr_dst t) = (b, 0)" using assms(3) by (auto simp: dst_ready_def)
  have part: "part_of (src_odsc f) (dst_odsc f)" using assms(4) by (simp add: query_part_def)
  obtain r where r: "dart_rdma_check_reads (fe_tran f) (d_rdma d) = Some (True, r)" "step_frame {fe_tran f} n d (d\<lparr>d_rdma := r\<rparr>)"
    "dart_rdma_find_read_tran (fe_tran f) r = Some (t\<lparr>read_ops_list := []\<rparr>)"
    "has_cells F (dst_odsc f) (od_bb (dst_odsc f)) (drh_mem r b)"
    using check_ok [OF assms(1,2) b(2,1) part] by blast
  let ?d = "d\<lparr>d_rdma := r\<rparr>"
  have env: "dimes_env ?d" using step_frame_sel(1) [OF r(2)] assms(1) by simp
  have ft: "find_tran f ?d = Some (t\<lparr>read_ops_list := []\<rparr>)" using r(3) by simp
  have base: "base_addr (tr_dst (t\<lparr>read_ops_list := []\<rparr>)) = (b, 0)" using b(3) by simp
  have hod: "holds_od q od ?d" using assms(5) holds_od_cong [of ?d d q od] by simp
  have hc: "has_cells F (dst_odsc f) (od_bb (dst_odsc f)) (drh_mem (d_rdma ?d) b)" using r(4) by simp
  obtain d1 od' where d1: "obj_assemble q f ?d = Some d1" "step_frame {} n ?d d1" "holds_od q od' d1" "progress F od0 (insert f S) od'"
    "d_rdma d1 = r" "rdma_buffer_usage d1 = rdma_buffer_usage d"
    using assemble_ok [OF env ft base hod assms(6,4) hc, of n] by auto
  have env1: "dimes_env d1" using step_frame_sel(1) [OF d1(2)] env by simp
  have ft1: "find_tran f d1 = Some (t\<lparr>read_ops_list := []\<rparr>)" using d1(5) r(3) by simp
  have rdy: "dst_ready n f (t\<lparr>read_ops_list := []\<rparr>)" using assms(3) by (simp add: dst_ready_def)
  have us: "part_bytes f \<le> unat (rdma_buffer_usage d1)" using d1(6) assms(7) by simp
  obtain d2 where d2: "fetch_free f d1 = Some (0, d2)" "step_frame {} n d1 d2" "d_qt d2 = d_qt d1"
    "unat (rdma_buffer_usage d2) + part_bytes f = unat (rdma_buffer_usage d1)"
    using fetch_free_ok [OF env1 ft1 rdy us] by blast
  have "step_frame {fe_tran f} n d d2"
    by (rule step_frame_trans [OF r(2) step_frame_mono [OF step_frame_trans [OF d1(2) d2(2)]]]) simp
  moreover have "holds_od q od' d2" unfolding holds_od_cong [OF d2(3)] by (rule d1(3))
  moreover have "unat (rdma_buffer_usage d2) + part_bytes f = unat (rdma_buffer_usage d)" using d2(4) d1(6) by simp
  moreover have "part_tran d2 f"
    using part_tran_frame [OF d2(2), of f] ft1 assms(2) by (simp add: part_tran_def planned_def remote_source_def)
  ultimately show ?thesis using r(1) d1(1,4) d2(1) by blast
qed

subsection \<open>The table of contiguous parts\<close>

definition fetch_state :: "(coord \<Rightarrow> nat \<Rightarrow> byte) \<Rightarrow> nat \<Rightarrow> dimes_client \<Rightarrow> fetch_status \<Rightarrow> fetch_entry \<Rightarrow> bool" where
  "fetch_state F n d s f = (case s of
     fetch_ready \<Rightarrow> \<exists>t. planned F d f t
   | fetch_posted \<Rightarrow> \<exists>t. planned F d f t \<and> dst_ready n f t
   | fetch_done \<Rightarrow> part_tran d f)"

abbreviation done_parts :: "fetch_entry list \<Rightarrow> fetch_status list \<Rightarrow> fetch_entry set" where
  "done_parts tab st \<equiv> {tab ! i | i. i < length tab \<and> st ! i = fetch_done}"

abbreviation posted_bytes :: "fetch_entry list \<Rightarrow> fetch_status list \<Rightarrow> nat" where
  "posted_bytes tab st \<equiv> (\<Sum>i<length tab. if st ! i = fetch_posted then part_bytes (tab ! i) else 0)"

text \<open>\<open>u\<close> bytes of the buffer hold other data.\<close>

definition tab_inv ::
  "(coord \<Rightarrow> nat \<Rightarrow> byte) \<Rightarrow> obj_data \<Rightarrow> nat \<Rightarrow> nat \<Rightarrow> int \<Rightarrow> fetch_entry list \<Rightarrow> fetch_status list \<Rightarrow> dimes_client \<Rightarrow> bool" where
  "tab_inv F od0 n u q tab st d \<longleftrightarrow> dimes_env d \<and> n \<le> drh_brk (d_rdma d) \<and> length st = length tab \<and> distinct (map fe_tran tab) \<and>
     (\<exists>od. holds_od q od d \<and> progress F od0 (done_parts tab st) od) \<and>
     (\<forall>i<length tab. query_part (obj_desc od0) (tab ! i) \<and> fetch_state F n d (st ! i) (tab ! i)) \<and>
     unat (rdma_buffer_usage d) = u + posted_bytes tab st \<and>
     u + (\<Sum>i<length tab. part_bytes (tab ! i)) \<le> unat (rdma_buffer_size d)"

lemma fetch_state_frame:
  "step_frame I n d d' \<Longrightarrow> fe_tran f \<notin> I \<Longrightarrow> fetch_state F n d' s f = fetch_state F n d s f"
  by (simp add: fetch_state_def planned_frame part_tran_frame split: fetch_status.split)

lemma posted_bytes_update:
  assumes "i < length tab" "length st = length tab"
  shows "posted_bytes tab (st[i := s]) + (if st ! i = fetch_posted then part_bytes (tab ! i) else 0) =
    posted_bytes tab st + (if s = fetch_posted then part_bytes (tab ! i) else 0)"
proof -
  let ?w = "\<lambda>st j. if st ! j = fetch_posted then part_bytes (tab ! j) else 0"
  have "(\<Sum>j\<in>{..<length tab} - {i}. ?w (st[i := s]) j) = (\<Sum>j\<in>{..<length tab} - {i}. ?w st j)"
    by (rule sum.cong) auto
  then show ?thesis using assms by (simp add: sum.remove [where x = i and A = "{..<length tab}"])
qed

lemma done_parts_update:
  assumes "i < length tab" "length st = length tab" "st ! i \<noteq> fetch_done"
  shows "done_parts tab (st[i := s]) = (if s = fetch_done then insert (tab ! i) (done_parts tab st) else done_parts tab st)"
  using assms by (auto simp: nth_list_update split: if_splits)

text \<open>A step on one entry of the table.\<close>

lemma tab_inv_update:
  assumes T: "tab_inv F od0 n u q tab st d" and i: "i < length tab"
    and fr: "step_frame {fe_tran (tab ! i)} n d d'"
    and od: "holds_od q od d'" "progress F od0 (done_parts tab (st[i := s])) od"
    and s: "fetch_state F n d' s (tab ! i)"
    and u: "unat (rdma_buffer_usage d') = u + posted_bytes tab (st[i := s])"
  shows "tab_inv F od0 n u q tab (st[i := s]) d'"
proof -
  have D: "distinct (map fe_tran tab)" "length st = length tab" using T by (auto simp: tab_inv_def)
  have "fetch_state F n d' (st[i := s] ! j) (tab ! j)" if "j < length tab" for j
  proof (cases "j = i")
    case True
    then show ?thesis using s i D(2) by simp
  next
    case False
    then have "fe_tran (tab ! j) \<noteq> fe_tran (tab ! i)" using D(1) i that by (auto simp: distinct_conv_nth)
    then have "fetch_state F n d' (st ! j) (tab ! j) = fetch_state F n d (st ! j) (tab ! j)"
      using fetch_state_frame [OF fr] by simp
    then show ?thesis using T that False by (simp add: tab_inv_def)
  qed
  moreover have "dimes_env d'" "rdma_buffer_size d' = rdma_buffer_size d" "drh_brk (d_rdma d) \<le> drh_brk (d_rdma d')"
    using step_frame_sel [OF fr] T by (auto simp: tab_inv_def)
  ultimately show ?thesis using T od u D unfolding tab_inv_def by (intro conjI allI impI exI [of _ od]) auto
qed

lemma complete_entry:
  assumes T: "tab_inv F od0 n u q tab st d" and i: "i < length tab" "st ! i = fetch_posted"
  shows "\<exists>r d1 d2. dart_rdma_check_reads (fe_tran (tab ! i)) (d_rdma d) = Some (True, r) \<and>
    obj_assemble q (tab ! i) (d\<lparr>d_rdma := r\<rparr>) = Some d1 \<and> fetch_free (tab ! i) d1 = Some (0, d2) \<and>
    tab_inv F od0 n u q tab (st[i := fetch_done]) d2 \<and> step_frame (fe_tran ` set tab) n d d2"
proof -
  let ?f = "tab ! i"
  have len: "length st = length tab" and env: "dimes_env d" and qp: "query_part (obj_desc od0) ?f"
    using T i by (auto simp: tab_inv_def)
  obtain od where od: "holds_od q od d" "progress F od0 (done_parts tab st) od" using T by (auto simp: tab_inv_def)
  have "fetch_state F n d (st ! i) ?f" using T i(1) by (simp add: tab_inv_def)
  then obtain t where t: "planned F d ?f t" "dst_ready n ?f t" using i(2) by (auto simp: fetch_state_def)
  note pb = posted_bytes_update [OF i(1) len, of fetch_done]
  have us: "unat (rdma_buffer_usage d) = u + posted_bytes tab st" using T by (simp add: tab_inv_def)
  then have "part_bytes ?f \<le> unat (rdma_buffer_usage d)" using pb i(2) by simp
  from complete_one [OF env t qp od this] obtain r d1 d2 od' where c:
    "dart_rdma_check_reads (fe_tran ?f) (d_rdma d) = Some (True, r)" "obj_assemble q ?f (d\<lparr>d_rdma := r\<rparr>) = Some d1"
    "fetch_free ?f d1 = Some (0, d2)" "step_frame {fe_tran ?f} n d d2" "holds_od q od' d2"
    "progress F od0 (insert ?f (done_parts tab st)) od'" "unat (rdma_buffer_usage d2) + part_bytes ?f = unat (rdma_buffer_usage d)"
    "part_tran d2 ?f"
    by blast
  have "progress F od0 (done_parts tab (st[i := fetch_done])) od'"
    using c(6) done_parts_update [OF i(1) len, of fetch_done] i(2) by simp
  moreover have "fetch_state F n d2 fetch_done ?f" using c(8) by (simp add: fetch_state_def)
  moreover have "unat (rdma_buffer_usage d2) = u + posted_bytes tab (st[i := fetch_done])" using c(7) us pb i(2) by simp
  ultimately have "tab_inv F od0 n u q tab (st[i := fetch_done]) d2" by (rule tab_inv_update [OF T i(1) c(4,5)])
  moreover have "step_frame (fe_tran ` set tab) n d d2" by (rule step_frame_mono [OF c(4)]) (use i(1) in simp)
  ultimately show ?thesis using c(1-3) by blast
qed

lemma post_entry:
  assumes T: "tab_inv F od0 n u q tab st d" and i: "i < length tab" "st ! i = fetch_ready"
  shows "\<exists>d'. fetch_alloc (tab ! i) dart_memory_rdma d = Some (0, d') \<and>
    dart_rdma_perform_reads (fe_tran (tab ! i)) (d_rdma d') = (0, d_rdma d') \<and>
    tab_inv F od0 n u q tab (st[i := fetch_posted]) d' \<and> step_frame (fe_tran ` set tab) n d d'"
proof -
  let ?f = "tab ! i"
  have len: "length st = length tab" and env: "dimes_env d" and brk: "n \<le> drh_brk (d_rdma d)"
    using T i by (auto simp: tab_inv_def)
  obtain od where od: "holds_od q od d" "progress F od0 (done_parts tab st) od" using T by (auto simp: tab_inv_def)
  have "fetch_state F n d (st ! i) ?f" using T i(1) by (simp add: tab_inv_def)
  then obtain t where t: "planned F d ?f t" using i(2) by (auto simp: fetch_state_def)
  then have ft: "find_tran ?f d = Some t" by (simp add: planned_def)
  note pb = posted_bytes_update [OF i(1) len, of fetch_posted]
  have us: "unat (rdma_buffer_usage d) = u + posted_bytes tab st" using T by (simp add: tab_inv_def)
  have "posted_bytes tab (st[i := fetch_posted]) \<le> (\<Sum>i<length tab. part_bytes (tab ! i))" by (rule sum_mono) simp
  then have "unat (rdma_buffer_usage d) + part_bytes ?f \<le> unat (rdma_buffer_size d)"
    using us pb i(2) T by (simp add: tab_inv_def)
  from fetch_alloc_ok [OF env ft brk this] obtain d' h where a: "fetch_alloc ?f dart_memory_rdma d = Some (0, d')"
    "step_frame {fe_tran ?f} n d d'" "d_qt d' = d_qt d" "find_tran ?f d' = Some (t\<lparr>tr_dst := h\<rparr>)"
    "dst_ready n ?f (t\<lparr>tr_dst := h\<rparr>)" "unat (rdma_buffer_usage d') = unat (rdma_buffer_usage d) + part_bytes ?f"
    by blast
  have rs: "remote_source F d' ?f (t\<lparr>tr_dst := h\<rparr>)"
    unfolding remote_source_frame [OF a(2)] using t by (simp add: planned_def remote_source_def)
  have "planned F d' ?f (t\<lparr>tr_dst := h\<rparr>)" using t a(4) rs by (simp add: planned_def)
  then have st: "fetch_state F n d' fetch_posted ?f" using a(5) by (auto simp: fetch_state_def)
  have env': "dimes_env d'" using step_frame_sel(1) [OF a(2)] env by simp
  have "dart_rdma_perform_reads (fe_tran ?f) (d_rdma d') = (0, d_rdma d')"
    using a(4) env' rs by (simp add: dart_rdma_perform_reads_def dimes_env_def remote_source_def)
  moreover have "tab_inv F od0 n u q tab (st[i := fetch_posted]) d'"
  proof (rule tab_inv_update [OF T i(1) a(2) _ _ st])
    show "holds_od q od d'" unfolding holds_od_cong [OF a(3)] by (rule od(1))
    show "progress F od0 (done_parts tab (st[i := fetch_posted])) od"
      using od(2) done_parts_update [OF i(1) len, of fetch_posted] i(2) by simp
    show "unat (rdma_buffer_usage d') = u + posted_bytes tab (st[i := fetch_posted])" using a(6) us pb i(2) by simp
  qed
  moreover have "step_frame (fe_tran ` set tab) n d d'" by (rule step_frame_mono [OF a(2)]) (use i(1) in simp)
  ultimately show ?thesis using a(1) by blast
qed

subsection \<open>The loops over the table\<close>

lemma complete_pass_ok:
  assumes "tab_inv F od0 n u q tab st d" "set is \<subseteq> {..<length tab}" "distinct is"
  shows "\<exists>st' d'. complete_pass q tab is st c d = Some (0, st', c \<or> (\<exists>i\<in>set is. st ! i = fetch_posted), d') \<and>
    tab_inv F od0 n u q tab st' d' \<and> step_frame (fe_tran ` set tab) n d d' \<and>
    (\<forall>i<length tab. st' ! i = (if i \<in> set is \<and> st ! i = fetch_posted then fetch_done else st ! i))"
  using assms
proof (induction "is" arbitrary: st c d)
  case Nil
  then show ?case using step_frame_refl by (intro exI [of _ st] exI [of _ d]) simp
next
  case (Cons i "is")
  have len: "length st = length tab" and i: "i < length tab" "i \<notin> set is" "set is \<subseteq> {..<length tab}" "distinct is"
    using Cons.prems by (auto simp: tab_inv_def)
  show ?case
  proof (cases "st ! i = fetch_posted")
    case True
    obtain r d1 d2 where c: "dart_rdma_check_reads (fe_tran (tab ! i)) (d_rdma d) = Some (True, r)"
      "obj_assemble q (tab ! i) (d\<lparr>d_rdma := r\<rparr>) = Some d1" "fetch_free (tab ! i) d1 = Some (0, d2)"
      "tab_inv F od0 n u q tab (st[i := fetch_done]) d2" "step_frame (fe_tran ` set tab) n d d2"
      using complete_entry [OF Cons.prems(1) i(1) True] by blast
    obtain st' d' where I: "complete_pass q tab is (st[i := fetch_done]) True d2 = Some (0, st', True, d')"
      "tab_inv F od0 n u q tab st' d'" "step_frame (fe_tran ` set tab) n d2 d'"
      "\<forall>j<length tab. st' ! j = (if j \<in> set is \<and> st[i := fetch_done] ! j = fetch_posted then fetch_done else st[i := fetch_done] ! j)"
      using Cons.IH [OF c(4) i(3,4), of True] by auto
    have "\<forall>j<length tab. st' ! j = (if j \<in> set (i # is) \<and> st ! j = fetch_posted then fetch_done else st ! j)"
      using I(4) i(1,2) len True by (auto simp: nth_list_update)
    then show ?thesis
      using True c I(1,2) step_frame_trans [OF c(5) I(3)] by (intro exI [of _ st'] exI [of _ d']) simp
  next
    case False
    obtain st' d' where I: "complete_pass q tab is st c d = Some (0, st', c \<or> (\<exists>i\<in>set is. st ! i = fetch_posted), d')"
      "tab_inv F od0 n u q tab st' d'" "step_frame (fe_tran ` set tab) n d d'"
      "\<forall>j<length tab. st' ! j = (if j \<in> set is \<and> st ! j = fetch_posted then fetch_done else st ! j)"
      using Cons.IH [OF Cons.prems(1) i(3,4), of c] by blast
    have "\<forall>j<length tab. st' ! j = (if j \<in> set (i # is) \<and> st ! j = fetch_posted then fetch_done else st ! j)"
      using I(4) False by auto
    then show ?thesis using False I(1-3) by (intro exI [of _ st'] exI [of _ d']) simp
  qed
qed

text \<open>A call of \<open>all_fetch_done\<close> completes all posted parts.\<close>

lemma all_fetch_done_ok:
  assumes T: "tab_inv F od0 n u q tab st d"
  shows "\<exists>st' d'. all_fetch_done q tab st d = Some (0, list_all (\<lambda>s. s = fetch_done) st', st', d') \<and>
    tab_inv F od0 n u q tab st' d' \<and> step_frame (fe_tran ` set tab) n d d' \<and>
    st' = map (\<lambda>s. if s = fetch_posted then fetch_done else s) st"
proof (cases "fetch_posted \<in> set st")
  case False
  then have "get_num_posted_fetch st = 0" by (auto simp: get_num_posted_fetch_def filter_empty_conv)
  moreover have "map (\<lambda>s. if s = fetch_posted then fetch_done else s) st = st" using False by (intro map_idI) auto
  ultimately show ?thesis
    using T step_frame_refl by (intro exI [of _ st] exI [of _ d]) (simp add: all_fetch_done_def wait_fetch.simps)
next
  case True
  then have n: "0 < get_num_posted_fetch st" by (auto simp: get_num_posted_fetch_def filter_empty_conv)
  have len: "length st = length tab" and p: "dart_rdma_process_reads (d_rdma d) = (0, d_rdma d)"
    using T by (auto simp: tab_inv_def dimes_env_def dart_rdma_process_reads_def)
  have ex: "\<exists>i\<in>set [0..<length tab]. st ! i = fetch_posted" using True len by (auto simp: in_set_conv_nth)
  obtain st' d' where C: "complete_pass q tab [0..<length tab] st False d = Some (0, st', True, d')"
    "tab_inv F od0 n u q tab st' d'" "step_frame (fe_tran ` set tab) n d d'"
    "\<forall>i<length tab. st' ! i = (if i \<in> set [0..<length tab] \<and> st ! i = fetch_posted then fetch_done else st ! i)"
    using complete_pass_ok [OF T, of "[0..<length tab]" False] ex by (auto simp: atLeast0LessThan)
  have w: "wait_fetch q tab k st' True d' = Some (0, st', d')" for k by (simp add: wait_fetch.simps)
  have "wait_fetch q tab (get_num_posted_fetch st) st False d = Some (0, st', d')"
    using n p C(1) by (subst wait_fetch.simps) (simp add: w)
  moreover have "length st' = length tab" using C(2) by (simp add: tab_inv_def)
  then have "st' = map (\<lambda>s. if s = fetch_posted then fetch_done else s) st"
    using C(4) len by (intro nth_equalityI) auto
  ultimately show ?thesis using C(2,3) by (intro exI [of _ st'] exI [of _ d']) (simp add: all_fetch_done_def)
qed

lemma filter_length_update:
  assumes "i < length st" "P (st ! i)" "\<not> P s"
  shows "length (filter P (st[i := s])) < length (filter P st)"
proof -
  have "st = take i st @ st ! i # drop (Suc i) st" using assms(1) by (rule id_take_nth_drop)
  then have "length (filter P st) = length (filter P (take i st)) + Suc (length (filter P (drop (Suc i) st)))"
    using assms(2) by (metis filter.simps(2) filter_append length_append length_Cons)
  moreover have "length (filter P (st[i := s])) = length (filter P (take i st)) + length (filter P (drop (Suc i) st))"
    unfolding upd_conv_take_nth_drop [OF assms(1)] using assms(3) by simp
  ultimately show ?thesis by simp
qed

lemma post_fetches_ok:
  assumes "tab_inv F od0 n u q tab st d"
  shows "\<exists>st' d'. post_fetches tab st d = Some (0, st', d') \<and> tab_inv F od0 n u q tab st' d' \<and>
    step_frame (fe_tran ` set tab) n d d' \<and> (\<forall>i<length tab. st' ! i = fetch_done \<longleftrightarrow> st ! i = fetch_done) \<and>
    (fetch_ready \<notin> set st' \<or> fetch_posted \<in> set st')"
  using assms
proof (induction "length (filter (\<lambda>s. s = fetch_ready) st)" arbitrary: st d rule: less_induct)
  case less
  have len: "length st = length tab" and mx: "0 < max_num_concurrent_rdma_read_op d" using less.prems by (auto simp: tab_inv_def dimes_env_def)
  have stop: ?case if "get_next_fetch tab st d = Some (0, None, d)" "fetch_ready \<notin> set st \<or> fetch_posted \<in> set st"
    using that less.prems step_frame_refl by (intro exI [of _ st] exI [of _ d]) (simp add: post_fetches.simps)
  show ?case
  proof (cases "int (get_num_posted_fetch st) \<ge> max_num_concurrent_rdma_read_op d")
    case True
    then have "0 < get_num_posted_fetch st" using mx by simp
    then have "fetch_posted \<in> set st" by (auto simp: get_num_posted_fetch_def filter_empty_conv)
    then show ?thesis using stop True by (simp add: get_next_fetch_def)
  next
    case False
    show ?thesis
    proof (cases "find (\<lambda>i. st ! i = fetch_ready) [0..<length tab]")
      case None
      then have "fetch_ready \<notin> set st" using len by (auto simp: find_None_iff in_set_conv_nth)
      then show ?thesis using stop False None by (simp add: get_next_fetch_def)
    next
      case (Some i)
      then have i: "i < length tab" "st ! i = fetch_ready" by (auto simp: find_Some_iff)
      obtain d1 where p: "fetch_alloc (tab ! i) dart_memory_rdma d = Some (0, d1)"
        "dart_rdma_perform_reads (fe_tran (tab ! i)) (d_rdma d1) = (0, d_rdma d1)"
        "tab_inv F od0 n u q tab (st[i := fetch_posted]) d1" "step_frame (fe_tran ` set tab) n d d1"
        using post_entry [OF less.prems i] by blast
      have l: "length (filter (\<lambda>s. s = fetch_ready) (st[i := fetch_posted])) < length (filter (\<lambda>s. s = fetch_ready) st)"
        by (rule filter_length_update) (use i len in simp_all)
      obtain st' d' where I: "post_fetches tab (st[i := fetch_posted]) d1 = Some (0, st', d')" "tab_inv F od0 n u q tab st' d'"
        "step_frame (fe_tran ` set tab) n d1 d'" "\<forall>j<length tab. st' ! j = fetch_done \<longleftrightarrow> st[i := fetch_posted] ! j = fetch_done"
        "fetch_ready \<notin> set st' \<or> fetch_posted \<in> set st'"
        using less.hyps [OF l p(3)] by blast
      have run: "post_fetches tab st d = Some (0, st', d')"
        using False Some p(1,2) I(1) by (subst post_fetches.simps) (simp add: get_next_fetch_def)
      have "\<forall>j<length tab. st' ! j = fetch_done \<longleftrightarrow> st ! j = fetch_done" using I(4) i len by (auto simp: nth_list_update)
      then show ?thesis using run I(2,5) step_frame_trans [OF p(4) I(3)] by blast
    qed
  qed
qed

lemma fetch_loop_ok:
  assumes "tab_inv F od0 n u q tab st d"
  shows "\<exists>st' d'. fetch_loop q tab st d = Some (0, st', d') \<and> tab_inv F od0 n u q tab st' d' \<and>
    step_frame (fe_tran ` set tab) n d d' \<and> list_all (\<lambda>s. s = fetch_done) st'"
  using assms
proof (induction "card {i. i < length tab \<and> st ! i \<noteq> fetch_done}" arbitrary: st d rule: less_induct)
  case less
  obtain st1 d1 where p: "post_fetches tab st d = Some (0, st1, d1)" "tab_inv F od0 n u q tab st1 d1"
    "step_frame (fe_tran ` set tab) n d d1" "\<forall>i<length tab. st1 ! i = fetch_done \<longleftrightarrow> st ! i = fetch_done"
    "fetch_ready \<notin> set st1 \<or> fetch_posted \<in> set st1"
    using post_fetches_ok [OF less.prems] by blast
  let ?st2 = "map (\<lambda>s. if s = fetch_posted then fetch_done else s) st1"
  obtain d2 where a: "all_fetch_done q tab st1 d1 = Some (0, list_all (\<lambda>s. s = fetch_done) ?st2, ?st2, d2)"
    "tab_inv F od0 n u q tab ?st2 d2" "step_frame (fe_tran ` set tab) n d1 d2"
    using all_fetch_done_ok [OF p(2)] by blast
  have fr: "step_frame (fe_tran ` set tab) n d d2" by (rule step_frame_trans [OF p(3) a(3)])
  have len: "length st1 = length tab" using p(2) by (simp add: tab_inv_def)
  show ?case
  proof (cases "list_all (\<lambda>s. s = fetch_done) ?st2")
    case True
    then show ?thesis
      using p(1) a(1,2) fr by (intro exI [of _ ?st2] exI [of _ d2]) (subst fetch_loop.simps, simp)
  next
    case False
    have "fetch_ready \<in> set st1"
    proof (rule ccontr)
      assume "fetch_ready \<notin> set st1"
      then have "s = fetch_posted \<or> s = fetch_done" if "s \<in> set st1" for s using that by (cases s) auto
      then have "list_all (\<lambda>s. s = fetch_done) ?st2" by (auto simp: list_all_iff)
      then show False using False by simp
    qed
    then obtain i where i: "i < length tab" "st1 ! i = fetch_posted" using p(5) len by (auto simp: in_set_conv_nth)
    have "st ! i \<noteq> fetch_done" using p(4) [rule_format, OF i(1)] i(2) by simp
    then have "i \<in> {i. i < length tab \<and> st ! i \<noteq> fetch_done}" "i \<notin> {i. i < length tab \<and> ?st2 ! i \<noteq> fetch_done}"
      using i len by simp_all
    moreover have "{i. i < length tab \<and> ?st2 ! i \<noteq> fetch_done} \<subseteq> {i. i < length tab \<and> st ! i \<noteq> fetch_done}"
    proof
      fix j assume "j \<in> {i. i < length tab \<and> ?st2 ! i \<noteq> fetch_done}"
      then have j: "j < length tab" "st1 ! j \<noteq> fetch_done" using len by (auto split: if_splits)
      then show "j \<in> {i. i < length tab \<and> st ! i \<noteq> fetch_done}" using p(4) [rule_format, OF j(1)] by simp
    qed
    ultimately have "{i. i < length tab \<and> ?st2 ! i \<noteq> fetch_done} \<subset> {i. i < length tab \<and> st ! i \<noteq> fetch_done}" by blast
    then have "card {i. i < length tab \<and> ?st2 ! i \<noteq> fetch_done} < card {i. i < length tab \<and> st ! i \<noteq> fetch_done}"
      by (intro psubset_card_mono) simp_all
    from less.hyps [OF this a(2)] obtain st' d' where I: "fetch_loop q tab ?st2 d2 = Some (0, st', d')"
      "tab_inv F od0 n u q tab st' d'" "step_frame (fe_tran ` set tab) n d2 d'" "list_all (\<lambda>s. s = fetch_done) st'"
      by blast
    have "fetch_loop q tab st d = Some (0, st', d')"
      using p(1) a(1) I(1) False by (subst fetch_loop.simps) simp
    then show ?thesis using I(2,4) step_frame_trans [OF fr I(3)] by blast
  qed
qed

subsection \<open>The first loop\<close>

definition local_source :: "(coord \<Rightarrow> nat \<Rightarrow> byte) \<Rightarrow> nat \<Rightarrow> dimes_client \<Rightarrow> fetch_entry \<Rightarrow> dart_rdma_tran \<Rightarrow> bool" where
  "local_source F n d f t \<longleftrightarrow> remote_peer t = od_owner (src_odsc f) \<and> od_owner (src_odsc f) = c_id (d_dcg d) \<and>
     (\<exists>p b. storage_lookup_obj (remote_obj_id f) (od_version (src_odsc f)) d = Some (Some p) \<and> base_addr (mo_handle p) = (b, 0) \<and>
        b < n \<and> has_cells F (src_odsc f) (od_bb (dst_odsc f)) (drh_mem (d_rdma d) b))"

text \<open>A located part that no read was planned for yet.\<close>

definition idle :: "(coord \<Rightarrow> nat \<Rightarrow> byte) \<Rightarrow> nat \<Rightarrow> dimes_client \<Rightarrow> fetch_entry \<Rightarrow> bool" where
  "idle F n d f \<longleftrightarrow> (\<exists>t. find_tran f d = Some t \<and> read_ops_list t = [] \<and> (local_source F n d f t \<or> remote_source F d f t))"

definition tabled :: "dimes_client \<Rightarrow> fetch_entry \<Rightarrow> bool" where
  "tabled d f \<longleftrightarrow> od_owner (src_odsc f) \<noteq> c_id (d_dcg d) \<and> is_remote_data_contiguous_in_memory (d_bb0 d) (src_odsc f) (dst_odsc f)"

lemma local_source_frame: "step_frame I n d d' \<Longrightarrow> local_source F n d' f t = local_source F n d f t"
  unfolding local_source_def by (simp add: step_frame_sel cong: conj_cong)

lemma idle_frame: "step_frame I n d d' \<Longrightarrow> fe_tran f \<notin> I \<Longrightarrow> idle F n d' f = idle F n d f"
  by (simp add: idle_def local_source_frame remote_source_frame step_frame_sel)

lemma tabled_frame: "step_frame I n d d' \<Longrightarrow> tabled d' = tabled d"
  by (simp add: tabled_def step_frame_sel fun_eq_iff)

lemma scheduled_frame:
  assumes "scheduled i R (d_rdma d) r"
  shows "step_frame {i} n d (d\<lparr>d_rdma := r\<rparr>)"
proof (rule step_frame_rdma)
  show "dart_rdma_find_read_tran j r = dart_rdma_find_read_tran j (d_rdma d)" if "j \<notin> {i}" for j
    using assms that by (auto simp: scheduled_def find_update_tran)
qed (use assms scheduled_fields [OF assms] in \<open>auto simp: scheduled_def\<close>)

lemma plan_one:
  assumes "dimes_env d" "idle F n d f" "tabled d f" "part_of (src_odsc f) (dst_odsc f)"
  shows "\<exists>off r t. calculate_offset_for_remote_data (d_bb0 d) (src_odsc f) (dst_odsc f) = Some off \<and>
    dart_rdma_schedule_read (fe_tran f) off 0 (obj_data_size (dst_odsc f)) (d_rdma d) = (0, r) \<and>
    step_frame {fe_tran f} n d (d\<lparr>d_rdma := r\<rparr>) \<and> planned F (d\<lparr>d_rdma := r\<rparr>) f t"
proof -
  obtain t where t: "find_tran f d = Some t" "read_ops_list t = []" "remote_source F d f t"
    using assms(2,3) by (auto simp: idle_def local_source_def tabled_def)
  obtain off where off: "calculate_offset_for_remote_data (d_bb0 d) (src_odsc f) (dst_odsc f) = Some off"
    "\<forall>r. src_offset r = off \<and> dst_offset r = 0 \<and> op_bytes r = obj_data_size (dst_odsc f) \<longrightarrow> plan_exact (src_odsc f) (dst_odsc f) {r}"
    using contiguous_exact [OF assms(4), of "d_bb0 d" "d_bb0 d"] assms(3) by (auto simp: tabled_def)
  have E: "drh_init (d_rdma d)" "\<forall>k. drh_rc (d_rdma d) k = 0" "find_tran f d \<noteq> None" using assms(1) t(1) by (auto simp: dimes_env_def)
  obtain r x where r: "dart_rdma_schedule_read (fe_tran f) off 0 (obj_data_size (dst_odsc f)) (d_rdma d) = (0, r)"
    "scheduled (fe_tran f) [x] (d_rdma d) r" "src_offset x = off" "dst_offset x = 0" "op_bytes x = obj_data_size (dst_odsc f)"
    using schedule_read_ok [OF E, of off 0 "obj_data_size (dst_odsc f)"] by blast
  note fr = scheduled_frame [OF r(2)]
  let ?t = "t\<lparr>read_ops_list := [x]\<rparr>"
  have "find_tran f (d\<lparr>d_rdma := r\<rparr>) = Some ?t" using scheduled_find [OF r(2)] t by simp
  moreover have "remote_source F (d\<lparr>d_rdma := r\<rparr>) f ?t"
    unfolding remote_source_frame [OF fr] using t(3) by (simp add: remote_source_def)
  moreover have "plan_exact (src_odsc f) (dst_odsc f) {x}" using off(2) r(3-5) by simp
  ultimately have "planned F (d\<lparr>d_rdma := r\<rparr>) f ?t" by (simp add: planned_def)
  then show ?thesis using off(1) r(1) fr by blast
qed

lemma fetch_plan_ok:
  assumes "dimes_env d" "\<forall>f\<in>set fs. idle F n d f \<and> part_of (src_odsc f) (dst_odsc f)" "distinct (map fe_tran fs)"
    and "\<forall>f\<in>set fs. unat (rdma_buffer_usage d) + part_bytes f \<le> unat (rdma_buffer_size d)"
    and "length tab + length (filter (tabled d) fs) \<le> cap"
  shows "\<exists>d'. fetch_plan cap fs tab d = Some (True, tab @ filter (tabled d) fs, d') \<and>
    step_frame (fe_tran ` set (filter (tabled d) fs)) n d d' \<and> d_qt d' = d_qt d \<and> rdma_buffer_usage d' = rdma_buffer_usage d \<and>
    (\<forall>f\<in>set (filter (tabled d) fs). \<exists>t. planned F d' f t)"
  using assms
proof (induction fs arbitrary: tab d)
  case Nil
  then show ?case using step_frame_refl by (intro exI [of _ d]) simp
next
  case (Cons f fs)
  have a: "\<not> obj_data_size (dst_odsc f) > get_available_rdma_buffer_size d"
    using available_nat [of d f] Cons.prems(4) by (simp add: not_less)
  obtain t where t: "find_tran f d = Some t" "remote_peer t = od_owner (src_odsc f)"
    using Cons.prems(2) by (auto simp: idle_def local_source_def remote_source_def)
  have in': "\<not> is_peer_myself d (remote_peer t) \<and> is_remote_data_contiguous_in_memory (d_bb0 d) (src_odsc f) (dst_odsc f) \<longleftrightarrow> tabled d f"
    by (simp add: t(2) tabled_def is_peer_myself_def)
  show ?case
  proof (cases "tabled d f")
    case False
    obtain d' where I: "fetch_plan cap fs tab d = Some (True, tab @ filter (tabled d) fs, d')"
      "step_frame (fe_tran ` set (filter (tabled d) fs)) n d d'" "d_qt d' = d_qt d" "rdma_buffer_usage d' = rdma_buffer_usage d"
      "\<forall>f\<in>set (filter (tabled d) fs). \<exists>t. planned F d' f t"
      using Cons.IH [of d tab] Cons.prems False by auto
    moreover have "fetch_plan cap (f # fs) tab d = fetch_plan cap fs tab d" using a t(1) in' False by auto
    ultimately show ?thesis using False by (intro exI [of _ d']) simp
  next
    case True
    obtain off r tt where p: "calculate_offset_for_remote_data (d_bb0 d) (src_odsc f) (dst_odsc f) = Some off"
      "dart_rdma_schedule_read (fe_tran f) off 0 (obj_data_size (dst_odsc f)) (d_rdma d) = (0, r)"
      "step_frame {fe_tran f} n d (d\<lparr>d_rdma := r\<rparr>)" "planned F (d\<lparr>d_rdma := r\<rparr>) f tt"
      using plan_one [OF Cons.prems(1) _ True, of F n] Cons.prems(2) by auto
    let ?d = "d\<lparr>d_rdma := r\<rparr>"
    have tb: "tabled ?d = tabled d" by (rule tabled_frame [OF p(3)])
    have nf: "fe_tran g \<noteq> fe_tran f" if "g \<in> set fs" for g using Cons.prems(3) that by (metis distinct.simps(2) image_eqI list.simps(9) list.set_map)
    have "\<forall>g\<in>set fs. idle F n ?d g \<and> part_of (src_odsc g) (dst_odsc g)"
      using Cons.prems(2) idle_frame [OF p(3)] nf by simp
    moreover have "dimes_env ?d" using step_frame_sel(1) [OF p(3)] Cons.prems(1) by simp
    ultimately obtain d' where I: "fetch_plan cap fs (tab @ [f]) ?d = Some (True, (tab @ [f]) @ filter (tabled d) fs, d')"
      "step_frame (fe_tran ` set (filter (tabled d) fs)) n ?d d'" "d_qt d' = d_qt d" "rdma_buffer_usage d' = rdma_buffer_usage d"
      "\<forall>f\<in>set (filter (tabled d) fs). \<exists>t. planned F d' f t"
      using Cons.IH [of ?d "tab @ [f]"] Cons.prems(3-5) True tb by auto
    have "fe_tran f \<notin> fe_tran ` set (filter (tabled d) fs)" using nf by force
    then have "planned F d' f tt" using planned_frame [OF I(2), of f F] p(4) by simp
    moreover have "step_frame (fe_tran ` set (filter (tabled d) (f # fs))) n d d'"
      by (rule step_frame_trans [OF step_frame_mono [OF p(3)] step_frame_mono [OF I(2)]]) (use True in auto)
    moreover have "fetch_plan cap (f # fs) tab d = Some (True, tab @ filter (tabled d) (f # fs), d')"
      using a t(1) in' True p(1,2) I(1) Cons.prems(5) by simp
    ultimately show ?thesis using I(3-5) True by (intro exI [of _ d']) auto
  qed
qed

subsection \<open>The last loop\<close>

text \<open>The reads of \<open>schedule_rdma_reads\<close> are exact.\<close>

lemma schedule_part:
  assumes "dimes_env d" "find_tran f d = Some t" "read_ops_list t = []" "part_of (src_odsc f) (dst_odsc f)"
  obtains r R where "schedule_rdma_reads (d_bb0 d) (fe_tran f) (src_odsc f) (dst_odsc f) (d_rdma d) = Some (0, r)"
    "step_frame {fe_tran f} n d (d\<lparr>d_rdma := r\<rparr>)" "dart_rdma_find_read_tran (fe_tran f) r = Some (t\<lparr>read_ops_list := R\<rparr>)"
    "distinct R" "plan_exact (src_odsc f) (dst_odsc f) (set R)" "drh_mem r = drh_mem (d_rdma d)"
proof -
  have E: "drh_init (d_rdma d)" "\<forall>k. drh_rc (d_rdma d) k = 0" "find_tran f d \<noteq> None" using assms(1,2) by (auto simp: dimes_env_def)
  obtain r R where r: "schedule_rdma_reads (d_bb0 d) (fe_tran f) (src_odsc f) (dst_odsc f) (d_rdma d) = Some (0, r)"
    "scheduled (fe_tran f) R (d_rdma d) r" "plan_exact (src_odsc f) (dst_odsc f) (set R)"
    using schedule_exact [OF assms(4) E] by blast
  have "distinct R" using r(2) by (auto simp: scheduled_def distinct_map)
  then show ?thesis
    using that [OF r(1) scheduled_frame [OF r(2)] _ _ r(3)] scheduled_find [OF r(2)] scheduled_fields(3) [OF r(2)] assms(2,3) by simp
qed

lemma fetch_remote_ok:
  assumes env: "dimes_env d" and t: "find_tran f d = Some t" "read_ops_list t = []" "remote_source F d f t"
    and brk: "n \<le> drh_brk (d_rdma d)" and u: "unat (rdma_buffer_usage d) + part_bytes f \<le> unat (rdma_buffer_size d)"
    and qp: "query_part (obj_desc od0) f" and od: "holds_od q od d" "progress F od0 S od"
  shows "\<exists>d' od'. fetch_remote q f d = Some (True, 0, d') \<and> step_frame {fe_tran f} n d d' \<and> holds_od q od' d' \<and>
    progress F od0 (insert f S) od' \<and> rdma_buffer_usage d' = rdma_buffer_usage d"
proof -
  have part: "part_of (src_odsc f) (dst_odsc f)" using qp by (simp add: query_part_def)
  obtain d1 h where a: "fetch_alloc f dart_memory_rdma d = Some (0, d1)" "step_frame {fe_tran f} n d d1" "d_qt d1 = d_qt d"
    "find_tran f d1 = Some (t\<lparr>tr_dst := h\<rparr>)" "dst_ready n f (t\<lparr>tr_dst := h\<rparr>)"
    "unat (rdma_buffer_usage d1) = unat (rdma_buffer_usage d) + part_bytes f"
    using fetch_alloc_ok [OF env t(1) brk u] by blast
  have env1: "dimes_env d1" using step_frame_sel(1) [OF a(2)] env by simp
  have ops: "read_ops_list (t\<lparr>tr_dst := h\<rparr>) = []" using t(2) by simp
  obtain r R where r: "schedule_rdma_reads (d_bb0 d1) (fe_tran f) (src_odsc f) (dst_odsc f) (d_rdma d1) = Some (0, r)"
    "step_frame {fe_tran f} n d1 (d1\<lparr>d_rdma := r\<rparr>)" "dart_rdma_find_read_tran (fe_tran f) r = Some (t\<lparr>tr_dst := h, read_ops_list := R\<rparr>)"
    "distinct R" "plan_exact (src_odsc f) (dst_odsc f) (set R)"
    by (rule schedule_part [OF env1 a(4) ops part, of n]) (rule that)
  let ?d = "d1\<lparr>d_rdma := r\<rparr>" and ?t = "t\<lparr>tr_dst := h, read_ops_list := R\<rparr>"
  have fr: "step_frame {fe_tran f} n d ?d" by (rule step_frame_trans [OF a(2) r(2)])
  have env2: "dimes_env ?d" using step_frame_sel(1) [OF fr] env by simp
  have rs: "remote_source F ?d f ?t" unfolding remote_source_frame [OF fr] using t(3) by (simp add: remote_source_def)
  have pl: "planned F ?d f ?t" using rs r(3-5) by (simp add: planned_def)
  have perform: "dart_rdma_perform_reads (fe_tran f) r = (0, r)"
    using r(3) env2 rs by (simp add: dart_rdma_perform_reads_def dimes_env_def remote_source_def)
  have rdy: "dst_ready n f ?t" using a(5) by (simp add: dst_ready_def)
  have od2: "holds_od q od ?d" using od(1) holds_od_cong [of ?d d q od] a(3) by simp
  have "part_bytes f \<le> unat (rdma_buffer_usage ?d)" using a(6) by simp
  from complete_one [OF env2 pl rdy qp od2 od(2) this] obtain r' d2 d3 od' where c:
    "dart_rdma_check_reads (fe_tran f) (d_rdma ?d) = Some (True, r')" "obj_assemble q f (?d\<lparr>d_rdma := r'\<rparr>) = Some d2"
    "fetch_free f d2 = Some (0, d3)" "step_frame {fe_tran f} n ?d d3" "holds_od q od' d3" "progress F od0 (insert f S) od'"
    "unat (rdma_buffer_usage d3) + part_bytes f = unat (rdma_buffer_usage ?d)" by blast
  have "check_loop (fe_tran f) ?d = Some (0, ?d\<lparr>d_rdma := r'\<rparr>)" using c(1) by (subst check_loop.simps) simp
  then have "fetch_remote q f d = Some (True, 0, d3)"
    using a(1) r(1) perform c(2,3) by (simp add: fetch_remote_def)
  moreover have "rdma_buffer_usage d3 = rdma_buffer_usage d" using c(7) a(6) by (simp add: word_unat_eq_iff)
  ultimately show ?thesis using c(5,6) step_frame_trans [OF fr c(4)] by blast
qed

text \<open>A copy within the memory of the client.\<close>

lemma local_copy_ok:
  assumes env: "dimes_env d" and t: "find_tran f d = Some t" "remote_peer t = c_id (d_dcg d)"
    and b: "base_addr (tr_dst t) = (bd, 0)" "base_addr (tr_src t) = (bs, 0)" "bd \<noteq> bs" "n \<le> bd"
    and p: "plan_exact (src_odsc f) (dst_odsc f) (set (read_ops_list t))" "part_of (src_odsc f) (dst_odsc f)"
    and c: "has_cells F (src_odsc f) (od_bb (dst_odsc f)) (drh_mem (d_rdma d) bs)"
  obtains r where "dart_rdma_perform_reads (fe_tran f) (d_rdma d) = (0, r)" "step_frame {fe_tran f} n d (d\<lparr>d_rdma := r\<rparr>)"
    "dart_rdma_find_read_tran (fe_tran f) r = Some (t\<lparr>read_ops_list := []\<rparr>)"
    "has_cells F (dst_odsc f) (od_bb (dst_odsc f)) (drh_mem r bd)"
proof -
  let ?r = "dart_perform_local_copy t (d_rdma d)"
  have id: "tran_id t = fe_tran f" using t(1) by (auto simp: dart_rdma_find_read_tran_def find_Some_iff)
  note m = fold_local_op [OF b(1-3), of "read_ops_list t" "drh_mem (d_rdma d)"]
  have "dart_rdma_perform_reads (fe_tran f) (d_rdma d) = (0, ?r)"
    using env t by (simp add: dart_rdma_perform_reads_def dimes_env_def)
  moreover have "step_frame {fe_tran f} n d (d\<lparr>d_rdma := ?r\<rparr>)"
    by (rule step_frame_rdma) (use b(4) in \<open>simp_all add: dart_perform_local_copy_def id m find_update_tran\<close>)
  moreover have "dart_rdma_find_read_tran (fe_tran f) ?r = Some (t\<lparr>read_ops_list := []\<rparr>)"
    using t(1) by (simp add: dart_perform_local_copy_def id find_update_tran)
  moreover have "has_cells F (dst_odsc f) (od_bb (dst_odsc f)) (drh_mem ?r bd)"
    using plan_exact_cells [OF p(2,1) c] by (simp add: dart_perform_local_copy_def m)
  ultimately show ?thesis by (rule that)
qed

lemma fetch_local_ok:
  assumes env: "dimes_env d" and t: "find_tran f d = Some t" "read_ops_list t = []" "local_source F n d f t"
    and brk: "n \<le> drh_brk (d_rdma d)" and qp: "query_part (obj_desc od0) f" and od: "holds_od q od d" "progress F od0 S od"
  shows "\<exists>d' od'. fetch_local q f d = Some (True, 0, d') \<and> step_frame {fe_tran f} n d d' \<and> holds_od q od' d' \<and>
    progress F od0 (insert f S) od' \<and> rdma_buffer_usage d' = rdma_buffer_usage d"
proof -
  have part: "part_of (src_odsc f) (dst_odsc f)" using qp by (simp add: query_part_def)
  obtain p b where s: "storage_lookup_obj (remote_obj_id f) (od_version (src_odsc f)) d = Some (Some p)" "base_addr (mo_handle p) = (b, 0)"
    "b < n" "has_cells F (src_odsc f) (od_bb (dst_odsc f)) (drh_mem (d_rdma d) b)" "remote_peer t = c_id (d_dcg d)"
    using t(3) by (auto simp: local_source_def)
  let ?g = "\<lambda>t. t\<lparr>tr_src := (tr_src t)\<lparr>base_addr := base_addr (mo_handle p), mh_size := mh_size (mo_handle p)\<rparr>\<rparr>"
  let ?d1 = "d\<lparr>d_rdma := update_tran (fe_tran f) ?g (d_rdma d)\<rparr>"
  have f1: "step_frame {fe_tran f} n d ?d1" by (rule step_frame_rdma) (simp_all add: find_update_tran)
  have env1: "dimes_env ?d1" using step_frame_sel(1) [OF f1] env by simp
  have t1: "find_tran f ?d1 = Some (?g t)" using t(1) by (simp add: find_update_tran)
  have brk1: "n \<le> drh_brk (d_rdma ?d1)" using brk by simp
  obtain d2 h where a: "fetch_alloc f dart_memory_non_rdma ?d1 = Some (0, d2)" "step_frame {fe_tran f} n ?d1 d2" "d_qt d2 = d_qt ?d1"
    "find_tran f d2 = Some ((?g t)\<lparr>tr_dst := h\<rparr>)" "base_addr h = (drh_brk (d_rdma ?d1), 0)" "mem_type h = dart_memory_non_rdma"
    "rdma_buffer_usage d2 = rdma_buffer_usage ?d1"
    using fetch_alloc_local_ok [OF env1 t1 brk1] by blast
  have f2: "step_frame {fe_tran f} n d d2" by (rule step_frame_trans [OF f1 a(2)])
  have env2: "dimes_env d2" using step_frame_sel(1) [OF f2] env by simp
  have ops: "read_ops_list ((?g t)\<lparr>tr_dst := h\<rparr>) = []" using t(2) by simp
  obtain r R where r: "schedule_rdma_reads (d_bb0 d2) (fe_tran f) (src_odsc f) (dst_odsc f) (d_rdma d2) = Some (0, r)"
    "step_frame {fe_tran f} n d2 (d2\<lparr>d_rdma := r\<rparr>)"
    "dart_rdma_find_read_tran (fe_tran f) r = Some ((?g t)\<lparr>tr_dst := h, read_ops_list := R\<rparr>)"
    "plan_exact (src_odsc f) (dst_odsc f) (set R)" "drh_mem r = drh_mem (d_rdma d2)"
    by (rule schedule_part [OF env2 a(4) ops part, of n]) (rule that)
  let ?d3 = "d2\<lparr>d_rdma := r\<rparr>" and ?t = "(?g t)\<lparr>tr_dst := h, read_ops_list := R\<rparr>"
  have f3: "step_frame {fe_tran f} n d ?d3" by (rule step_frame_trans [OF f2 r(2)])
  have env3: "dimes_env ?d3" using step_frame_sel(1) [OF f3] env by simp
  have c3: "has_cells F (src_odsc f) (od_bb (dst_odsc f)) (drh_mem (d_rdma ?d3) b)" using s(4) step_frame_sel(9) [OF f3 s(3)] by simp
  obtain r' where r': "dart_rdma_perform_reads (fe_tran f) (d_rdma ?d3) = (0, r')" "step_frame {fe_tran f} n ?d3 (?d3\<lparr>d_rdma := r'\<rparr>)"
    "dart_rdma_find_read_tran (fe_tran f) r' = Some (?t\<lparr>read_ops_list := []\<rparr>)"
    "has_cells F (dst_odsc f) (od_bb (dst_odsc f)) (drh_mem r' (drh_brk (d_rdma ?d1)))"
    by (rule local_copy_ok [where t = ?t, OF env3 _ _ _ _ _ brk1 _ part c3])
      (use r(3,4) s(2,3,5) a(5) brk1 step_frame_sel(2) [OF f3] in \<open>simp_all\<close>)
  let ?d4 = "?d3\<lparr>d_rdma := r'\<rparr>"
  have f4: "step_frame {fe_tran f} n d ?d4" by (rule step_frame_trans [OF f3 r'(2)])
  have env4: "dimes_env ?d4" using step_frame_sel(1) [OF f4] env by simp
  have od4: "holds_od q od ?d4" using od(1) holds_od_cong [of ?d4 d q od] a(3) by simp
  have ft4: "find_tran f ?d4 = Some (?t\<lparr>read_ops_list := []\<rparr>)" using r'(3) by simp
  have b4: "base_addr (tr_dst (?t\<lparr>read_ops_list := []\<rparr>)) = (drh_brk (d_rdma ?d1), 0)" using a(5) by simp
  have hc4: "has_cells F (dst_odsc f) (od_bb (dst_odsc f)) (drh_mem (d_rdma ?d4) (drh_brk (d_rdma ?d1)))" using r'(4) by simp
  obtain d5 od' where d5: "obj_assemble q f ?d4 = Some d5" "step_frame {} n ?d4 d5" "holds_od q od' d5"
    "progress F od0 (insert f S) od'" "d_rdma d5 = r'" "rdma_buffer_usage d5 = rdma_buffer_usage ?d4"
    using assemble_ok [OF env4 ft4 b4 od4 od(2) qp hc4, of n] by auto
  have free: "fetch_free f d5 = Some (0, d5)" using d5(5) r'(3) a(6) by (simp add: fetch_free_def dimes_memory_free_def)
  have "fetch_local q f d = Some (True, 0, d5)"
    using s(1) a(1) r(1) r'(1) d5(1) free by (simp add: fetch_local_def Let_def)
  moreover have "rdma_buffer_usage d5 = rdma_buffer_usage d" using d5(6) a(7) by simp
  moreover have "step_frame {fe_tran f} n d d5" by (rule step_frame_trans [OF f4 step_frame_mono [OF d5(2)]]) simp
  ultimately show ?thesis using d5(3,4) by blast
qed

lemma fetch_rest_ok:
  assumes "dimes_env d" "n \<le> drh_brk (d_rdma d)" "distinct (map fe_tran fs)" "holds_od q od d" "progress F od0 S od"
    and "\<forall>f\<in>set fs. query_part (obj_desc od0) f \<and> (if tabled d f then part_tran d f else idle F n d f)"
    and "\<forall>f\<in>set fs. unat (rdma_buffer_usage d) + part_bytes f \<le> unat (rdma_buffer_size d)"
  shows "\<exists>d' od'. fetch_rest q fs d = Some (True, 0, d') \<and> holds_od q od' d' \<and>
    progress F od0 (S \<union> {f \<in> set fs. \<not> tabled d f}) od' \<and> rdma_buffer_usage d' = rdma_buffer_usage d \<and> d_sent d' = d_sent d"
  using assms
proof (induction fs arbitrary: d od S)
  case Nil
  then show ?case by (intro exI [of _ d] exI [of _ od]) simp
next
  case (Cons f fs)
  have qp: "query_part (obj_desc od0) f" and u: "unat (rdma_buffer_usage d) + part_bytes f \<le> unat (rdma_buffer_size d)"
    and st: "if tabled d f then part_tran d f else idle F n d f" using Cons.prems(6,7) by auto
  show ?case
  proof (cases "tabled d f")
    case True
    then obtain t where t: "find_tran f d = Some t" "remote_peer t = od_owner (src_odsc f)" using st by (auto simp: part_tran_def)
    have "fetch_rest q (f # fs) d = fetch_rest q fs d" using t True by (simp add: tabled_def is_peer_myself_def)
    moreover have "{f' \<in> set (f # fs). \<not> tabled d f'} = {f \<in> set fs. \<not> tabled d f}" using True by auto
    ultimately show ?thesis using Cons.IH [of d od S] Cons.prems by simp
  next
    case False
    then obtain t where t: "find_tran f d = Some t" "read_ops_list t = []" "local_source F n d f t \<or> remote_source F d f t"
      using st by (auto simp: idle_def)
    obtain d1 od1 where d1: "fetch_rest q (f # fs) d = fetch_rest q fs d1" "step_frame {fe_tran f} n d d1" "holds_od q od1 d1"
      "progress F od0 (insert f S) od1" "rdma_buffer_usage d1 = rdma_buffer_usage d"
    proof (cases "local_source F n d f t")
      case True
      then have "is_peer_myself d (remote_peer t)" by (simp add: local_source_def is_peer_myself_def)
      then show ?thesis
        using that fetch_local_ok [OF Cons.prems(1) t(1,2) True Cons.prems(2) qp Cons.prems(4,5)] t(1) by auto
    next
      case nl: False
      then have rs: "remote_source F d f t" using t(3) by simp
      then have "\<not> is_peer_myself d (remote_peer t)" "\<not> is_remote_data_contiguous_in_memory (d_bb0 d) (src_odsc f) (dst_odsc f)"
        using False by (auto simp: remote_source_def is_peer_myself_def tabled_def)
      then show ?thesis
        using that fetch_remote_ok [OF Cons.prems(1) t(1,2) rs Cons.prems(2) u qp Cons.prems(4,5)] t(1) by auto
    qed
    have tb: "tabled d1 = tabled d" by (rule tabled_frame [OF d1(2)])
    have nf: "fe_tran g \<notin> {fe_tran f}" if "g \<in> set fs" for g
      using Cons.prems(3) that by (metis distinct.simps(2) image_eqI list.simps(9) list.set_map singletonD)
    have "\<forall>g\<in>set fs. query_part (obj_desc od0) g \<and> (if tabled d1 g then part_tran d1 g else idle F n d1 g)"
      using Cons.prems(6) nf part_tran_frame [OF d1(2)] idle_frame [OF d1(2)] tb by simp
    moreover have "dimes_env d1" "n \<le> drh_brk (d_rdma d1)" "rdma_buffer_size d1 = rdma_buffer_size d"
      using step_frame_sel [OF d1(2)] Cons.prems(1,2) by auto
    ultimately obtain d' od' where I: "fetch_rest q fs d1 = Some (True, 0, d')" "holds_od q od' d'"
      "progress F od0 (insert f S \<union> {f \<in> set fs. \<not> tabled d1 f}) od'" "rdma_buffer_usage d' = rdma_buffer_usage d" "d_sent d' = d_sent d"
      using Cons.IH [of d1 od1 "insert f S"] Cons.prems(3,7) d1(3-5) step_frame_sel(13) [OF d1(2)] by auto
    moreover have "insert f S \<union> {f \<in> set fs. \<not> tabled d1 f} = S \<union> {f' \<in> set (f # fs). \<not> tabled d f'}" using tb False by auto
    ultimately show ?thesis using d1(1) by (intro exI [of _ d'] exI [of _ od']) simp
  qed
qed

text \<open>All parts of the query are fetched.\<close>

lemma tab_inv_start:
  assumes "dimes_env d" "n \<le> drh_brk (d_rdma d)" "distinct (map fe_tran tab)" "holds_od q od0 d"
    and "\<forall>f\<in>set tab. query_part (obj_desc od0) f \<and> (\<exists>t. planned F d f t)"
    and "unat (rdma_buffer_usage d) + (\<Sum>f\<leftarrow>tab. part_bytes f) \<le> unat (rdma_buffer_size d)"
  shows "tab_inv F od0 n (unat (rdma_buffer_usage d)) q tab (replicate (length tab) fetch_ready) d"
proof -
  let ?st = "replicate (length tab) fetch_ready"
  have none: "done_parts tab ?st = {}" by auto
  have "progress F od0 (done_parts tab ?st) od0" unfolding none by (auto simp: progress_def intro: exI [of _ "data od0"])
  moreover have "posted_bytes tab ?st = 0" by simp
  moreover have "(\<Sum>i<length tab. part_bytes (tab ! i)) = (\<Sum>f\<leftarrow>tab. part_bytes f)" by (simp add: sum_list_sum_nth atLeast0LessThan)
  moreover have "\<forall>i<length tab. query_part (obj_desc od0) (tab ! i) \<and> fetch_state F n d (?st ! i) (tab ! i)"
    using assms(5) by (simp add: fetch_state_def)
  ultimately show ?thesis using assms(1-4,6) unfolding tab_inv_def by (intro conjI exI [of _ od0]) simp_all
qed

lemma holds_od_flag: "holds_od q od (qt_set_d q (\<lambda>e. e\<lparr>qd_complete := b\<rparr>) d) = holds_od q od d"
  by (simp add: holds_od_def qt_find_set_d option.map_comp comp_def)

lemma fetch_rest_after_table:
  assumes T: "tab_inv F od0 n u q (filter (tabled d) fs) st d'" and st: "list_all (\<lambda>s. s = fetch_done) st"
    and fr: "step_frame (fe_tran ` set (filter (tabled d) fs)) n d d'" and fs: "distinct (map fe_tran fs)"
    and parts: "\<forall>f\<in>set fs. query_part (obj_desc od0) f \<and> idle F n d f"
    and room: "\<forall>f\<in>set fs. u + part_bytes f \<le> unat (rdma_buffer_size d)"
  shows "\<exists>d'' e. fetch_rest q fs d' = Some (True, 0, d'') \<and> qt_find_d d'' q = Some e \<and> progress F od0 (set fs) (data_ref e) \<and>
    unat (rdma_buffer_usage d'') = u \<and> d_sent d'' = d_sent d"
proof -
  let ?tab = "filter (tabled d) fs"
  have len: "length st = length ?tab" using T by (simp add: tab_inv_def)
  have s: "st ! i = fetch_done" if "i < length ?tab" for i using st that len by (simp add: list_all_length)
  have D: "done_parts ?tab st = set ?tab" unfolding set_conv_nth using s by blast
  have "posted_bytes ?tab st = 0" by (rule sum.neutral) (use s in auto)
  then have u: "unat (rdma_buffer_usage d') = u" using T by (simp add: tab_inv_def)
  have env: "dimes_env d'" "n \<le> drh_brk (d_rdma d')" using T by (auto simp: tab_inv_def)
  obtain od where od: "holds_od q od d'" "progress F od0 (set ?tab) od" using T unfolding tab_inv_def D by blast
  have tb: "tabled d' = tabled d" by (rule tabled_frame [OF fr])
  have "part_tran d' f" if f: "f \<in> set ?tab" for f
  proof -
    obtain i where i: "i < length ?tab" "?tab ! i = f" using f unfolding in_set_conv_nth by blast
    have "\<forall>i<length ?tab. query_part (obj_desc od0) (?tab ! i) \<and> fetch_state F n d' (st ! i) (?tab ! i)"
      using T unfolding tab_inv_def by (elim conjE)
    then have "fetch_state F n d' (st ! i) f" using i by blast
    then show ?thesis unfolding s [OF i(1)] fetch_state_def by simp
  qed
  moreover have "idle F n d' f" if "f \<in> set fs" "\<not> tabled d f" for f
  proof -
    have "fe_tran f \<notin> fe_tran ` set ?tab" using that fs by (auto simp: distinct_map inj_on_def)
    then show ?thesis using idle_frame [OF fr] parts that(1) by simp
  qed
  ultimately have "\<forall>f\<in>set fs. query_part (obj_desc od0) f \<and> (if tabled d' f then part_tran d' f else idle F n d' f)"
    using parts tb by simp
  moreover have "\<forall>f\<in>set fs. unat (rdma_buffer_usage d') + part_bytes f \<le> unat (rdma_buffer_size d')"
    using room u step_frame_sel(8) [OF fr] by simp
  ultimately obtain d'' od' where r: "fetch_rest q fs d' = Some (True, 0, d'')" "holds_od q od' d''"
    "progress F od0 (set ?tab \<union> {f \<in> set fs. \<not> tabled d' f}) od'" "rdma_buffer_usage d'' = rdma_buffer_usage d'" "d_sent d'' = d_sent d'"
    using fetch_rest_ok [OF env fs od] by blast
  moreover have "set ?tab \<union> {f \<in> set fs. \<not> tabled d' f} = set fs" using tb by auto
  ultimately show ?thesis using u step_frame_sel(13) [OF fr] by (auto simp: holds_od_def)
qed

lemma dimes_fetch_data_ok:
  assumes env: "dimes_env d" and e: "qt_find_d d q = Some e" "data_ref e = od0" "num_fetch e = int (length (fetch_list e))"
    and parts: "distinct (map fe_tran (fetch_list e))" "\<forall>f\<in>set (fetch_list e). query_part (obj_desc od0) f \<and> idle F (drh_brk (d_rdma d)) d f"
    and room: "unat (rdma_buffer_usage d) + (\<Sum>f\<leftarrow>fetch_list e. part_bytes f) \<le> unat (rdma_buffer_size d)"
  shows "\<exists>d' e'. dimes_fetch_data q d = Some (0, d') \<and> qt_find_d d' q = Some e' \<and> qd_complete e' \<and>
    progress F od0 (set (fetch_list e)) (data_ref e') \<and> rdma_buffer_usage d' = rdma_buffer_usage d \<and> d_sent d' = d_sent d"
proof -
  let ?fs = "fetch_list e" and ?n = "drh_brk (d_rdma d)" and ?u = "unat (rdma_buffer_usage d)"
  define d0 where "d0 = (qt_set_d q (\<lambda>e. e\<lparr>qd_complete := False\<rparr>) d)\<lparr>d_dcg := (d_dcg d)\<lparr>c_calls := c_calls (d_dcg d) + 2\<rparr>\<rparr>"
  let ?tab = "filter (tabled d0) ?fs"
  have fr0: "step_frame {} ?n d d0" by (simp add: d0_def step_frame_def)
  have env0: "dimes_env d0" using step_frame_sel(1) [OF fr0] env by simp
  have od: "holds_od q od0 d0"
    using e(1,2) holds_od_flag [of q od0 False d] holds_od_cong [of d0 "qt_set_d q (\<lambda>e. e\<lparr>qd_complete := False\<rparr>) d" q od0]
    by (simp add: d0_def holds_od_def)
  have idle0: "\<forall>f\<in>set ?fs. idle F ?n d0 f \<and> part_of (src_odsc f) (dst_odsc f)"
    using parts(2) idle_frame [OF fr0] by (simp add: query_part_def)
  have each: "\<forall>f\<in>set ?fs. unat (rdma_buffer_usage d0) + part_bytes f \<le> unat (rdma_buffer_size d0)"
    using room member_le_sum_list [of _ "map part_bytes ?fs"] by (force simp: d0_def)
  have cap: "length [] + length ?tab \<le> nat (num_fetch e)" using e(3) by (simp add: length_filter_le)
  obtain d1 where p: "fetch_plan (nat (num_fetch e)) ?fs [] d0 = Some (True, ?tab, d1)" "step_frame (fe_tran ` set ?tab) ?n d0 d1"
    "d_qt d1 = d_qt d0" "rdma_buffer_usage d1 = rdma_buffer_usage d0" "\<forall>f\<in>set ?tab. \<exists>t. planned F d1 f t"
    using fetch_plan_ok [OF env0 idle0 parts(1) each cap] by auto
  have u1: "rdma_buffer_usage d1 = rdma_buffer_usage d" "rdma_buffer_size d1 = rdma_buffer_size d"
    using p(4) step_frame_sel(8) [OF p(2)] by (simp_all add: d0_def)
  have "(\<Sum>f\<leftarrow>?tab. part_bytes f) \<le> (\<Sum>f\<leftarrow>?fs. part_bytes f)" by (rule sum_list_filter_le_nat)
  then have r1: "unat (rdma_buffer_usage d1) + (\<Sum>f\<leftarrow>?tab. part_bytes f) \<le> unat (rdma_buffer_size d1)" using room u1 by simp
  have dt: "distinct (map fe_tran ?tab)" using parts(1) by (rule distinct_map_filter)
  have "tab_inv F od0 ?n (unat (rdma_buffer_usage d1)) q ?tab (replicate (length ?tab) fetch_ready) d1"
  proof (rule tab_inv_start [OF _ _ dt _ _ r1])
    show "dimes_env d1" using step_frame_sel(1) [OF p(2)] env0 by simp
    show "?n \<le> drh_brk (d_rdma d1)" using step_frame_sel(7) [OF p(2)] by (simp add: d0_def)
    show "holds_od q od0 d1" unfolding holds_od_cong [OF p(3)] by (rule od)
    show "\<forall>f\<in>set ?tab. query_part (obj_desc od0) f \<and> (\<exists>t. planned F d1 f t)" using parts(2) p(5) by simp
  qed
  then obtain st d2 where l: "fetch_loop q ?tab (replicate (length ?tab) fetch_ready) d1 = Some (0, st, d2)"
    "tab_inv F od0 ?n ?u q ?tab st d2" "step_frame (fe_tran ` set ?tab) ?n d1 d2" "list_all (\<lambda>s. s = fetch_done) st"
    using fetch_loop_ok u1(1) by metis
  have fr2: "step_frame (fe_tran ` set ?tab) ?n d0 d2" by (rule step_frame_trans [OF p(2) l(3)])
  have "\<forall>f\<in>set ?fs. query_part (obj_desc od0) f \<and> idle F ?n d0 f" using parts(2) idle0 by simp
  moreover have "\<forall>f\<in>set ?fs. ?u + part_bytes f \<le> unat (rdma_buffer_size d0)" using each by (simp add: d0_def)
  ultimately obtain d3 e3 where r: "fetch_rest q ?fs d2 = Some (True, 0, d3)" "qt_find_d d3 q = Some e3"
    "progress F od0 (set ?fs) (data_ref e3)" "unat (rdma_buffer_usage d3) = ?u" "d_sent d3 = d_sent d0"
    using fetch_rest_after_table [OF l(2,4) fr2 parts(1)] by blast
  let ?d = "qt_set_d q (\<lambda>e. e\<lparr>qd_complete := False\<rparr>) d"
  have q0: "qt_find_d ?d q = Some (e\<lparr>qd_complete := False\<rparr>)" using e(1) by (simp add: qt_find_set_d)
  have rc: "c_rc (d_dcg d) = (\<lambda>_. 0)" using env by (simp add: dimes_env_def)
  let ?d' = "?d\<lparr>d_dcg := (d_dcg d)\<lparr>c_calls := Suc (c_calls (d_dcg d))\<rparr>\<rparr>"
  have at: "d_attempt ?d = (0, ?d')" "d_attempt ?d' = (0, d0)" using rc by (simp_all add: d_attempt_def c_attempt_def d0_def)
  have run: "dimes_fetch_data q d = Some (0, qt_set_d q (\<lambda>e. e\<lparr>qd_complete := True\<rparr>) d3)"
    unfolding dimes_fetch_data_def Let_def q0
    by (simp add: at estimate_fetch_tab_capacity_def p(1) l(1) r(1))
  have "rdma_buffer_usage d3 = rdma_buffer_usage d" "d_sent d3 = d_sent d"
    using r(4,5) step_frame_sel(13) [OF fr0] by (simp_all add: word_unat_eq_iff)
  then show ?thesis
    using run r(2,3) by (intro exI [of _ "qt_set_d q (\<lambda>e. e\<lparr>qd_complete := True\<rparr>) d3"] exI [of _ "e3\<lparr>qd_complete := True\<rparr>"])
      (simp add: qt_find_set_d)
qed

end
