(* ===== verification/Spec2Isabelle.thy ===== *)
theory Spec2Isabelle
  imports DS_System DS_List DS_Buffer DS_Transfer
begin

text \<open>
  \<^bold>\<open>A verification development for DataSpaces.\<close>

  DataSpaces (src/) is a distributed shared space: application processes put and get arrays that
  cover boxes of a global domain, under a name and a version. Servers store the arrays
  (src/src/ds_gspace.c), clients talk to them (src/src/dc_gspace.c), and both use the data
  structures of src/src/ss_data.c and the geometry of src/src/bbox.c and src/include/sfc.h. The
  pieces interact as follows. A put goes to one server, which keeps the object in its local storage
  and sends the descriptor to the servers that the box is hashed to, where it enters the directory.
  A get asks one server for the servers of the box, asks those for the descriptors, fetches the
  parts from the servers that own them, and copies the parts into the result. Locks are served by
  the server of rank 0.

  \<^bold>\<open>Theories.\<close>
  \<^item> \<open>DS_Prelude\<close>: 64-bit words and lists, the types of coordinates, loops over 64-bit counters.
  \<^item> \<open>DS_BBox\<close> (src/src/bbox.c): boxes, their tests, splittings and volume, and intervals. The tests
    are the set operations on cells; both splittings partition the box; \<open>bbox_divide\<close> fails for
    coordinates from \<open>2 ^ 31\<close> on.
  \<^item> \<open>DS_Queue\<close> (src/include/queue.h): the linked queue over a heap of nodes, as an instance of the
    locale \<open>fifo\<close>.
  \<^item> \<open>DS_Objects\<close> (src/src/ss_data.c): descriptors, data objects, global dimensions.
  \<^item> \<open>DS_Table\<close>: the locale \<open>version_table\<close>, the contract of a table with one bin per version modulo the
    number of versions, with the consequences both tables share.
  \<^item> \<open>DS_Storage\<close>, \<open>DS_DHT\<close> (src/src/ss_data.c): the local storage and the directory entry as instances
    of \<open>version_table\<close>: what is kept, found, evicted and released.
  \<^item> \<open>DS_Space\<close>, \<open>DS_Bisect\<close> (src/src/ss_data.c): the directory, the cache of hash results, decomposition
    and hashing version 2; the leaves of the bisection partition the domain, boxes that share a cell
    share an entry (locale \<open>cell_hash\<close>).
  \<^item> \<open>DS_SFC\<close>, \<open>DS_Intv\<close>, \<open>DS_Curve\<close> (src/include/sfc.h, src/src/bbox.c, src/src/ss_data.c): the Hilbert
    curve, the translation of boxes to intervals of the curve, hashing version 1.
  \<^item> \<open>DS_Matrix\<close> (src/src/ss_data.c): \<open>matrix_copy\<close> and the routines that copy between boxes: they copy
    exactly the common cells, for one to nine dimensions; for ten they do not.
  \<^item> \<open>DS_Lock\<close> (src/src/ds_gspace.c): the three lock services over a wait list, with every interleaving
    of requests and releases (\<open>lock_reach\<close>): exclusion, order, no lost request, bounded readers. The
    locales \<open>lock_exclusion\<close>, \<open>rw_lock\<close> and \<open>rw_fifo\<close> hold what the services share.
  \<^item> \<open>DS_Conf\<close> (src/src/ds_gspace.c): the parser of the configuration file.
  \<^item> \<open>DS_Server\<close> (src/src/ds_gspace.c): the state of a server and every handler it registers; the
    invariant \<open>srv_inv\<close> holds in every reachable state (\<open>srv_reach_inv\<close>).
  \<^item> \<open>DS_Cluster\<close>: servers that exchange the messages of puts; the invariant \<open>cluster_inv\<close> relates
    directories and storages to the history of puts.
  \<^item> \<open>DS_Client\<close> (src/src/dc_gspace.c): the state of a client, its handlers and operations.
  \<^item> \<open>DS_Get\<close>: the get transaction for any order of the replies; the locale \<open>reply_phase\<close> is the contract
    of waiting for one reply per request.
  \<^item> \<open>DS_System\<close>: client and servers together: a get returns what was put.
  \<^item> \<open>DS_List\<close> (src/dart/list.h): the intrusive linked lists over a heap of nodes; the pointer updates
    implement the operations on the list of elements, and the safe loop may unlink what it visits.
  \<^item> \<open>DS_Buffer\<close> (src/src/dimes_data.c): the allocator of the DIMES buffer; allocations never overlap, are
    given whenever there is space, and free blocks merge; checkpoint and restart of its lists, and the
    overlap the client's restart causes.

  \<^bold>\<open>How the code is modelled.\<close> Structures are records, enumerations are datatypes; \<open>uint64_t\<close> is
  \<open>64 word\<close> with its wrap-around. A list of the program is a list in the order of its traversal; a pointer
  to a list element is an address or a key of the element. Calls that can fail for reasons outside of
  the program (malloc, the transport) take their outcomes from a function of the call number
  (\<open>g_rc\<close>, \<open>c_rc\<close>, \<open>lrc\<close>) or from an argument. A result \<open>None\<close> is undefined behaviour, a loop that does not
  end, or waiting for an event that does not come; that operations do return is part of the theorems.
  Loops with a bound are recursive functions with a termination proof, others are defined with
  \<open>partial_function\<close>; no fuel is used. Messages between processes are values in logs of sent
  messages; the client is given the events it processes in the order of their arrival.

  \<^bold>\<open>Bounds.\<close> Boxes have at most nine dimensions where data is copied, the data of an object fits into
  \<open>2 ^ 64\<close> bytes, the domain has coordinates below \<open>2 ^ 63\<close> and there are fewer than \<open>2 ^ 31\<close> servers;
  these are the ranges in which the arithmetic of the code does not wrap around.

  \<^bold>\<open>Not modelled.\<close> The transports (src/dart): sockets, RDMA libraries and threads; shared-memory objects,
  \<open>DS_SYNC_MSG\<close> and remote code execution, which are compile-time variants; DIMES other than its
  buffer allocator; the user interface and
  its Fortran wrappers, which fill descriptors and call the client; timers, logging and printing; the
  functions of src/include/sfc.h that nothing calls; tests, examples and benchmarks.
\<close>

end
